(* ===== verification/Prelude.thy ===== *)
theory Prelude
  imports Main "HOL-Library.Word"
begin

text \<open>
  Shared vocabulary of the development: the machine integers of the C++ sources, the
  outcome type that makes exceptions, failed assertions and undefined behaviour explicit,
  and the generic facts on words, lists and maps that more than one component uses.

  \<^item> \<open>u32\<close>, \<open>u64\<close> are \<open>uint32_t\<close> and \<open>size_t\<close>;
    \<open>cl_int\<close> is the signed 32-bit \<open>cl_int\<close>, read with \<open>sint\<close>.
  \<^item> \<open>'a outcome\<close> is what a C++ call can do: return (\<open>Ok\<close>), throw a
    \<open>__ocl_error\<close> carrying an OpenCL code (\<open>Throw\<close>, from \<open>OCL_ASSERT\<close>), end
    the process (\<open>Abort\<close>, from \<open>INTER_ASSERT\<close>), or run into undefined
    behaviour (\<open>Crash\<close>).
\<close>

unbundle bit_operations_syntax

type_synonym u32 = "32 word"
type_synonym u64 = "64 word"
type_synonym cl_int = "32 word"

abbreviation CL_SUCCESS :: cl_int where
  "CL_SUCCESS \<equiv> 0"

named_theorems word_facts
  \<open>bitwise characterisations of the word helpers\<close>

section \<open>Outcomes\<close>

datatype 'a outcome = Ok 'a | Throw cl_int | Abort | Crash

fun bindO :: "'a outcome \<Rightarrow> ('a \<Rightarrow> 'b outcome) \<Rightarrow> 'b outcome" where
  "bindO (Ok x) f = f x"
| "bindO (Throw e) f = Throw e"
| "bindO Abort f = Abort"
| "bindO Crash f = Crash"

lemma bindO_eq_Ok [simp]: "bindO m f = Ok y \<longleftrightarrow> (\<exists>x. m = Ok x \<and> f x = Ok y)"
  by (cases m) auto

lemma bindO_assoc: "bindO (bindO m f) g = bindO m (\<lambda>x. bindO (f x) g)"
  by (cases m) auto

lemma bindO_right_id [simp]: "bindO m Ok = m"
  by (cases m) auto

section \<open>Words\<close>

lemma bit_msb_iff_uint:
  fixes x :: "'a::len word"
  shows "bit x (LENGTH('a) - 1) \<longleftrightarrow> 2 ^ (LENGTH('a) - 1) \<le> uint x"
proof -
  let ?h = "2 ^ (LENGTH('a) - 1) :: int"
  have len: "(2::int) ^ LENGTH('a) = 2 * ?h"
    by (cases "LENGTH('a)") simp_all
  have lt: "uint x < 2 * ?h" using uint_lt2p [of x] by (simp add: len)
  have "bit x (LENGTH('a) - 1) \<longleftrightarrow> odd (uint x div ?h)"
    by (metis bit_iff_odd bit_uint_iff diff_less len_gt_0 zero_less_one)
  also have "\<dots> \<longleftrightarrow> ?h \<le> uint x"
  proof (cases "?h \<le> uint x")
    case True
    have "uint x div ?h = 1"
      using True lt by (simp add: int_div_pos_eq [where r = "uint x - ?h"])
    then show ?thesis using True by simp
  next
    case False
    then have "uint x div ?h = 0" by simp
    then show ?thesis using False by simp
  qed
  finally show ?thesis .
qed

text \<open>The top bit of \<open>w | -w\<close> says whether \<open>w\<close> is non-zero.\<close>

lemma bit_msb_or_neg:
  fixes w :: "'a::len word"
  shows "bit (w OR - w) (LENGTH('a) - 1) \<longleftrightarrow> w \<noteq> 0"
proof (cases "w = 0")
  case False
  let ?h = "2 ^ (LENGTH('a) - 1) :: int"
  have len: "(2::int) ^ LENGTH('a) = 2 * ?h"
    by (cases "LENGTH('a)") simp_all
  have "0 < uint w" using False by (simp add: order_less_le uint_0_iff)
  moreover have "uint (- w) = 2 * ?h - uint w"
    using calculation uint_lt2p [of w]
    by (simp add: uint_word_ariths len zmod_zminus1_eq_if)
  moreover have "bit (w OR - w) (LENGTH('a) - 1) \<longleftrightarrow> ?h \<le> uint w \<or> ?h \<le> uint (- w)"
    unfolding bit_or_iff by (simp only: bit_msb_iff_uint)
  ultimately show ?thesis using False by linarith
qed simp

lemma three_eq_mask: "(3 :: 32 word) = mask 2"
  by (simp add: mask_eq_exp_minus_1)

lemma bit_and_three [word_facts]: "bit (w AND (3 :: 32 word)) n \<longleftrightarrow> bit w n \<and> n < 2"
  by (auto simp: bit_and_iff three_eq_mask bit_mask_iff dest: bit_imp_le_length)

lemma bit_two_power [word_facts]:
  "bit (2 ^ k :: 'a::len word) n \<longleftrightarrow> n = k \<and> k < LENGTH('a)"
  by (auto simp: bit_exp_iff)

lemma bit_u32_1 [word_facts]: "bit (1 :: 32 word) n \<longleftrightarrow> n = 0"
  by (auto simp: bit_1_iff)

lemma bit_u32_2 [word_facts]: "bit (2 :: 32 word) n \<longleftrightarrow> n = 1"
  using bit_two_power [of 1 n, where 'a = 32] by auto

lemma bit_int_2 [word_facts]: "bit (2 :: int) n \<longleftrightarrow> n = 1"
  by (cases n) (simp_all add: bit_Suc bit_1_iff)

lemma word_of_nat_0_iff:
  "(of_nat n :: 'a::len word) = 0 \<longleftrightarrow> 2 ^ LENGTH('a) dvd n"
  by (rule word_of_nat_eq_0_iff)

lemma of_nat_eq_0_small:
  "n < 2 ^ LENGTH('a) \<Longrightarrow> (of_nat n :: 'a::len word) = 0 \<longleftrightarrow> n = 0"
  by (auto simp: word_of_nat_0_iff dest: dvd_imp_le)

section \<open>Lists and finite sets\<close>

lemma list_eq_2: "length xs = 2 \<longleftrightarrow> (\<exists>a b. xs = [a, b])"
  by (auto simp: numeral_2_eq_2 length_Suc_conv)

lemma less_2_iff: "(k::nat) < 2 \<longleftrightarrow> k = 0 \<or> k = 1"
  by auto

lemma all_less_2: "(\<forall>k < 2. P k) \<longleftrightarrow> P 0 \<and> P (1 :: nat)"
  by (auto simp: less_2_iff)

text \<open>Moving one element into or out of a finite set, counted modulo the word size.\<close>

lemma of_nat_card_move:
  assumes "finite S"
  shows "(of_nat (card (if b then insert p S else S - {p})) :: 'a::ring_1) =
     of_nat (card S) - of_bool (p \<in> S) + of_bool b"
proof (cases "p \<in> S")
  case True
  then have "(of_nat (card S) :: 'a) = of_nat (card (S - {p})) + 1"
    using assms by (metis card_Suc_Diff1 of_nat_Suc add.commute)
  then show ?thesis using True by (cases b) (simp_all add: insert_absorb)
next
  case False
  then show ?thesis using assms by (cases b) simp_all
qed

end
