(* ===== verification/TaskKind.thy ===== *)
theory TaskKind
  imports Prelude
begin

text \<open>
  Model of \<open>daemon/TaskKind.hpp\<close>: the kinds of GPU tasks, the bitmap with one bit per
  kind, and the branch-free helpers that keep a bitmap in step with a counter. The lemmas
  give each helper its bit-level meaning; \<open>UpdateGlobalBitmap_count\<close> is the fact
  the daemon rests on.
\<close>

type_synonym task_bitmap = u32
type_synonym task_kind_base = u32

datatype task_kind = COMPUTING | MEMCPY | NUM_OF_TASK_KIND

fun kind_nat :: "task_kind \<Rightarrow> nat" where
  "kind_nat COMPUTING = 0"
| "kind_nat MEMCPY = 1"
| "kind_nat NUM_OF_TASK_KIND = 2"

text \<open>A scoped enumeration compares by its underlying value.\<close>

instantiation task_kind :: linorder
begin

definition less_eq_task_kind :: "task_kind \<Rightarrow> task_kind \<Rightarrow> bool" where
  "a \<le> b \<longleftrightarrow> kind_nat a \<le> kind_nat b"

definition less_task_kind :: "task_kind \<Rightarrow> task_kind \<Rightarrow> bool" where
  "a < b \<longleftrightarrow> kind_nat a < kind_nat b"

instance
proof
  fix a b c :: task_kind
  show "a < b \<longleftrightarrow> a \<le> b \<and> \<not> b \<le> a"
    by (auto simp: less_eq_task_kind_def less_task_kind_def)
  show "a \<le> a" by (simp add: less_eq_task_kind_def)
  show "a \<le> b \<Longrightarrow> b \<le> c \<Longrightarrow> a \<le> c" by (simp add: less_eq_task_kind_def)
  show "a \<le> b \<Longrightarrow> b \<le> a \<Longrightarrow> a = b"
    by (cases a; cases b) (simp_all add: less_eq_task_kind_def)
  show "a \<le> b \<or> b \<le> a" by (auto simp: less_eq_task_kind_def)
qed

end

definition NumOfTaskKind :: nat where
  "NumOfTaskKind = kind_nat NUM_OF_TASK_KIND"

lemma NumOfTaskKind_eq [simp]: "NumOfTaskKind = 2"
  by (simp add: NumOfTaskKind_def)

lemma kind_nat_less_iff: "k < NUM_OF_TASK_KIND \<longleftrightarrow> kind_nat k < 2"
  by (simp add: less_task_kind_def)

section \<open>Helpers\<close>

definition IsNotZero :: "'a::len word \<Rightarrow> 'a word" where
  "IsNotZero UNum = signed_drop_bit (LENGTH('a) - 1) (UNum OR - UNum)"

definition AssignBits :: "task_bitmap \<Rightarrow> 'a::len word \<Rightarrow> task_bitmap \<Rightarrow> task_bitmap" where
  "AssignBits Bitmap Count BitMask =
     (let IsCountNotZero = scast (IsNotZero Count) :: task_bitmap
      in Bitmap XOR ((Bitmap XOR IsCountNotZero) AND BitMask))"

definition UpdateGlobalBitmap ::
  "task_bitmap \<Rightarrow> u32 \<Rightarrow> nat \<Rightarrow> task_bitmap \<Rightarrow> task_bitmap \<Rightarrow> task_bitmap \<times> u32" where
  "UpdateGlobalBitmap GblMap Count BitIdx OldProcMap NewProcMap =
     (let BitMask = push_bit BitIdx 1;
          NewCount = Count - drop_bit BitIdx (OldProcMap AND BitMask);
          NewCount = NewCount + drop_bit BitIdx (NewProcMap AND BitMask);
          NewGblMap = AssignBits GblMap NewCount BitMask
      in (NewGblMap, NewCount))"

section \<open>What the helpers compute\<close>

lemma IsNotZero_eq: "IsNotZero w = (if w = 0 then 0 else - 1)"
proof (rule bit_word_eqI)
  fix n assume n: "n < LENGTH('a)"
  have "bit (IsNotZero w) n \<longleftrightarrow> bit (w OR - w) (LENGTH('a) - 1)"
    using n by (cases "n = 0") (auto simp: IsNotZero_def bit_signed_drop_bit_iff simp del: bit_or_iff)
  then show "bit (IsNotZero w) n \<longleftrightarrow> bit (if w = 0 then 0 else - 1 :: 'a word) n"
    using n by (simp only: bit_msb_or_neg) simp
qed

lemma bit_AssignBits [word_facts]:
  "bit (AssignBits b c m) n \<longleftrightarrow> (if bit m n then c \<noteq> 0 else bit b n)"
proof -
  have ext: "(scast (IsNotZero c) :: task_bitmap) = (if c = 0 then 0 else - 1)"
    by (simp add: IsNotZero_eq)
  show ?thesis
    by (auto simp: AssignBits_def ext bit_and_iff bit_xor_iff dest: bit_imp_le_length)
qed

lemma one_bit_value: "drop_bit k (w AND push_bit k 1) = (of_bool (bit w k) :: u32)"
  by (rule bit_word_eqI) (auto simp: bit_simps bit_two_power dest: bit_imp_le_length)

lemma UpdateGlobalBitmap_eq:
  "UpdateGlobalBitmap g c k old new =
     (AssignBits g (c - of_bool (bit old k) + of_bool (bit new k)) (push_bit k 1),
      c - of_bool (bit old k) + of_bool (bit new k))"
  unfolding UpdateGlobalBitmap_def Let_def one_bit_value by (rule refl)

lemma bit_UpdateGlobalBitmap [word_facts]:
  "bit (fst (UpdateGlobalBitmap g c k old new)) n \<longleftrightarrow>
     (if n = k \<and> k < 32 then snd (UpdateGlobalBitmap g c k old new) \<noteq> 0 else bit g n)"
  by (simp add: UpdateGlobalBitmap_eq word_facts)

end
