(* ===== verification/Vendor.thy ===== *)
theory Vendor
  imports TaskKind "HOL-Library.Multiset"
begin

text \<open>
  The ground the runtime library stands on: the vendor's OpenCL implementation, reached
  through \<open>Lookup\<close> of \<open>runtime/LookupVendorImpl.hpp\<close>, and the C++ facilities the sources
  use around it (exceptions, scope guards of \<open>runtime/ResourceGuard.hpp\<close>).

  The vendor's implementation is not part of the repository. It is a parameter of every
  definition: a function from the calls made so far and the next call to its reply, so
  a statement that quantifies over it covers every behaviour, failures included. The trace
  of calls with their replies is part of the state, which makes resource use visible.
\<close>

type_synonym handle = nat

abbreviation NULL :: handle where
  "NULL \<equiv> 0"

section \<open>Calls and replies\<close>

datatype command =
    ReadBuffer handle bool u64 u64 handle
  | WriteBuffer handle bool u64 u64 handle
  | Marker
  | MapBuffer handle bool u64 u64 u64
  | UnmapMemObject handle handle
  | ReadImage handle bool "u64 list" "u64 list" u64 u64 handle
  | WriteImage handle bool "u64 list" "u64 list" u64 u64 handle
  | CopyBuffer handle handle u64 u64 u64
  | CopyBufferToImage handle handle u64 "u64 list" "u64 list"
  | NDRangeKernel handle nat "nat list" "nat list" "nat list"
  | WriteHost handle nat "cl_int list"
  | ReadHost handle nat nat

datatype api =
    CreateContext
  | CreateCommandQueue handle handle u64
  | ReleaseCommandQueue handle
  | GetQueueRefCount handle
  | GetProgramBuildInfo handle handle nat nat
  | BuildProgram handle string
  | GetProgramSource handle
  | GetProgramContext handle
  | GetProgramRefCount handle
  | CreateProgramWithSource handle string
  | ReleaseProgram handle
  | CreateKernel handle string
  | RetainKernel handle
  | ReleaseKernel handle
  | SetKernelArg handle nat u64 handle
  | SetKernelArgMem handle nat handle
  | SetKernelArgUInt handle nat u32
  | GetDeviceMaxDim handle
  | GetDeviceMaxSizes handle nat
  | GetKernelWorkGroupSize handle handle
  | CreateBuffer handle nat
  | ReleaseMemObject handle
  | CreateUserEvent handle
  | RetainEvent handle
  | ReleaseEvent handle
  | SetUserEventStatus handle cl_int
  | GetEventStatus handle
  | GetEventProfiling handle nat
  | SetResumeCallback handle nat
  | SetSchedEndCallback handle int
  | Enqueue command handle "handle list" bool
  | Flush handle
  | SchedStart task_kind
  | SchedEnd task_kind

record reply =
  ret :: cl_int
  obj :: handle
  num :: nat
  nums :: "nat list"
  str :: string

type_synonym trace = "(api \<times> reply) list"
type_synonym vendor = "trace \<Rightarrow> api \<Rightarrow> reply"

record world =
  calls :: trace
  guards :: "api list"

text \<open>What a creating call returns: by its specification a null handle if it fails.\<close>

definition created :: "reply \<Rightarrow> handle" where
  "created r = (if ret r = CL_SUCCESS then obj r else NULL)"

section \<open>Programs over the world\<close>

type_synonym ('w, 'a) prog = "'w \<Rightarrow> 'a outcome \<times> 'w"

definition return :: "'a \<Rightarrow> ('w, 'a) prog" where
  "return x w = (Ok x, w)"

definition throw :: "cl_int \<Rightarrow> ('w, 'a) prog" where
  "throw e w = (Throw e, w)"

definition abort :: "('w, 'a) prog" where
  "abort w = (Abort, w)"

definition crash :: "('w, 'a) prog" where
  "crash w = (Crash, w)"

definition andThen :: "('w, 'a) prog \<Rightarrow> ('a \<Rightarrow> ('w, 'b) prog) \<Rightarrow> ('w, 'b) prog" where
  "andThen m f w =
     (case m w of
        (Ok x, w) \<Rightarrow> f x w
      | (Throw e, w) \<Rightarrow> (Throw e, w)
      | (Abort, w) \<Rightarrow> (Abort, w)
      | (Crash, w) \<Rightarrow> (Crash, w))"

definition get :: "('w \<Rightarrow> 'a) \<Rightarrow> ('w, 'a) prog" where
  "get f w = (Ok (f w), w)"

definition modify :: "('w \<Rightarrow> 'w) \<Rightarrow> ('w, unit) prog" where
  "modify f w = (Ok (), f w)"

definition call :: "vendor \<Rightarrow> api \<Rightarrow> ('e world_scheme, reply) prog" where
  "call v a w = (let r = v (calls w) a in (Ok r, w\<lparr>calls := calls w @ [(a, r)]\<rparr>))"

text \<open>\<open>OCL_ASSERT\<close> and \<open>INTER_ASSERT\<close> of \<open>runtime/ErrorHandling.hpp\<close>.\<close>

definition OCL_ASSERT :: "cl_int \<Rightarrow> ('w, unit) prog" where
  "OCL_ASSERT Status = (if Status \<noteq> CL_SUCCESS then throw Status else return ())"

definition INTER_ASSERT :: "bool \<Rightarrow> ('w, unit) prog" where
  "INTER_ASSERT Cond = (if \<not> Cond then abort else return ())"

definition call_ok :: "vendor \<Rightarrow> api \<Rightarrow> ('e world_scheme, reply) prog" where
  "call_ok v a = andThen (call v a) (\<lambda>r. andThen (OCL_ASSERT (ret r)) (\<lambda>_. return r))"

text \<open>A function try block: the handler of \<open>__ocl_error\<close> gets the code.\<close>

definition catch :: "('w, 'a) prog \<Rightarrow> (cl_int \<Rightarrow> ('w, 'a) prog) \<Rightarrow> ('w, 'a) prog" where
  "catch m h w = (case m w of (Throw e, w) \<Rightarrow> h e w | p \<Rightarrow> p)"

section \<open>Scope guards\<close>

text \<open>
  \<open>guards\<close> holds the finaliser of every guard of the current scope that owns a resource,
  the youngest first. Leaving the scope, by a return or an exception, runs them in that
  order; \<open>std::abort\<close> does not unwind. Taking a resource out of its guard (setting it to
  \<open>NULL\<close> or moving it) removes the finaliser.
\<close>

definition own :: "api \<Rightarrow> ('e world_scheme, unit) prog" where
  "own a = modify (\<lambda>w. w\<lparr>guards := a # guards w\<rparr>)"

definition disown :: "api \<Rightarrow> ('e world_scheme, unit) prog" where
  "disown a = modify (\<lambda>w. w\<lparr>guards := remove1 a (guards w)\<rparr>)"

text \<open>The finaliser of a guard: none for a null handle.\<close>

definition guard_of :: "(handle \<Rightarrow> api) \<Rightarrow> handle \<Rightarrow> api list" where
  "guard_of Release h = (if h = NULL then [] else [Release h])"

lemma set_guard_of [simp]: "a \<in> set (guard_of Release h) \<longleftrightarrow> h \<noteq> NULL \<and> a = Release h"
  by (auto simp: guard_of_def)

lemma guard_of_simps [simp]:
  "guard_of Release NULL = []" "0 < h \<Longrightarrow> guard_of Release h = [Release h]"
  by (simp_all add: guard_of_def)

definition unguard :: "(handle \<Rightarrow> api) \<Rightarrow> handle \<Rightarrow> api list \<Rightarrow> api list" where
  "unguard Release h g = (if h = NULL then g else remove1 (Release h) g)"

lemma unguard_simps [simp]:
  "unguard Release NULL g = g"
  "unguard Release h (guard_of Release h @ g) = g"
  "unguard Release h (guard_of Release h) = []"
  "mset (unguard Release h g) = mset g - mset (guard_of Release h)"
  by (auto simp: unguard_def guard_of_def)

lemma unguard_Cons [simp]:
  "Release h \<noteq> a \<Longrightarrow> unguard Release h (a # g) = a # unguard Release h g"
  "0 < h \<Longrightarrow> unguard Release h (Release h # g) = g"
  by (simp_all add: unguard_def)

lemma set_unguard: "a \<in> set (unguard Release h g) \<Longrightarrow> a \<in> set g"
  using set_remove1_subset by (fastforce simp: unguard_def split: if_splits)

definition own_obj :: "(handle \<Rightarrow> api) \<Rightarrow> handle \<Rightarrow> ('e world_scheme, unit) prog" where
  "own_obj Release h = modify (\<lambda>w. w\<lparr>guards := guard_of Release h @ guards w\<rparr>)"

definition disown_obj :: "(handle \<Rightarrow> api) \<Rightarrow> handle \<Rightarrow> ('e world_scheme, unit) prog" where
  "disown_obj Release h =
     modify (\<lambda>w. w\<lparr>guards := unguard Release h (guards w)\<rparr>)"

fun replies :: "vendor \<Rightarrow> api list \<Rightarrow> trace \<Rightarrow> trace" where
  "replies v [] t = []"
| "replies v (a # as) t = (a, v t a) # replies v as (t @ [(a, v t a)])"

abbreviation run_calls :: "vendor \<Rightarrow> api list \<Rightarrow> trace \<Rightarrow> trace" where
  "run_calls v as t \<equiv> t @ replies v as t"

definition scoped :: "vendor \<Rightarrow> ('e world_scheme, 'a) prog \<Rightarrow> ('e world_scheme, 'a) prog" where
  "scoped v m w =
     (case m (w\<lparr>guards := []\<rparr>) of
        (x, w') \<Rightarrow>
          (case x of
             Abort \<Rightarrow> (Abort, w')
           | Crash \<Rightarrow> (Crash, w')
           | _ \<Rightarrow> (x, w'\<lparr>calls := run_calls v (guards w') (calls w'), guards := guards w\<rparr>)))"

named_theorems prog_simps \<open>unfolding the program combinators\<close>

lemmas prog_basic [prog_simps] = return_def throw_def abort_def crash_def get_def modify_def
  OCL_ASSERT_def INTER_ASSERT_def own_def disown_def own_obj_def disown_obj_def

lemma andThen_simps [simp]:
  "andThen (return x) f = f x"
  "andThen (throw e) f = throw e"
  "andThen abort f = abort"
  "andThen crash f = crash"
  by (simp_all add: fun_eq_iff andThen_def return_def throw_def abort_def crash_def)

lemma andThen_assoc: "andThen (andThen m f) g = andThen m (\<lambda>x. andThen (f x) g)"
  by (auto simp: fun_eq_iff andThen_def split: prod.splits outcome.splits)

lemma andThen_get [simp]: "andThen (get f) g w = g (f w) w"
  by (simp add: andThen_def get_def)

lemma andThen_modify [simp]: "andThen (modify f) g w = g () (f w)"
  by (simp add: andThen_def modify_def)

lemma andThen_call [simp]:
  "andThen (call v a) g w = g (v (calls w) a) (w\<lparr>calls := calls w @ [(a, v (calls w) a)]\<rparr>)"
  by (simp add: andThen_def call_def Let_def)

lemma andThen_own_obj [simp]:
  "andThen (own_obj Release h) g w = g () (w\<lparr>guards := guard_of Release h @ guards w\<rparr>)"
  by (simp add: own_obj_def)

lemma andThen_disown_obj [simp]:
  "andThen (disown_obj Release h) g w =
     g () (w\<lparr>guards := unguard Release h (guards w)\<rparr>)"
  by (simp add: disown_obj_def)

lemma andThen_OCL_ASSERT [simp]:
  "andThen (OCL_ASSERT e) g w = (if e = CL_SUCCESS then g () w else (Throw e, w))"
  by (simp add: OCL_ASSERT_def throw_def)

lemma andThen_INTER_ASSERT [simp]:
  "andThen (INTER_ASSERT b) g w = (if b then g () w else (Abort, w))"
  by (simp add: INTER_ASSERT_def abort_def)

text \<open>The calls a trace has beyond an earlier one, and how often a call occurs in it.\<close>

definition made :: "trace \<Rightarrow> api list" where
  "made t = map fst t"

lemma made_simps [simp]: "made [] = []" "made (t @ u) = made t @ made u" "made (x # t) = fst x # made t"
  by (simp_all add: made_def)

lemma made_replies [simp]: "made (replies v as t) = as"
  by (induction as arbitrary: t) simp_all

lemma set_replies: "x \<in> set (replies v as t) \<Longrightarrow> fst x \<in> set as"
  by (metis image_eqI list.set_map made_def made_replies)

declare replies.simps [simp del]

text \<open>A vendor that accepts every call and hands out a new handle each time.\<close>

definition ok_vendor :: vendor where
  "ok_vendor t a = \<lparr>ret = CL_SUCCESS, obj = length t + 1, num = 0, nums = [], str = []\<rparr>"

end
