(* ===== verification/Guards.thy ===== *)
theory Guards
  imports Vendor
begin

text \<open>
  The scope guards themselves: \<open>ResGuard\<close> of \<open>runtime/ResourceGuard.hpp\<close> and its twin of
  \<open>daemon/ResourceGuard.hpp\<close>, as variables that can be moved from, swapped, released and
  destroyed. The runtime model keeps of all this only the list of pending finalisers
  (\<open>guards\<close> of \<open>Vendor\<close>); the last section shows that the list is an abstraction of the
  variables.
\<close>

section \<open>Guard variables\<close>

text \<open>
  A store has the value of every guard variable ever constructed, in the order of construction,
  \<open>None\<close> once it is destroyed, and the resources finalised so far. Using a destroyed variable is
  undefined.
\<close>

record guard_store =
  slots :: "handle option list"
  finalised :: "handle list"

definition empty_store :: guard_store where
  "empty_store = \<lparr>slots = [], finalised = []\<rparr>"

definition with_slot :: "nat \<Rightarrow> guard_store \<Rightarrow> (handle \<Rightarrow> 'a outcome) \<Rightarrow> 'a outcome" where
  "with_slot i s f = (if i < length (slots s) then (case slots s ! i of None \<Rightarrow> Crash | Some r \<Rightarrow> f r) else Crash)"

definition ResGuard_new :: "handle \<Rightarrow> guard_store \<Rightarrow> guard_store outcome" where
  "ResGuard_new R s = Ok (s\<lparr>slots := slots s @ [Some R]\<rparr>)"

text \<open>The move constructor and the move assignment, which swaps.\<close>

definition ResGuard_move :: "nat \<Rightarrow> guard_store \<Rightarrow> guard_store outcome" where
  "ResGuard_move RHS s = with_slot RHS s (\<lambda>r. Ok (s\<lparr>slots := (slots s)[RHS := Some NULL] @ [Some r]\<rparr>))"

definition ResGuard_assign :: "nat \<Rightarrow> nat \<Rightarrow> guard_store \<Rightarrow> guard_store outcome" where
  "ResGuard_assign i RHS s = with_slot i s (\<lambda>a. with_slot RHS s (\<lambda>b. Ok (s\<lparr>slots := (slots s)[i := Some b, RHS := Some a]\<rparr>)))"

text \<open>
  \<open>Release\<close>: what the finaliser returns, or success if there is nothing to release. \<open>fin\<close> is what
  the vendor's release function returns.
\<close>

definition ResGuard_Release :: "(handle \<Rightarrow> cl_int) \<Rightarrow> nat \<Rightarrow> guard_store \<Rightarrow> (cl_int \<times> guard_store) outcome" where
  "ResGuard_Release fin i s = with_slot i s (\<lambda>r.
     if r \<noteq> NULL then Ok (fin r, s\<lparr>slots := (slots s)[i := Some NULL], finalised := finalised s @ [r]\<rparr>)
     else Ok (CL_SUCCESS, s))"

definition ResGuard_delete :: "(handle \<Rightarrow> cl_int) \<Rightarrow> nat \<Rightarrow> guard_store \<Rightarrow> guard_store outcome" where
  "ResGuard_delete fin i s = bindO (ResGuard_Release fin i s) (\<lambda>(_, s'). Ok (s'\<lparr>slots := (slots s')[i := None]\<rparr>))"

definition ResGuard_not :: "nat \<Rightarrow> guard_store \<Rightarrow> bool outcome" where
  "ResGuard_not i s = with_slot i s (\<lambda>r. Ok (r = NULL))"

text \<open>The daemon's guards: the finaliser returns a pointer, and the negation is the other way round.\<close>

definition sd_Release :: "(handle \<Rightarrow> handle) \<Rightarrow> nat \<Rightarrow> guard_store \<Rightarrow> (handle \<times> guard_store) outcome" where
  "sd_Release fin i s = with_slot i s (\<lambda>r.
     if r \<noteq> NULL then Ok (fin r, s\<lparr>slots := (slots s)[i := Some NULL], finalised := finalised s @ [r]\<rparr>)
     else Ok (NULL, s))"

definition sd_delete :: "(handle \<Rightarrow> handle) \<Rightarrow> nat \<Rightarrow> guard_store \<Rightarrow> guard_store outcome" where
  "sd_delete fin i s = bindO (sd_Release fin i s) (\<lambda>(_, s'). Ok (s'\<lparr>slots := (slots s')[i := None]\<rparr>))"

definition sd_not :: "nat \<Rightarrow> guard_store \<Rightarrow> bool outcome" where
  "sd_not i s = with_slot i s (\<lambda>r. Ok (r \<noteq> NULL))"

lemma sd_not_inverted: "sd_not i s = Ok b \<longleftrightarrow> ResGuard_not i s = Ok (\<not> b)"
  by (auto simp: sd_not_def ResGuard_not_def with_slot_def split: option.splits)

section \<open>The contract of a guard\<close>

datatype guard_op = New handle | Move nat | Assign nat nat | Free nat | Delete nat

fun entered :: "guard_op \<Rightarrow> handle multiset" where
  "entered (New R) = (if R = NULL then {#} else {#R#})"
| "entered op = {#}"

text \<open>
  A provider runs operations; \<open>held\<close> are the resources its guards own, \<open>gone\<close> those it finalised,
  \<open>alive\<close> says whether guard variables are left.
\<close>

locale scope_guards =
  fixes exec :: "guard_op \<Rightarrow> 's \<Rightarrow> 's outcome"
    and held :: "'s \<Rightarrow> handle multiset"
    and gone :: "'s \<Rightarrow> handle list"
    and alive :: "'s \<Rightarrow> bool"
  assumes conserve: "exec op s = Ok s' \<Longrightarrow> held s' + mset (gone s') = held s + mset (gone s) + entered op"
    and dead_empty: "\<not> alive s \<Longrightarrow> held s = {#}"
begin

fun exec_all :: "guard_op list \<Rightarrow> 's \<Rightarrow> 's outcome" where
  "exec_all [] s = Ok s"
| "exec_all (op # ops) s = bindO (exec op s) (exec_all ops)"

lemma conserve_all:
  "exec_all ops s = Ok s' \<Longrightarrow> held s' + mset (gone s') = held s + mset (gone s) + (\<Sum>op \<leftarrow> ops. entered op)"
proof (induction ops arbitrary: s)
  case (Cons op ops)
  then obtain s1 where "exec op s = Ok s1" "exec_all ops s1 = Ok s'" by auto
  then show ?case using conserve [of op s s1] Cons.IH [of s1] by (simp add: ac_simps)
qed simp

text \<open>Once all guards are destroyed, every resource has been finalised as often as it was handed in.\<close>

lemma all_finalised:
  assumes "exec_all ops s = Ok s'" and "held s = {#}" and "gone s = []" and "\<not> alive s'"
  shows "mset (gone s') = (\<Sum>op \<leftarrow> ops. entered op)"
  using conserve_all [OF assms(1)] assms(2-4) dead_empty by simp

end

section \<open>Both classes keep the contract\<close>

fun slot_res :: "handle option \<Rightarrow> handle multiset" where
  "slot_res None = {#}"
| "slot_res (Some r) = (if r = NULL then {#} else {#r#})"

definition held_by :: "guard_store \<Rightarrow> handle multiset" where
  "held_by s = (\<Sum>x \<leftarrow> slots s. slot_res x)"

definition any_alive :: "guard_store \<Rightarrow> bool" where
  "any_alive s \<longleftrightarrow> (\<exists>x \<in> set (slots s). x \<noteq> None)"

fun guard_exec :: "(handle \<Rightarrow> cl_int) \<Rightarrow> guard_op \<Rightarrow> guard_store \<Rightarrow> guard_store outcome" where
  "guard_exec fin (New R) s = ResGuard_new R s"
| "guard_exec fin (Move RHS) s = ResGuard_move RHS s"
| "guard_exec fin (Assign i RHS) s = ResGuard_assign i RHS s"
| "guard_exec fin (Free i) s = bindO (ResGuard_Release fin i s) (\<lambda>(_, s'). Ok s')"
| "guard_exec fin (Delete i) s = ResGuard_delete fin i s"

fun sd_exec :: "(handle \<Rightarrow> handle) \<Rightarrow> guard_op \<Rightarrow> guard_store \<Rightarrow> guard_store outcome" where
  "sd_exec fin (Free i) s = bindO (sd_Release fin i s) (\<lambda>(_, s'). Ok s')"
| "sd_exec fin (Delete i) s = sd_delete fin i s"
| "sd_exec fin op s = guard_exec (\<lambda>_. CL_SUCCESS) op s"

lemma slot_update:
  "i < length xs \<Longrightarrow> (\<Sum>x \<leftarrow> xs[i := v]. slot_res x) + slot_res (xs ! i) = (\<Sum>x \<leftarrow> xs. slot_res x) + slot_res v"
proof (induction xs arbitrary: i)
  case (Cons a xs)
  show ?case
  proof (cases i)
    case (Suc j)
    then show ?thesis using Cons.IH [of j] Cons.prems by (simp add: ac_simps)
  qed (simp add: ac_simps)
qed simp

lemma with_slot_Ok: "with_slot i s f = Ok x \<longleftrightarrow> (\<exists>r. i < length (slots s) \<and> slots s ! i = Some r \<and> f r = Ok x)"
  by (auto simp: with_slot_def split: option.splits)

lemma clear_slot:
  assumes "i < length (slots s)" and "slots s ! i = Some r" and "v = Some NULL \<or> v = None"
  shows "(\<Sum>x \<leftarrow> (slots s)[i := v]. slot_res x) + slot_res (Some r) = held_by s"
  using slot_update [OF assms(1), of v] assms(2,3) by (auto simp: held_by_def)

lemma release_conserves:
  assumes "i < length (slots s)" and "slots s ! i = Some r" and "r \<noteq> NULL"
  shows "held_by (s\<lparr>slots := (slots s)[i := Some NULL], finalised := finalised s @ [r]\<rparr>) + mset (finalised s @ [r]) =
      held_by s + mset (finalised s)"
  using clear_slot [OF assms(1,2), of "Some NULL"] assms(3) by (simp add: held_by_def)

lemma delete_conserves:
  assumes "i < length (slots s)" and "slots s ! i = Some NULL"
  shows "held_by (s\<lparr>slots := (slots s)[i := None]\<rparr>) = held_by s"
  using clear_slot [OF assms, of None] by (simp add: held_by_def)

lemma swap_conserves:
  assumes "i < length xs" and "j < length xs"
  shows "(\<Sum>x \<leftarrow> xs[i := xs ! j, j := xs ! i]. slot_res x) = (\<Sum>x \<leftarrow> xs. slot_res x)"
  using mset_swap [OF assms(2,1)] by (metis mset_map sum_mset_sum_list)

lemma Release_conserves:
  assumes "ResGuard_Release fin i s = Ok (x, s')"
  shows "held_by s' + mset (finalised s') = held_by s + mset (finalised s) \<and>
     i < length (slots s') \<and> slots s' ! i = Some NULL"
proof -
  obtain r where r: "i < length (slots s)" "slots s ! i = Some r"
    using assms by (auto simp: ResGuard_Release_def with_slot_Ok)
  show ?thesis
  proof (cases "r = NULL")
    case True
    then show ?thesis using assms r by (auto simp: ResGuard_Release_def with_slot_def)
  next
    case False
    then show ?thesis using assms r release_conserves [OF r] by (auto simp: ResGuard_Release_def with_slot_def)
  qed
qed

lemma sd_Release_conserves:
  assumes "sd_Release fin i s = Ok (x, s')"
  shows "held_by s' + mset (finalised s') = held_by s + mset (finalised s) \<and>
     i < length (slots s') \<and> slots s' ! i = Some NULL"
proof -
  obtain r where r: "i < length (slots s)" "slots s ! i = Some r"
    using assms by (auto simp: sd_Release_def with_slot_Ok)
  show ?thesis
  proof (cases "r = NULL")
    case True
    then show ?thesis using assms r by (auto simp: sd_Release_def with_slot_def)
  next
    case False
    then show ?thesis using assms r release_conserves [OF r] by (auto simp: sd_Release_def with_slot_def)
  qed
qed

lemma guard_exec_conserves:
  assumes "guard_exec fin op s = Ok s'"
  shows "held_by s' + mset (finalised s') = held_by s + mset (finalised s) + entered op"
proof (cases op)
  case (New R)
  then show ?thesis using assms by (auto simp: ResGuard_new_def held_by_def)
next
  case (Move RHS)
  then obtain r where r: "RHS < length (slots s)" "slots s ! RHS = Some r"
    "s' = s\<lparr>slots := (slots s)[RHS := Some NULL] @ [Some r]\<rparr>"
    using assms by (auto simp: ResGuard_move_def with_slot_Ok)
  then have "held_by s' = held_by s" using clear_slot [OF r(1,2), of "Some NULL"] by (simp add: held_by_def del: slot_res.simps)
  then show ?thesis using r(3) Move by simp
next
  case (Assign i RHS)
  then obtain a b where ab: "i < length (slots s)" "slots s ! i = Some a" "RHS < length (slots s)" "slots s ! RHS = Some b"
    "s' = s\<lparr>slots := (slots s)[i := slots s ! RHS, RHS := slots s ! i]\<rparr>"
    using assms by (auto simp: ResGuard_assign_def with_slot_Ok)
  then show ?thesis using swap_conserves [OF ab(1,3)] Assign by (simp add: held_by_def)
next
  case (Free i)
  then obtain x where "ResGuard_Release fin i s = Ok (x, s')" using assms by auto
  then show ?thesis using Release_conserves Free by simp
next
  case (Delete i)
  then obtain x s1 where s1: "ResGuard_Release fin i s = Ok (x, s1)" "s' = s1\<lparr>slots := (slots s1)[i := None]\<rparr>"
    using assms by (auto simp: ResGuard_delete_def)
  then show ?thesis using Release_conserves [OF s1(1)] delete_conserves [of i s1] Delete by simp
qed

lemma no_slot_res: "\<forall>x \<in> set xs. x = None \<Longrightarrow> (\<Sum>x \<leftarrow> xs. slot_res x) = {#}"
  by (induction xs) auto

lemma dead_store: "\<not> any_alive s \<Longrightarrow> held_by s = {#}"
  by (simp add: any_alive_def held_by_def no_slot_res)

interpretation runtime_guards: scope_guards "guard_exec fin" held_by finalised any_alive for fin
  by unfold_locales (auto simp: guard_exec_conserves dead_store)

lemma sd_exec_conserves:
  assumes "sd_exec fin op s = Ok s'"
  shows "held_by s' + mset (finalised s') = held_by s + mset (finalised s) + entered op"
proof (cases op)
  case (Free i)
  then obtain x where "sd_Release fin i s = Ok (x, s')" using assms by auto
  then show ?thesis using sd_Release_conserves Free by simp
next
  case (Delete i)
  then obtain x s1 where s1: "sd_Release fin i s = Ok (x, s1)" "s' = s1\<lparr>slots := (slots s1)[i := None]\<rparr>"
    using assms by (auto simp: sd_delete_def)
  then show ?thesis using sd_Release_conserves [OF s1(1)] delete_conserves [of i s1] Delete by simp
qed (use assms guard_exec_conserves [of "\<lambda>_. CL_SUCCESS" op s s'] in auto)

interpretation daemon_guards: scope_guards "sd_exec fin" held_by finalised any_alive for fin
  by unfold_locales (auto simp: sd_exec_conserves dead_store)

section \<open>The list of finalisers\<close>

text \<open>The resource types of the runtime with their finalisers, and those of the daemon.\<close>

datatype cl_resource = cl_mem | cl_event | cl_command_queue | cl_program | cl_kernel

fun Finalize :: "cl_resource \<Rightarrow> handle \<Rightarrow> api" where
  "Finalize cl_mem = ReleaseMemObject"
| "Finalize cl_event = ReleaseEvent"
| "Finalize cl_command_queue = ReleaseCommandQueue"
| "Finalize cl_program = ReleaseProgram"
| "Finalize cl_kernel = ReleaseKernel"

datatype sd_resource = sd_bus_message | sd_bus_slot | sd_bus

datatype sd_call = sd_bus_message_unref handle | sd_bus_slot_unref handle | sd_bus_flush_close_unref handle

fun sd_Finalize :: "sd_resource \<Rightarrow> handle \<Rightarrow> sd_call" where
  "sd_Finalize sd_bus_message = sd_bus_message_unref"
| "sd_Finalize sd_bus_slot = sd_bus_slot_unref"
| "sd_Finalize sd_bus = sd_bus_flush_close_unref"

text \<open>
  Leaving the scope destroys the first \<open>n\<close> variables that are left, the youngest first. The
  runtime model's scope is the list \<open>scope_of\<close>: constructing a guard puts its finaliser in
  front, and what leaving the scope finalises is that list, in its order.
\<close>

fun unwind :: "(handle \<Rightarrow> cl_int) \<Rightarrow> nat \<Rightarrow> guard_store \<Rightarrow> guard_store outcome" where
  "unwind fin 0 s = Ok s"
| "unwind fin (Suc i) s =
     (if slots s ! i = None then unwind fin i s else bindO (ResGuard_delete fin i s) (unwind fin i))"

fun owned :: "handle option list \<Rightarrow> handle list" where
  "owned [] = []"
| "owned (None # xs) = owned xs"
| "owned (Some r # xs) = (if r = NULL then owned xs else r # owned xs)"

definition scope_of :: "cl_resource \<Rightarrow> guard_store \<Rightarrow> api list" where
  "scope_of T s = map (Finalize T) (owned (rev (slots s)))"

lemma scope_of_new: "ResGuard_new R s = Ok s' \<Longrightarrow> scope_of T s' = guard_of (Finalize T) R @ scope_of T s"
  by (auto simp: scope_of_def ResGuard_new_def guard_of_def)

lemma delete_Ok:
  assumes "i < length (slots s)" and "slots s ! i = Some r"
  shows "ResGuard_delete fin i s =
     Ok (s\<lparr>slots := (slots s)[i := None], finalised := finalised s @ owned [Some r]\<rparr>)"
  using assms by (auto simp: ResGuard_delete_def ResGuard_Release_def with_slot_def)

lemma unwind_exact:
  assumes "n \<le> length (slots s)"
  shows "unwind fin n s = Ok (s\<lparr>slots := replicate n None @ drop n (slots s),
     finalised := finalised s @ owned (rev (take n (slots s)))\<rparr>)"
  using assms
proof (induction n arbitrary: s)
  case (Suc i)
  then have i: "i < length (slots s)" by simp
  have drop: "drop i (slots s) = slots s ! i # drop (Suc i) (slots s)" using i by (rule Cons_nth_drop_Suc [symmetric])
  show ?case
  proof (cases "slots s ! i")
    case None
    then show ?thesis using Suc.IH [of s] i drop
      by (simp add: take_Suc_conv_app_nth replicate_append_same [symmetric])
  next
    case (Some r)
    let ?s = "s\<lparr>slots := (slots s)[i := None], finalised := finalised s @ owned [Some r]\<rparr>"
    have "owned (rev (take (Suc i) (slots s))) = owned [Some r] @ owned (rev (take i (slots s)))"
      using i Some by (simp add: take_Suc_conv_app_nth)
    then show ?thesis using Suc.IH [of ?s] i Some delete_Ok [OF i Some, of fin]
      by (simp add: drop replicate_append_same [symmetric] drop_update_swap)
  qed
qed simp

lemma unwind_scope:
  obtains s' where "unwind fin (length (slots s)) s = Ok s'" and "\<not> any_alive s'"
    and "map (Finalize T) (finalised s') = map (Finalize T) (finalised s) @ scope_of T s"
  using unwind_exact [of "length (slots s)" s fin] by (simp add: scope_of_def any_alive_def)

end
