(* ===== verification/Keeper.thy ===== *)
theory Keeper
  imports Vendor
begin

text \<open>
  The housekeeping of both processes: \<open>DaemonKeeper\<close> of \<open>daemon/DaemonKeeper.hpp\<close> and
  \<open>daemon/DaemonKeeper.cpp\<close> (where log messages go and the cached time string), and \<open>Lookup\<close> of
  \<open>runtime/LookupVendorImpl.cpp\<close> (the vendor's functions, resolved once). The text of a message is
  what its format expands to; the time zone and the format of time stamps are the function \<open>fmt\<close>.
\<close>

section \<open>The keeper of the daemon\<close>

text \<open>The log levels are those of \<open>syslog\<close>: \<open>LOG_CRIT\<close>, \<open>LOG_ERR\<close>, \<open>LOG_INFO\<close> and \<open>LOG_DEBUG\<close>.\<close>

datatype daemon_level = D_FATAL | D_ERROR | D_INFO | D_DEBUG

fun level_int :: "daemon_level \<Rightarrow> int" where
  "level_int D_FATAL = 2"
| "level_int D_ERROR = 3"
| "level_int D_INFO = 6"
| "level_int D_DEBUG = 7"

datatype run_mode = DAEMON | TERMINAL

datatype log_output = OpenLog string | Syslog int string | Stderr string

record daemon_keeper =
  dkLogLevel :: daemon_level
  dkRunMode :: run_mode
  dkTime :: int
  TimeStrBuffer :: string
  dkOutput :: "log_output list"

definition DaemonKeeper_new :: daemon_keeper where
  "DaemonKeeper_new = \<lparr>dkLogLevel = D_DEBUG, dkRunMode = TERMINAL, dkTime = 0, TimeStrBuffer = [], dkOutput = []\<rparr>"

definition emit :: "log_output \<Rightarrow> daemon_keeper \<Rightarrow> daemon_keeper" where
  "emit x k = k\<lparr>dkOutput := dkOutput k @ [x]\<rparr>"

definition dk_shouldLog :: "daemon_level \<Rightarrow> daemon_keeper \<Rightarrow> bool" where
  "dk_shouldLog Level k \<longleftrightarrow> level_int Level \<le> level_int (dkLogLevel k)"

text \<open>\<open>Daemonize\<close>: \<open>Ret\<close> and \<open>Errno\<close> are the outcome of \<open>daemon(0, 0)\<close>.\<close>

definition Daemonize :: "int \<Rightarrow> int \<Rightarrow> daemon_keeper \<Rightarrow> int \<times> daemon_keeper" where
  "Daemonize Ret Errno k =
     (if Ret \<noteq> 0 then (Errno, k)
      else (0, (emit (OpenLog ''clpkm-sched-srv'') k)\<lparr>dkRunMode := DAEMON\<rparr>))"

definition UpdateTimeString :: "(int \<Rightarrow> string) \<Rightarrow> int \<Rightarrow> daemon_keeper \<Rightarrow> daemon_keeper" where
  "UpdateTimeString fmt Now k =
     (if dkTime k = Now then k else k\<lparr>TimeStrBuffer := fmt Now, dkTime := Now\<rparr>)"

text \<open>The two overloads of \<open>Log\<close>, at the time \<open>Now\<close>.\<close>

definition Log_plain :: "(int \<Rightarrow> string) \<Rightarrow> int \<Rightarrow> string \<Rightarrow> daemon_keeper \<Rightarrow> daemon_keeper" where
  "Log_plain fmt Now Text k =
     (if dkRunMode k = DAEMON then emit (Syslog 6 Text) k
      else (let k' = UpdateTimeString fmt Now k
            in emit (Stderr Text) (emit (Stderr (''['' @ TimeStrBuffer k' @ ''] '')) k')))"

definition Log_level :: "(int \<Rightarrow> string) \<Rightarrow> daemon_level \<Rightarrow> int \<Rightarrow> string \<Rightarrow> daemon_keeper \<Rightarrow> daemon_keeper" where
  "Log_level fmt Level Now Text k =
     (if \<not> dk_shouldLog Level k then k
      else if dkRunMode k = DAEMON then emit (Syslog (level_int Level) Text) k
      else (let k' = UpdateTimeString fmt Now k
            in emit (Stderr Text) (emit (Stderr (''['' @ TimeStrBuffer k' @ ''] '')) k')))"

datatype keeper_op = Go_daemon int int | Say int string | Say_level daemon_level int string

fun keeper_step :: "(int \<Rightarrow> string) \<Rightarrow> keeper_op \<Rightarrow> daemon_keeper \<Rightarrow> daemon_keeper" where
  "keeper_step fmt (Go_daemon Ret Errno) k = snd (Daemonize Ret Errno k)"
| "keeper_step fmt (Say Now Text) k = Log_plain fmt Now Text k"
| "keeper_step fmt (Say_level Level Now Text) k = Log_level fmt Level Now Text k"

fun keeper_run :: "(int \<Rightarrow> string) \<Rightarrow> keeper_op list \<Rightarrow> daemon_keeper \<Rightarrow> daemon_keeper" where
  "keeper_run fmt [] k = k"
| "keeper_run fmt (op # ops) k = keeper_run fmt ops (keeper_step fmt op k)"

subsection \<open>The cached time string is never seen\<close>

text \<open>What is logged if every message formats its own time, and no level is filtered.\<close>

fun log_spec :: "(int \<Rightarrow> string) \<Rightarrow> run_mode \<Rightarrow> keeper_op list \<Rightarrow> log_output list" where
  "log_spec fmt M [] = []"
| "log_spec fmt M (Go_daemon Ret Errno # ops) =
     (if Ret = 0 then OpenLog ''clpkm-sched-srv'' # log_spec fmt DAEMON ops else log_spec fmt M ops)"
| "log_spec fmt M (Say Now Text # ops) =
     (case M of DAEMON \<Rightarrow> [Syslog 6 Text] | TERMINAL \<Rightarrow> [Stderr (''['' @ fmt Now @ ''] ''), Stderr Text]) @ log_spec fmt M ops"
| "log_spec fmt M (Say_level Level Now Text # ops) =
     (case M of DAEMON \<Rightarrow> [Syslog (level_int Level) Text] | TERMINAL \<Rightarrow> [Stderr (''['' @ fmt Now @ ''] ''), Stderr Text]) @
       log_spec fmt M ops"

fun after_epoch :: "keeper_op \<Rightarrow> bool" where
  "after_epoch (Go_daemon Ret Errno) = True"
| "after_epoch (Say Now Text) \<longleftrightarrow> 0 < Now"
| "after_epoch (Say_level Level Now Text) \<longleftrightarrow> 0 < Now"

definition keeper_inv :: "(int \<Rightarrow> string) \<Rightarrow> daemon_keeper \<Rightarrow> bool" where
  "keeper_inv fmt k \<longleftrightarrow> dkLogLevel k = D_DEBUG \<and> (dkTime k \<noteq> 0 \<longrightarrow> TimeStrBuffer k = fmt (dkTime k))"

lemma keeper_inv_emit [simp]: "keeper_inv fmt (emit x k) = keeper_inv fmt k"
  by (simp add: keeper_inv_def emit_def)

lemma emit_simps [simp]:
  "dkOutput (emit x k) = dkOutput k @ [x]" "dkRunMode (emit x k) = dkRunMode k"
  "TimeStrBuffer (emit x k) = TimeStrBuffer k"
  by (simp_all add: emit_def)

lemma all_levels: "keeper_inv fmt k \<Longrightarrow> dk_shouldLog Level k"
  by (cases Level) (simp_all add: keeper_inv_def dk_shouldLog_def)

lemma UpdateTimeString_exact:
  assumes "keeper_inv fmt k" and "0 < Now"
  shows "keeper_inv fmt (UpdateTimeString fmt Now k) \<and> TimeStrBuffer (UpdateTimeString fmt Now k) = fmt Now \<and>
     dkOutput (UpdateTimeString fmt Now k) = dkOutput k \<and> dkRunMode (UpdateTimeString fmt Now k) = dkRunMode k"
  using assms by (auto simp: UpdateTimeString_def keeper_inv_def)

lemma keeper_step_exact:
  assumes "keeper_inv fmt k" and "after_epoch op"
  shows "keeper_inv fmt (keeper_step fmt op k) \<and>
     dkOutput (keeper_step fmt op k) @ log_spec fmt (dkRunMode (keeper_step fmt op k)) ops =
       dkOutput k @ log_spec fmt (dkRunMode k) (op # ops)"
proof (cases op)
  case (Go_daemon Ret Errno)
  then show ?thesis using assms(1) by (auto simp: Daemonize_def keeper_inv_def emit_def)
next
  case (Say Now Text)
  then show ?thesis using assms UpdateTimeString_exact [of fmt k Now]
    by (cases "dkRunMode k") (simp_all add: Log_plain_def Let_def)
next
  case (Say_level Level Now Text)
  then show ?thesis using assms UpdateTimeString_exact [of fmt k Now] all_levels [OF assms(1), of Level]
    by (cases "dkRunMode k") (simp_all add: Log_level_def Let_def)
qed

lemma keeper_run_exact:
  assumes "keeper_inv fmt k" and "\<forall>op \<in> set ops. after_epoch op"
  shows "dkOutput (keeper_run fmt ops k) = dkOutput k @ log_spec fmt (dkRunMode k) ops"
  using assms
proof (induction ops arbitrary: k)
  case (Cons op ops)
  have step: "keeper_inv fmt (keeper_step fmt op k)"
    "dkOutput (keeper_step fmt op k) @ log_spec fmt (dkRunMode (keeper_step fmt op k)) ops =
       dkOutput k @ log_spec fmt (dkRunMode k) (op # ops)"
    using keeper_step_exact Cons.prems by simp_all
  show ?case using Cons.IH [OF step(1)] Cons.prems(2) step(2) by simp
qed simp

text \<open>
  The log of the daemon, from its start: every message appears, with its own time on the terminal,
  in the system log from the moment the process became a daemon.
\<close>

lemma keeper_log_exact:
  assumes "\<forall>op \<in> set ops. after_epoch op"
  shows "dkOutput (keeper_run fmt ops DaemonKeeper_new) = log_spec fmt TERMINAL ops"
  using keeper_run_exact [of fmt DaemonKeeper_new ops] assms by (simp add: keeper_inv_def DaemonKeeper_new_def)

section \<open>Looking up the vendor's functions\<close>

text \<open>
  The dynamic linker is a parameter: given the name and whether an error is pending, \<open>dlsym\<close> returns
  an address and whether one is pending afterwards. \<open>dlerror\<close> reports a pending error and clears it.
  The state has the static variables of the instances of \<open>Lookup\<close> and the names asked for.
\<close>

type_synonym linker = "string \<Rightarrow> bool \<Rightarrow> handle \<times> bool"

record lookup_state =
  api_ptr :: "string \<rightharpoonup> handle"
  asked :: "string list"
  dl_pending :: bool

definition Lookup :: "linker \<Rightarrow> string \<Rightarrow> lookup_state \<Rightarrow> (handle \<times> lookup_state) outcome" where
  "Lookup dlsym api_name s =
     (let s = (case api_ptr s api_name of
                 Some _ \<Rightarrow> s
               | None \<Rightarrow>
                   (let (p, e) = dlsym api_name (dl_pending s)
                    in s\<lparr>api_ptr := (api_ptr s)(api_name \<mapsto> p), asked := asked s @ [api_name], dl_pending := e\<rparr>));
          p = the (api_ptr s api_name)
      in if p = NULL then Abort
         else if dl_pending s then Abort
         else Ok (p, s\<lparr>dl_pending := False\<rparr>))"

fun Lookups :: "linker \<Rightarrow> string list \<Rightarrow> lookup_state \<Rightarrow> (handle list \<times> lookup_state) outcome" where
  "Lookups dlsym [] s = Ok ([], s)"
| "Lookups dlsym (n # ns) s = bindO (Lookup dlsym n s) (\<lambda>(p, s). bindO (Lookups dlsym ns s) (\<lambda>(ps, s). Ok (p # ps, s)))"

definition lookup_inv :: "lookup_state \<Rightarrow> bool" where
  "lookup_inv s \<longleftrightarrow> distinct (asked s) \<and> dom (api_ptr s) = set (asked s)"

lemma Lookup_Ok:
  assumes "Lookup dlsym n s = Ok (p, s')" and "lookup_inv s"
  shows "lookup_inv s' \<and> p \<noteq> NULL \<and> api_ptr s' n = Some p \<and> api_ptr s \<subseteq>\<^sub>m api_ptr s' \<and> \<not> dl_pending s'"
proof (cases "api_ptr s n")
  case None
  then have "n \<notin> set (asked s)" using assms(2) by (auto simp: lookup_inv_def)
  moreover have "s' = s\<lparr>api_ptr := (api_ptr s)(n \<mapsto> p), asked := asked s @ [n], dl_pending := False\<rparr>" "p \<noteq> NULL"
    using assms(1) None by (auto simp: Lookup_def Let_def split: prod.splits if_splits)
  ultimately show ?thesis using assms(2) None by (auto simp: lookup_inv_def map_le_def simp del: domIff)
next
  case (Some q)
  then have "s' = s\<lparr>dl_pending := False\<rparr>" "p = q" "p \<noteq> NULL"
    using assms(1) by (auto simp: Lookup_def Let_def split: if_splits)
  then show ?thesis using assms(2) Some by (simp add: lookup_inv_def)
qed

text \<open>Every function is asked for at most once, and all its users get the same, non-null address.\<close>

lemma Lookups_exact:
  assumes "Lookups dlsym ns s = Ok (ps, s')" and "lookup_inv s"
  shows "lookup_inv s' \<and> NULL \<notin> set ps \<and> map (api_ptr s') ns = map Some ps \<and> api_ptr s \<subseteq>\<^sub>m api_ptr s'"
  using assms
proof (induction ns arbitrary: s ps)
  case (Cons n ns)
  then obtain p s1 qs where s1: "Lookup dlsym n s = Ok (p, s1)" "Lookups dlsym ns s1 = Ok (qs, s')" "ps = p # qs"
    by auto
  note n = Lookup_Ok [OF s1(1) Cons.prems(2)]
  have IH: "lookup_inv s' \<and> NULL \<notin> set qs \<and> map (api_ptr s') ns = map Some qs \<and> api_ptr s1 \<subseteq>\<^sub>m api_ptr s'"
    using Cons.IH s1(2) n by blast
  have "api_ptr s' n = Some p" using n IH by (metis domI map_le_def)
  then show ?case using n IH s1(3) map_le_trans by auto
qed simp

text \<open>
  The error state is not cleared before it is tested: an error the application left pending ends the
  process even if the function was resolved long ago.
\<close>

lemma Lookup_pending:
  assumes "api_ptr s n = Some p" and "dl_pending s"
  shows "Lookup dlsym n s = Abort"
  using assms by (simp add: Lookup_def)

end
