(* ===== verification/Profile.thy ===== *)
theory Profile
  imports Prelude
begin

text \<open>
  The kernel profiles of \<open>cc/KernelProfile.hpp\<close>, which the instrumenting compiler writes as
  YAML (\<open>MappingTraits::mapping\<close>, over LLVM) and the runtime reads back (\<open>convert::decode\<close>,
  over yaml-cpp). The two libraries are outside the repository: documents are modelled after
  parsing, scalars as the text they hold, and how numbers are written and read is a
  parameter, \<open>yaml_lib\<close>. A YAML exception is \<open>None\<close>.
\<close>

section \<open>Decimal numbers\<close>

text \<open>\<open>std::to_string\<close> of an unsigned integer.\<close>

definition digit :: "nat \<Rightarrow> char" where
  "digit d = char_of (48 + d)"

fun dec :: "nat \<Rightarrow> string" where
  "dec n = (if n < 10 then [digit n] else dec (n div 10) @ [digit (n mod 10)])"

declare dec.simps [simp del]

text \<open>Reading it back.\<close>

definition undec :: "string \<Rightarrow> nat" where
  "undec s = foldl (\<lambda>n c. 10 * n + (of_char c - 48)) 0 s"

lemma of_char_digit [simp]: "d < 10 \<Longrightarrow> of_char (digit d) = (48 + d :: nat)"
  by (simp add: digit_def of_char_of)

lemma undec_dec [simp]: "undec (dec n) = n"
proof (induction n rule: dec.induct)
  case (1 n)
  then show ?case by (cases "n < 10") (auto simp: dec.simps [of n] undec_def)
qed

lemma dec_inject [simp]: "dec m = dec n \<longleftrightarrow> m = n"
  by (metis undec_dec)

lemma dec_not_Nil [simp]: "dec n \<noteq> []"
  by (subst dec.simps) simp

lemma dec_digits: "c \<in> set (dec n) \<Longrightarrow> 48 \<le> (of_char c :: nat) \<and> (of_char c :: nat) < 58"
proof (induction n rule: dec.induct)
  case (1 n)
  then show ?case by (cases "n < 10") (auto simp: dec.simps [of n])
qed

text \<open>A number followed by something that is not a digit is read off without ambiguity.\<close>

lemma dec_prefix_inject:
  assumes "dec m @ c # s = dec n @ d # t" and "\<not> (48 \<le> (of_char c :: nat) \<and> (of_char c :: nat) < 58)"
    and "\<not> (48 \<le> (of_char d :: nat) \<and> (of_char d :: nat) < 58)"
  shows "m = n \<and> c # s = d # t"
proof -
  obtain us where u: "dec m = dec n @ us \<and> us @ c # s = d # t \<or> dec m @ us = dec n \<and> c # s = us @ d # t"
    using assms(1) unfolding append_eq_append_conv2 by blast
  have "us = []"
  proof (rule ccontr)
    assume "us \<noteq> []"
    then obtain e es where us: "us = e # es" by (cases us) auto
    from u show False
    proof (elim disjE conjE)
      assume "dec m = dec n @ us" "us @ c # s = d # t"
      then have "d \<in> set (dec m)" by (simp add: us)
      then show False using dec_digits assms(3) by blast
    next
      assume "dec m @ us = dec n" "c # s = us @ d # t"
      then have "c \<in> set (dec n)" using us by (metis append_Cons in_set_conv_decomp list.inject)
      then show False using dec_digits assms(2) by blast
    qed
  qed
  then show ?thesis using u assms(1) by (auto simp del: dec_inject simp: dec_inject [symmetric])
qed

section \<open>Kernel profiles\<close>

record KernelProfile =
  Name :: string
  NumOfParam :: nat
  ReqPrvSize :: nat
  ReqLocSize :: nat
  LocPtrParamIdx :: "nat list"

text \<open>The constructors.\<close>

definition KernelProfile_default :: KernelProfile where
  "KernelProfile_default =
     \<lparr>Name = [], NumOfParam = 0, ReqPrvSize = 0, ReqLocSize = 0, LocPtrParamIdx = []\<rparr>"

definition KernelProfile_new :: "string \<Rightarrow> nat \<Rightarrow> KernelProfile" where
  "KernelProfile_new N NP =
     \<lparr>Name = N, NumOfParam = NP, ReqPrvSize = 0, ReqLocSize = 0, LocPtrParamIdx = []\<rparr>"

definition Key_Name :: string where "Key_Name = ''kernel''"
definition Key_NumOfParam :: string where "Key_NumOfParam = ''num-of-param''"
definition Key_ReqPrvSize :: string where "Key_ReqPrvSize = ''req-private''"
definition Key_ReqLocSize :: string where "Key_ReqLocSize = ''req-local''"
definition Key_LocPtrParamIdx :: string where "Key_LocPtrParamIdx = ''loc-ptr-param-idx''"

lemmas Keys = Key_Name_def Key_NumOfParam_def Key_ReqPrvSize_def Key_ReqLocSize_def Key_LocPtrParamIdx_def

section \<open>Documents\<close>

datatype ynode = YScalar string | YSeq "ynode list" | YMap "(string \<times> ynode) list"

record yaml_lib =
  PutNumber :: "nat \<Rightarrow> string"
  AsUnsigned :: "string \<Rightarrow> nat option"
  AsSize :: "string \<Rightarrow> nat option"

text \<open>
  What the code relies on: a number written by LLVM is read back by yaml-cpp, if it fits.
\<close>

definition numbers_survive :: "yaml_lib \<Rightarrow> bool" where
  "numbers_survive L \<longleftrightarrow> (\<forall>n < 2 ^ 32. AsUnsigned L (PutNumber L n) = Some n) \<and>
     (\<forall>n < 2 ^ 64. AsSize L (PutNumber L n) = Some n)"

text \<open>\<open>YNode[Key]\<close>: undefined if there is no such key; a scalar has no keys and throws.\<close>

fun sub_node :: "ynode \<Rightarrow> string \<Rightarrow> ynode option option" where
  "sub_node (YMap kvs) k = Some (map_of kvs k)"
| "sub_node (YSeq _) k = Some None"
| "sub_node (YScalar _) k = None"

fun as_scalar :: "(string \<Rightarrow> 'a option) \<Rightarrow> ynode \<Rightarrow> 'a option" where
  "as_scalar conv (YScalar s) = conv s"
| "as_scalar conv _ = None"

fun all_some :: "'a option list \<Rightarrow> 'a list option" where
  "all_some [] = Some []"
| "all_some (x # xs) = Option.bind x (\<lambda>a. Option.bind (all_some xs) (\<lambda>as. Some (a # as)))"

fun as_vector :: "(ynode \<Rightarrow> 'a option) \<Rightarrow> ynode \<Rightarrow> 'a list option" where
  "as_vector conv (YSeq ns) = all_some (map conv ns)"
| "as_vector conv _ = None"

section \<open>Writing\<close>

text \<open>
  \<open>mapping\<close>: \<open>mapOptional\<close> leaves a value out that equals the default given, and an empty
  sequence.
\<close>

definition mapping :: "yaml_lib \<Rightarrow> KernelProfile \<Rightarrow> ynode" where
  "mapping L KP = YMap
     ([(Key_Name, YScalar (Name KP)),
       (Key_NumOfParam, YScalar (PutNumber L (NumOfParam KP))),
       (Key_ReqPrvSize, YScalar (PutNumber L (ReqPrvSize KP)))] @
      (if ReqLocSize KP = 0 then [] else [(Key_ReqLocSize, YScalar (PutNumber L (ReqLocSize KP)))]) @
      (if LocPtrParamIdx KP = [] then []
       else [(Key_LocPtrParamIdx, YSeq (map (\<lambda>n. YScalar (PutNumber L n)) (LocPtrParamIdx KP)))]))"

definition write_profiles :: "yaml_lib \<Rightarrow> KernelProfile list \<Rightarrow> ynode" where
  "write_profiles L PL = YSeq (map (mapping L) PL)"

section \<open>Reading\<close>

text \<open>\<open>decode\<close>: fills in the profile given and says whether the required keys were there.\<close>

definition decode :: "yaml_lib \<Rightarrow> ynode \<Rightarrow> KernelProfile \<Rightarrow> (bool \<times> KernelProfile) option" where
  "decode L YNode KP =
     Option.bind (sub_node YNode Key_Name) (\<lambda>name.
     if name = None then Some (False, KP) else
     Option.bind (sub_node YNode Key_NumOfParam) (\<lambda>np.
     if np = None then Some (False, KP) else
     Option.bind (sub_node YNode Key_ReqPrvSize) (\<lambda>prv.
     if prv = None then Some (False, KP) else
     Option.bind (as_scalar Some (the name)) (\<lambda>s.
     let KP1 = KP\<lparr>Name := s\<rparr> in
     Option.bind (as_scalar (AsUnsigned L) (the np)) (\<lambda>n.
     let KP2 = KP1\<lparr>NumOfParam := n\<rparr> in
     Option.bind (as_scalar (AsSize L) (the prv)) (\<lambda>p.
     let KP3 = KP2\<lparr>ReqPrvSize := p\<rparr> in
     Option.bind (sub_node YNode Key_ReqLocSize) (\<lambda>loc.
     Option.bind (case loc of None \<Rightarrow> Some KP3
        | Some y \<Rightarrow> Option.bind (as_scalar (AsSize L) y) (\<lambda>l. Some (KP3\<lparr>ReqLocSize := l\<rparr>))) (\<lambda>KP4.
     Option.bind (sub_node YNode Key_LocPtrParamIdx) (\<lambda>idx.
     Option.bind (case idx of None \<Rightarrow> Some KP4
        | Some y \<Rightarrow> Option.bind (as_vector (as_scalar (AsUnsigned L)) y) (\<lambda>is. Some (KP4\<lparr>LocPtrParamIdx := is\<rparr>))) (\<lambda>KP5.
     Some (True, KP5)))))))))))"

text \<open>
  \<open>YAML::Load(\<dots>).as<ProfileList>()\<close>: every element is decoded into a fresh profile, and a
  decoder that answers false makes \<open>as\<close> throw.
\<close>

definition as_profile :: "yaml_lib \<Rightarrow> ynode \<Rightarrow> KernelProfile option" where
  "as_profile L y = (case decode L y KernelProfile_default of Some (True, KP) \<Rightarrow> Some KP | _ \<Rightarrow> None)"

definition as_ProfileList :: "yaml_lib \<Rightarrow> ynode \<Rightarrow> KernelProfile list option" where
  "as_ProfileList L y = as_vector (as_profile L) y"

section \<open>Round trip\<close>

text \<open>The members fit their C++ types.\<close>

definition profile_fits :: "KernelProfile \<Rightarrow> bool" where
  "profile_fits KP \<longleftrightarrow> NumOfParam KP < 2 ^ 32 \<and> ReqPrvSize KP < 2 ^ 64 \<and> ReqLocSize KP < 2 ^ 64 \<and>
     (\<forall>i \<in> set (LocPtrParamIdx KP). i < 2 ^ 32)"

lemma all_some_map: "(\<And>x. x \<in> set xs \<Longrightarrow> f (g x) = Some x) \<Longrightarrow> all_some (map f (map g xs)) = Some xs"
  by (induction xs) auto

lemma as_profile_mapping:
  assumes "numbers_survive L" and "profile_fits KP"
  shows "as_profile L (mapping L KP) = Some KP"
proof (cases KP)
  case (fields name np prv loc idx)
  have n: "AsUnsigned L (PutNumber L np) = Some np" "AsSize L (PutNumber L prv) = Some prv"
    "AsSize L (PutNumber L loc) = Some loc"
    and i: "\<And>i. i \<in> set idx \<Longrightarrow> AsUnsigned L (PutNumber L i) = Some i"
    using assms fields by (auto simp: numbers_survive_def profile_fits_def)
  have "all_some (map (as_scalar (AsUnsigned L)) (map (\<lambda>n. YScalar (PutNumber L n)) idx)) = Some idx"
    by (rule all_some_map) (simp add: i)
  then show ?thesis
    by (simp add: fields as_profile_def decode_def mapping_def Keys Let_def KernelProfile_default_def n comp_def)
qed

lemma all_some_list_all2: "all_some (map f xs) = Some ys \<Longrightarrow> list_all2 (\<lambda>x y. f x = Some y) xs ys"
  by (induction xs arbitrary: ys) (auto simp: Option.bind_eq_Some_conv)

lemma as_scalar_Some: "as_scalar conv y = Some a \<longleftrightarrow> (\<exists>s. y = YScalar s \<and> conv s = Some a)"
  by (cases y) auto

lemma as_profile_keys:
  assumes "as_profile L y = Some KP"
  shows "\<exists>kvs np prv. y = YMap kvs \<and> map_of kvs Key_Name = Some (YScalar (Name KP)) \<and>
     map_of kvs Key_NumOfParam = Some (YScalar np) \<and> AsUnsigned L np = Some (NumOfParam KP) \<and>
     map_of kvs Key_ReqPrvSize = Some (YScalar prv) \<and> AsSize L prv = Some (ReqPrvSize KP)"
proof (cases y)
  case (YMap kvs)
  then show ?thesis
    using assms
    by (auto simp: as_profile_def decode_def Let_def Option.bind_eq_Some_conv as_scalar_Some
        split: option.splits bool.splits if_splits)
qed (use assms in \<open>simp_all add: as_profile_def decode_def\<close>)

text \<open>Decimal notation has the property the code relies on.\<close>

definition decimal_lib :: yaml_lib where
  "decimal_lib = \<lparr>PutNumber = dec, AsUnsigned = (\<lambda>s. if undec s < 2 ^ 32 then Some (undec s) else None),
     AsSize = (\<lambda>s. if undec s < 2 ^ 64 then Some (undec s) else None)\<rparr>"

lemma decimal_survives: "numbers_survive decimal_lib"
  by (simp add: numbers_survive_def decimal_lib_def)

section \<open>Properties\<close>

text \<open>
  C30. The runtime reads the profiles the compiler wrote. If the numbers survive the two YAML
  libraries, decoding what \<open>mapping\<close> produced gives back the list of profiles, the optional
  keys that were left out included.
\<close>

theorem profiles_roundtrip:
  assumes "numbers_survive L" and "\<forall>KP \<in> set PL. profile_fits KP"
  shows "as_ProfileList L (write_profiles L PL) = Some PL"
  unfolding as_ProfileList_def write_profiles_def as_vector.simps
  using assms by (intro all_some_map as_profile_mapping) auto

lemma profiles_roundtrip_witness:
  "as_ProfileList decimal_lib (write_profiles decimal_lib
     [\<lparr>Name = ''f'', NumOfParam = 3, ReqPrvSize = 8, ReqLocSize = 0, LocPtrParamIdx = [0, 2]\<rparr>]) =
   Some [\<lparr>Name = ''f'', NumOfParam = 3, ReqPrvSize = 8, ReqLocSize = 0, LocPtrParamIdx = [0, 2]\<rparr>]"
  by (rule profiles_roundtrip [OF decimal_survives]) (simp add: profile_fits_def)

text \<open>
  A profile list is accepted only if it is a sequence of maps that all have the three
  required keys, and a name, a parameter count and a size that can be read.
\<close>

theorem profiles_checked:
  assumes "as_ProfileList L y = Some PL"
  shows "\<exists>ns. y = YSeq ns \<and> list_all2 (\<lambda>n KP. \<exists>kvs np prv. n = YMap kvs \<and>
     map_of kvs Key_Name = Some (YScalar (Name KP)) \<and>
     map_of kvs Key_NumOfParam = Some (YScalar np) \<and> AsUnsigned L np = Some (NumOfParam KP) \<and>
     map_of kvs Key_ReqPrvSize = Some (YScalar prv) \<and> AsSize L prv = Some (ReqPrvSize KP)) ns PL"
proof (cases y)
  case (YSeq ns)
  have "list_all2 (\<lambda>n KP. as_profile L n = Some KP) ns PL"
    using assms unfolding as_ProfileList_def YSeq as_vector.simps by (rule all_some_list_all2)
  then show ?thesis
    unfolding YSeq by (intro exI [of _ ns] conjI refl) (erule list_all2_mono, erule as_profile_keys)
qed (use assms in \<open>simp_all add: as_ProfileList_def\<close>)

lemma profiles_checked_witness:
  "\<exists>ns. write_profiles decimal_lib [KernelProfile_new ''f'' 2] = YSeq ns \<and> length ns = 1"
proof -
  have "as_ProfileList decimal_lib (write_profiles decimal_lib [KernelProfile_new ''f'' 2]) = Some [KernelProfile_new ''f'' 2]"
    by (simp add: as_ProfileList_def write_profiles_def as_profile_mapping [OF decimal_survives] profile_fits_def KernelProfile_new_def)
  from profiles_checked [OF this] show ?thesis by (auto dest: list_all2_lengthD)
qed

end
