(* ===== verification/CompilerDriver.thy ===== *)
theory CompilerDriver
  imports Profile "HOL-Library.Multiset"
begin

text \<open>
  \<open>runtime/CompilerDriver.cpp\<close>: the runtime feeds the program source to the instrumenting
  compiler, which it starts as a child process, and reads back the instrumented source and
  the kernel profiles through three pipes.

  What the system calls answer is a function \<open>os\<close> of the calls made before; the trace of
  calls is part of the state, so is \<open>errno\<close>. A loop that may run forever is a
  \<open>partial_function\<close>, whose value \<open>None\<close> is not returning. The child's side is \<open>Child\<close>; in the
  parent's trace it does not appear.
\<close>

section \<open>System calls\<close>

type_synonym fd = int

datatype scall = Pipe | Close fd | Fork | Read fd | Write fd string | Waitpid int | Kill int
  | Dup2 fd fd | Exec string "string option" | Exit int

record sret =
  sret :: int
  serrno :: nat
  sfds :: "fd \<times> fd"
  sdata :: string
  sstatus :: nat

type_synonym trace = "(scall \<times> sret) list"
type_synonym os = "trace \<Rightarrow> scall \<Rightarrow> sret"

definition EINTR :: nat where "EINTR = 4"
definition STDIN_FILENO :: fd where "STDIN_FILENO = 0"
definition STDOUT_FILENO :: fd where "STDOUT_FILENO = 1"
definition STDERR_FILENO :: fd where "STDERR_FILENO = 2"

text \<open>The local variables of \<open>Compile\<close>: both ends of the pipes, the child, what was read.\<close>

datatype slot = Src0 | Src1 | Out0 | Out1 | Yaml0 | Yaml1

record cstate =
  log :: trace
  errno :: nat
  fds :: "slot \<Rightarrow> fd"
  Pid :: int
  SourceStr :: string
  OutStr :: string
  YamlStr :: string
  Profiles :: "KernelProfile list"

type_synonym 'a prog = "cstate \<Rightarrow> ('a \<times> cstate) option"

definition ret :: "'a \<Rightarrow> 'a prog" where
  "ret x s = Some (x, s)"

definition bind :: "'a prog \<Rightarrow> ('a \<Rightarrow> 'b prog) \<Rightarrow> 'b prog" where
  "bind m f s = (case m s of None \<Rightarrow> None | Some (x, s') \<Rightarrow> f x s')"

definition gets :: "(cstate \<Rightarrow> 'a) \<Rightarrow> 'a prog" where
  "gets f s = Some (f s, s)"

definition modify :: "(cstate \<Rightarrow> cstate) \<Rightarrow> unit prog" where
  "modify f s = Some ((), f s)"

definition sys :: "os \<Rightarrow> scall \<Rightarrow> sret prog" where
  "sys os c s =
     (let r = os (log s) c
      in Some (r, s\<lparr>log := log s @ [(c, r)], errno := if sret r < 0 then serrno r else errno s\<rparr>))"

section \<open>Helpers\<close>

definition CloseFd :: "os \<Rightarrow> slot \<Rightarrow> bool prog" where
  "CloseFd os p =
     bind (gets (\<lambda>s. fds s p)) (\<lambda>Fd.
       if Fd \<noteq> - 1
       then bind (sys os (Close Fd)) (\<lambda>r.
            bind (modify (\<lambda>s. s\<lparr>fds := (fds s)(p := - 1)\<rparr>)) (\<lambda>_.
            ret (sret r = 0)))
       else ret True)"

text \<open>The number written, or the negative result of the call that failed.\<close>

partial_function (option) FullWrite_loop :: "os \<Rightarrow> fd \<Rightarrow> string \<Rightarrow> nat \<Rightarrow> cstate \<Rightarrow> (int \<times> cstate) option" where
  "FullWrite_loop os Fd CharBuf Offset s =
     (if Offset < length CharBuf
      then (case sys os (Write Fd (drop Offset CharBuf)) s of
          None \<Rightarrow> None
        | Some (r, s') \<Rightarrow>
            if sret r \<ge> 0 then FullWrite_loop os Fd CharBuf (Offset + nat (sret r)) s'
            else if serrno r \<noteq> EINTR then Some (sret r, s')
            else FullWrite_loop os Fd CharBuf Offset s')
      else Some (int Offset, s))"

definition FullWrite :: "os \<Rightarrow> fd \<Rightarrow> string \<Rightarrow> int prog" where
  "FullWrite os Fd Buffer = FullWrite_loop os Fd Buffer 0"

text \<open>
  The reading loops: \<open>Ret > 0 && Buf.append(Buffer, Ret).size()\<close>. They give back the last
  result and what was appended.
\<close>

partial_function (option) ReadAll :: "os \<Rightarrow> fd \<Rightarrow> string \<Rightarrow> cstate \<Rightarrow> ((int \<times> string) \<times> cstate) option" where
  "ReadAll os Fd Buf s =
     (case sys os (Read Fd) s of
        None \<Rightarrow> None
      | Some (r, s') \<Rightarrow>
          if sret r > 0
          then (if length (Buf @ take (nat (sret r)) (sdata r)) \<noteq> 0
                then ReadAll os Fd (Buf @ take (nat (sret r)) (sdata r)) s'
                else Some ((sret r, Buf @ take (nat (sret r)) (sdata r)), s'))
          else Some ((sret r, Buf), s'))"

text \<open>\<open>std::string::find\<close> and the trimming of what comes before and after the document.\<close>

fun find_str :: "string \<Rightarrow> string \<Rightarrow> nat option" where
  "find_str pat [] = (if pat = [] then Some 0 else None)"
| "find_str pat (c # s) = (if take (length pat) (c # s) = pat then Some 0 else map_option Suc (find_str pat s))"

definition newline :: char where "newline = char_of (10 :: nat)"

definition TrimYaml :: "string \<Rightarrow> string" where
  "TrimYaml Yaml =
     (let Y1 = (case find_str (''---'' @ [newline]) Yaml of Some StartPos \<Rightarrow> drop StartPos Yaml | None \<Rightarrow> Yaml)
      in case find_str (newline # ''...'') Y1 of Some EndPos \<Rightarrow> take (EndPos + 4) Y1 | None \<Rightarrow> Y1)"

section \<open>The child\<close>

text \<open>
  The child's own copy of the descriptors; \<open>Exec\<close> returns only if it failed. The error
  message goes where the compiler would write its diagnostics.
\<close>

fun CloseAll :: "os \<Rightarrow> slot list \<Rightarrow> bool prog" where
  "CloseAll os [] = ret True"
| "CloseAll os (p # ps) = bind (CloseFd os p) (\<lambda>ok. if ok then CloseAll os ps else ret False)"

definition dup2 :: "os \<Rightarrow> slot \<Rightarrow> fd \<Rightarrow> bool prog" where
  "dup2 os p Fd = bind (gets (\<lambda>s. fds s p)) (\<lambda>old. bind (sys os (Dup2 old Fd)) (\<lambda>r. ret (sret r \<noteq> - 1)))"

definition Child :: "os \<Rightarrow> (nat \<Rightarrow> string) \<Rightarrow> string \<Rightarrow> string option \<Rightarrow> unit prog" where
  "Child os StrError CompilerPath Options =
     bind (bind (dup2 os Src0 STDIN_FILENO) (\<lambda>a. if \<not> a then ret False else
           bind (dup2 os Out1 STDOUT_FILENO) (\<lambda>b. if \<not> b then ret False else
           dup2 os Yaml1 STDERR_FILENO))) (\<lambda>dups.
     bind (if \<not> dups then bind (gets (\<lambda>s. StrError (errno s))) ret
           else bind (CloseAll os [Src0, Src1, Out0, Out1, Yaml0, Yaml1]) (\<lambda>closed.
             if \<not> closed then gets (\<lambda>s. StrError (errno s))
             else bind (sys os (Exec CompilerPath Options)) (\<lambda>r.
               if sret r = - 1 then gets (\<lambda>s. StrError (errno s)) else ret []))) (\<lambda>ErrorMsg.
     bind (FullWrite os STDERR_FILENO ErrorMsg) (\<lambda>_.
     bind (sys os (Exit (- 1))) (\<lambda>_. ret ()))))"

section \<open>Compile\<close>

datatype yexn = YAMLException string | StdException string

text \<open>\<open>YAML::Load\<close>, the parameter \<open>parse\<close>, then \<open>as<ProfileList>\<close>.\<close>

definition LoadProfiles ::
  "yaml_lib \<Rightarrow> (string \<Rightarrow> yexn + ynode) \<Rightarrow> string \<Rightarrow> yexn + KernelProfile list" where
  "LoadProfiles L parse text =
     (case parse text of
        Inl e \<Rightarrow> Inl e
      | Inr y \<Rightarrow> (case as_ProfileList L y of None \<Rightarrow> Inl (YAMLException ''bad conversion'') | Some PL \<Rightarrow> Inr PL))"

definition CloseSlots :: "os \<Rightarrow> bool \<Rightarrow> bool prog" where
  "CloseSlots os Succeed =
     bind (CloseFd os Src0) (\<lambda>a. bind (CloseFd os Src1) (\<lambda>b. bind (CloseFd os Out0) (\<lambda>c.
     bind (CloseFd os Out1) (\<lambda>d. bind (CloseFd os Yaml0) (\<lambda>e. bind (CloseFd os Yaml1) (\<lambda>f.
     ret (Succeed \<and> a \<and> b \<and> c \<and> d \<and> e \<and> f)))))))"

definition Cleanup :: "os \<Rightarrow> (nat \<Rightarrow> string) \<Rightarrow> bool \<Rightarrow> bool prog" where
  "Cleanup os StrError Succeed0 =
     bind (CloseSlots os Succeed0) (\<lambda>Succeed.
     bind (gets Pid) (\<lambda>pid.
     bind (if pid \<noteq> 0 then bind (sys os (Kill pid)) (\<lambda>_. ret ()) else ret ()) (\<lambda>_.
     bind (if \<not> Succeed then modify (\<lambda>s. s\<lparr>SourceStr := StrError (errno s)\<rparr>) else ret ()) (\<lambda>_.
     ret Succeed))))"

text \<open>\<open>pipe(P)\<close>: non-zero on failure.\<close>

definition open_pipe :: "os \<Rightarrow> slot \<Rightarrow> slot \<Rightarrow> bool prog" where
  "open_pipe os p q =
     bind (sys os Pipe) (\<lambda>r.
       if sret r = 0
       then bind (modify (\<lambda>s. s\<lparr>fds := (fds s)(p := fst (sfds r), q := snd (sfds r))\<rparr>)) (\<lambda>_. ret True)
       else ret False)"

definition open_pipes :: "os \<Rightarrow> bool prog" where
  "open_pipes os =
     bind (open_pipe os Src0 Src1) (\<lambda>a. if \<not> a then ret False else
     bind (open_pipe os Out0 Out1) (\<lambda>b. if \<not> b then ret False else
     open_pipe os Yaml0 Yaml1))"

definition WEXITSTATUS :: "nat \<Rightarrow> nat" where
  "WEXITSTATUS status = (status div 256) mod 256"

text \<open>The end of the parent's side: the exit status, then the profiles.\<close>

definition Finish ::
  "os \<Rightarrow> (nat \<Rightarrow> string) \<Rightarrow> (string \<Rightarrow> yexn + KernelProfile list) \<Rightarrow> bool prog" where
  "Finish os StrError Load =
     bind (gets Pid) (\<lambda>pid.
     bind (sys os (Waitpid pid)) (\<lambda>waited.
       if sret waited = - 1 \<or> WEXITSTATUS (sstatus waited) \<noteq> 0
       then bind (modify (\<lambda>s. s\<lparr>SourceStr := YamlStr s, Pid := 0\<rparr>)) (\<lambda>_.
            bind (Cleanup os StrError True) (\<lambda>_. ret False))
       else bind (modify (\<lambda>s. s\<lparr>Pid := 0, YamlStr := TrimYaml (YamlStr s)\<rparr>)) (\<lambda>_.
            bind (gets (\<lambda>s. Load (YamlStr s))) (\<lambda>loaded.
              case loaded of
                Inl (YAMLException what) \<Rightarrow>
                  bind (modify (\<lambda>s. s\<lparr>SourceStr := ''Invalid kernel profile: '' @ what\<rparr>)) (\<lambda>_.
                  bind (Cleanup os StrError True) (\<lambda>_. ret False))
              | Inl (StdException what) \<Rightarrow>
                  bind (modify (\<lambda>s. s\<lparr>SourceStr := ''Caught standard exception: '' @ what\<rparr>)) (\<lambda>_.
                  bind (Cleanup os StrError True) (\<lambda>_. ret False))
              | Inr PL \<Rightarrow>
                  bind (modify (\<lambda>s. s\<lparr>Profiles := PL, SourceStr := OutStr s\<rparr>)) (\<lambda>_.
                  Cleanup os StrError True)))))"

text \<open>The parent's side after the fork: write the source, read the code, read the profiles.\<close>

definition Parent ::
  "os \<Rightarrow> (nat \<Rightarrow> string) \<Rightarrow> (string \<Rightarrow> yexn + KernelProfile list) \<Rightarrow> bool prog" where
  "Parent os StrError Load =
     (let fail = Cleanup os StrError False
      in
      bind (CloseAll os [Src0, Out1, Yaml1]) (\<lambda>closed. if \<not> closed then fail else
      bind (gets (\<lambda>s. (fds s Src1, SourceStr s))) (\<lambda>(Fd, Source).
      bind (FullWrite os Fd Source) (\<lambda>Ret.
      bind (CloseFd os Src1) (\<lambda>closed. if \<not> closed \<or> Ret = - 1 then fail else
      bind (modify (\<lambda>s. s\<lparr>SourceStr := []\<rparr>)) (\<lambda>_.
      bind (gets (\<lambda>s. fds s Out0)) (\<lambda>Fd.
      bind (ReadAll os Fd []) (\<lambda>(Ret, Out).
      bind (modify (\<lambda>s. s\<lparr>OutStr := Out\<rparr>)) (\<lambda>_.
      bind (CloseFd os Out0) (\<lambda>closed. if \<not> closed \<or> Ret = - 1 then fail else
      bind (gets (\<lambda>s. fds s Yaml0)) (\<lambda>Fd.
      bind (ReadAll os Fd []) (\<lambda>(Ret, Yaml).
      bind (modify (\<lambda>s. s\<lparr>YamlStr := Yaml\<rparr>)) (\<lambda>_.
      bind (CloseFd os Yaml0) (\<lambda>closed. if \<not> closed \<or> Ret = - 1 then fail else
      Finish os StrError Load))))))))))))))"

text \<open>The whole function; \<open>None\<close> is the child, which does not return.\<close>

definition Compile ::
  "os \<Rightarrow> (nat \<Rightarrow> string) \<Rightarrow> (string \<Rightarrow> yexn + KernelProfile list) \<Rightarrow> string \<Rightarrow> string option
     \<Rightarrow> bool option prog" where
  "Compile os StrError Load CompilerPath Options =
     bind (modify (\<lambda>s. s\<lparr>Pid := 0, fds := (\<lambda>_. - 1), OutStr := [], YamlStr := []\<rparr>)) (\<lambda>_.
     bind (open_pipes os) (\<lambda>opened.
     if \<not> opened then bind (Cleanup os StrError False) (\<lambda>b. ret (Some b)) else
     bind (sys os Fork) (\<lambda>forked.
     bind (modify (\<lambda>s. s\<lparr>Pid := sret forked\<rparr>)) (\<lambda>_.
     if sret forked = - 1 then bind (Cleanup os StrError False) (\<lambda>b. ret (Some b))
     else if sret forked = 0 then bind (Child os StrError CompilerPath Options) (\<lambda>_. ret None)
     else bind (Parent os StrError Load) (\<lambda>b. ret (Some b))))))"

section \<open>Reasoning about the program\<close>

definition post :: "'a prog \<Rightarrow> ('a \<Rightarrow> cstate \<Rightarrow> bool) \<Rightarrow> cstate \<Rightarrow> bool" where
  "post m Q s \<longleftrightarrow> (\<forall>x s'. m s = Some (x, s') \<longrightarrow> Q x s')"

named_theorems pc \<open>rules for post\<close>

lemma post_weaken: "post m P s \<Longrightarrow> (\<And>x s'. P x s' \<Longrightarrow> Q x s') \<Longrightarrow> post m Q s"
  by (simp add: post_def)

lemma post_ret [pc]: "Q x s \<Longrightarrow> post (ret x) Q s"
  by (simp add: post_def ret_def)

lemma post_bind [pc]: "post m (\<lambda>x s'. post (f x) Q s') s \<Longrightarrow> post (bind m f) Q s"
  by (auto simp: post_def bind_def split: option.splits)

lemma post_gets [pc]: "Q (f s) s \<Longrightarrow> post (gets f) Q s"
  by (simp add: post_def gets_def)

lemma post_modify [pc]: "Q () (f s) \<Longrightarrow> post (modify f) Q s"
  by (simp add: post_def modify_def)

text \<open>The state after a system call.\<close>

abbreviation after_call :: "cstate \<Rightarrow> scall \<Rightarrow> sret \<Rightarrow> cstate" where
  "after_call s c r \<equiv> s\<lparr>log := log s @ [(c, r)], errno := if sret r < 0 then serrno r else errno s\<rparr>"

lemma post_sys [pc]: "Q (os (log s) c) (after_call s c (os (log s) c)) \<Longrightarrow> post (sys os c) Q s"
  by (simp add: post_def sys_def Let_def)

lemma post_if [pc]: "(b \<Longrightarrow> post m Q s) \<Longrightarrow> (\<not> b \<Longrightarrow> post m' Q s) \<Longrightarrow> post (if b then m else m') Q s"
  by simp

lemma post_prod [pc]: "post (f (fst p) (snd p)) Q s \<Longrightarrow> post (case p of (x, y) \<Rightarrow> f x y) Q s"
  by (cases p) simp

lemma post_case_loaded [pc]:
  assumes "\<And>e. x = Inl (YAMLException e) \<Longrightarrow> post (A e) Q s" and "\<And>e. x = Inl (StdException e) \<Longrightarrow> post (B e) Q s"
    and "\<And>PL. x = Inr PL \<Longrightarrow> post (C PL) Q s"
  shows "post (case x of Inl (YAMLException e) \<Rightarrow> A e | Inl (StdException e) \<Rightarrow> B e | Inr PL \<Rightarrow> C PL) Q s"
  using assms by (auto split: sum.split yexn.split)

section \<open>The traffic on the descriptors\<close>

fun opened :: "trace \<Rightarrow> fd list" where
  "opened [] = []"
| "opened ((c, r) # t) = (if c = Pipe \<and> sret r = 0 then [fst (sfds r), snd (sfds r)] else []) @ opened t"

fun closed :: "trace \<Rightarrow> fd list" where
  "closed [] = []"
| "closed ((c, r) # t) = (case c of Close Fd \<Rightarrow> [Fd] | _ \<Rightarrow> []) @ closed t"

fun written :: "fd \<Rightarrow> trace \<Rightarrow> string" where
  "written f [] = []"
| "written f ((c, r) # t) =
     (case c of Write g d \<Rightarrow> if f = g \<and> sret r \<ge> 0 then take (nat (sret r)) d else [] | _ \<Rightarrow> []) @ written f t"

fun read_from :: "fd \<Rightarrow> trace \<Rightarrow> string" where
  "read_from f [] = []"
| "read_from f ((c, r) # t) =
     (case c of Read g \<Rightarrow> if f = g \<and> sret r > 0 then take (nat (sret r)) (sdata r) else [] | _ \<Rightarrow> []) @ read_from f t"

lemma traffic_append [simp]:
  "opened (t @ u) = opened t @ opened u" "closed (t @ u) = closed t @ closed u"
  "written f (t @ u) = written f t @ written f u" "read_from f (t @ u) = read_from f t @ read_from f u"
  by (induction t) auto

text \<open>What the code relies on: POSIX of \<open>pipe\<close> and \<open>write\<close>.\<close>

definition sound_os :: "os \<Rightarrow> bool" where
  "sound_os os \<longleftrightarrow>
     (\<forall>t. sret (os t Pipe) = 0 \<longrightarrow> (let (a, b) = sfds (os t Pipe) in 0 \<le> a \<and> 0 \<le> b \<and> a \<noteq> b \<and>
        a \<notin> set (opened t) - set (closed t) \<and> b \<notin> set (opened t) - set (closed t))) \<and>
     (\<forall>t f d. - 1 \<le> sret (os t (Write f d)) \<and> sret (os t (Write f d)) \<le> int (length d))"

lemma sound_pipe:
  assumes "sound_os os" and "sret (os t Pipe) = 0"
  shows "0 \<le> fst (sfds (os t Pipe))" "0 \<le> snd (sfds (os t Pipe))" "fst (sfds (os t Pipe)) \<noteq> snd (sfds (os t Pipe))"
    "fst (sfds (os t Pipe)) \<notin> set (opened t) - set (closed t)" "snd (sfds (os t Pipe)) \<notin> set (opened t) - set (closed t)"
  using assms unfolding sound_os_def Let_def split_def by auto

lemma sound_write: "sound_os os \<Longrightarrow> - 1 \<le> sret (os t (Write f d)) \<and> sret (os t (Write f d)) \<le> int (length d)"
  by (simp add: sound_os_def)

section \<open>Descriptors in use\<close>

abbreviation slots :: "slot list" where
  "slots \<equiv> [Src0, Src1, Out0, Out1, Yaml0, Yaml1]"

definition balanced :: "trace \<Rightarrow> cstate \<Rightarrow> bool" where
  "balanced t0 s \<longleftrightarrow> (\<exists>u. log s = t0 @ u \<and> - 1 \<notin> set (opened u) \<union> set (closed u) \<and>
     (\<forall>x. x \<noteq> - 1 \<longrightarrow> count_list (opened u) x = count_list (closed u) x + count_list (map (fds s) slots) x))"

text \<open>Other calls, and changes of other variables, do not matter.\<close>

definition quiet :: "scall \<Rightarrow> bool" where
  "quiet c \<longleftrightarrow> (case c of Pipe \<Rightarrow> False | Close _ \<Rightarrow> False | _ \<Rightarrow> True)"

lemma balanced_call: "balanced t0 s \<Longrightarrow> quiet c \<Longrightarrow> balanced t0 (after_call s c r)"
  unfolding balanced_def quiet_def
  by (elim exE, rename_tac u, rule_tac x = "u @ [(c, r)]" in exI) (auto split: scall.splits)

lemma balanced_frame: "balanced t0 s \<Longrightarrow> log s' = log s \<Longrightarrow> fds s' = fds s \<Longrightarrow> balanced t0 s'"
  by (simp add: balanced_def)

lemma balanced_variables [simp]:
  "balanced t0 (s\<lparr>SourceStr := x\<rparr>) = balanced t0 s" "balanced t0 (s\<lparr>OutStr := x\<rparr>) = balanced t0 s"
  "balanced t0 (s\<lparr>YamlStr := x\<rparr>) = balanced t0 s" "balanced t0 (s\<lparr>Profiles := p\<rparr>) = balanced t0 s"
  "balanced t0 (s\<lparr>Pid := i\<rparr>) = balanced t0 s"
  by (simp_all add: balanced_def)

lemma balanced_close:
  assumes "balanced t0 s" and "fds s p \<noteq> - 1"
  shows "balanced t0 (s\<lparr>log := log s @ [(Close (fds s p), r)], errno := e, fds := (fds s)(p := - 1)\<rparr>)"
proof -
  obtain u where u: "log s = t0 @ u" "- 1 \<notin> set (opened u) \<union> set (closed u)"
    "\<And>x. x \<noteq> - 1 \<Longrightarrow> count_list (opened u) x = count_list (closed u) x + count_list (map (fds s) slots) x"
    using assms(1) by (auto simp: balanced_def)
  have "count_list (opened u) x = count_list (closed u) x + (if fds s p = x then 1 else 0) +
      count_list (map ((fds s)(p := - 1)) slots) x" if "x \<noteq> - 1" for x
    using u(3) [OF that] that by (cases p) auto
  then show ?thesis
    unfolding balanced_def using u(1,2) assms(2)
    by (intro exI [of _ "u @ [(Close (fds s p), r)]"]) auto
qed

lemma post_CloseFd:
  assumes "balanced t0 s"
  shows "post (CloseFd os p) (\<lambda>ok s'. balanced t0 s' \<and> fds s' = (fds s)(p := - 1)) s"
  unfolding CloseFd_def
  apply (intro pc)
   apply (use balanced_close [OF assms] in simp)
  using assms apply (simp add: fun_upd_idem)
  done

lemma post_CloseSlots:
  assumes "balanced t0 s"
  shows "post (CloseSlots os b) (\<lambda>ok s'. balanced t0 s' \<and> fds s' = (\<lambda>_. - 1) \<and> (ok \<longrightarrow> b)) s"
proof -
  have slots_gone: "f(Src0 := - 1, Src1 := - 1, Out0 := - 1, Out1 := - 1, Yaml0 := - 1, Yaml1 := - 1) = (\<lambda>_. - 1 :: fd)" for f
  proof
    show "(f(Src0 := - 1, Src1 := - 1, Out0 := - 1, Out1 := - 1, Yaml0 := - 1, Yaml1 := - 1)) p = - 1" for p
      by (cases p) simp_all
  qed
  show ?thesis
    unfolding CloseSlots_def
    apply (rule post_bind, rule post_weaken [OF post_CloseFd], rule assms, elim conjE)
    apply (rule post_bind, rule post_weaken [OF post_CloseFd], assumption, elim conjE)+
    apply (rule post_ret)
    apply (simp add: slots_gone)
    done
qed

text \<open>A state in which the call is over: everything was closed.\<close>

definition all_closed :: "trace \<Rightarrow> cstate \<Rightarrow> bool" where
  "all_closed t0 s \<longleftrightarrow> balanced t0 s \<and> fds s = (\<lambda>_. - 1)"

lemma post_Cleanup:
  assumes "balanced t0 s"
  shows "post (Cleanup os StrError b) (\<lambda>ok s'. all_closed t0 s' \<and> (ok \<longrightarrow> b)) s"
  unfolding Cleanup_def
  apply (rule post_bind, rule post_weaken [OF post_CloseSlots [OF assms]], elim conjE)
  apply (intro pc)
     apply (simp_all add: all_closed_def)
     apply (auto intro: balanced_frame [OF balanced_call [where c = "Kill _"]] balanced_frame simp: quiet_def)
  done

lemma post_CloseAll:
  assumes "balanced t0 s"
  shows "post (CloseAll os ps) (\<lambda>ok s'. balanced t0 s' \<and> (ok \<longrightarrow> fds s' = (\<lambda>p. if p \<in> set ps then - 1 else fds s p))) s"
  using assms
proof (induction ps arbitrary: s)
  case Nil
  then show ?case by (simp add: post_ret)
next
  case (Cons p ps)
  show ?case
    unfolding CloseAll.simps
    apply (rule post_bind, rule post_weaken [OF post_CloseFd [OF Cons.prems]], elim conjE)
    apply (rule post_if)
     apply (rule post_weaken [OF Cons.IH], assumption)
     apply (auto simp: post_ret)
    done
qed

text \<open>The loops change the trace and \<open>errno\<close> only.\<close>

definition traced :: "scall set \<Rightarrow> cstate \<Rightarrow> trace \<Rightarrow> cstate \<Rightarrow> bool" where
  "traced C s u s' \<longleftrightarrow> (\<exists>e. s' = s\<lparr>log := log s @ u, errno := e\<rparr>) \<and> fst ` set u \<subseteq> C"

lemma traced_refl: "traced C s [] s"
  unfolding traced_def by (auto intro: exI [of _ "errno s"])

lemma traced_step: "c \<in> C \<Longrightarrow> traced C (after_call s c r) u s' \<Longrightarrow> traced C s ((c, r) # u) s'"
  by (auto simp: traced_def)

lemma quiet_traffic: "\<forall>c \<in> fst ` set u. quiet c \<Longrightarrow> opened u = [] \<and> closed u = []"
  by (induction u) (auto simp: quiet_def split: scall.splits)

lemma balanced_traced:
  assumes "balanced t0 s" and "traced C s u s'" and "\<And>c. c \<in> C \<Longrightarrow> quiet c"
  shows "balanced t0 s'"
proof -
  have "opened u = [] \<and> closed u = []" using assms(2,3) by (intro quiet_traffic) (auto simp: traced_def)
  moreover obtain v where "log s = t0 @ v" "- 1 \<notin> set (opened v) \<union> set (closed v)"
    "\<forall>x. x \<noteq> - 1 \<longrightarrow> count_list (opened v) x = count_list (closed v) x + count_list (map (fds s) slots) x"
    using assms(1) by (auto simp: balanced_def)
  moreover obtain e where "s' = s\<lparr>log := log s @ u, errno := e\<rparr>" using assms(2) by (auto simp: traced_def)
  ultimately show ?thesis unfolding balanced_def by (intro exI [of _ "v @ u"]) simp
qed

lemma drop_take_drop: "0 \<le> n \<Longrightarrow> n \<le> int (length (drop k xs)) \<Longrightarrow> take (nat n) (drop k xs) @ drop (k + nat n) xs = drop k xs"
  by (metis add.commute append_take_drop_id drop_drop)

lemma FullWrite_loop_effect:
  assumes "FullWrite_loop os Fd Buf off s = Some y" and "sound_os os" and "off \<le> length Buf"
  shows "\<exists>u. traced (range (Write Fd)) s u (snd y) \<and>
     (fst y = - 1 \<or> fst y = int (length Buf) \<and> written Fd u = drop off Buf)"
proof (rule FullWrite_loop.raw_induct [where P = "\<lambda>os Fd Buf off s y. sound_os os \<longrightarrow> off \<le> length Buf \<longrightarrow>
      (\<exists>u. traced (range (Write Fd)) s u (snd y) \<and>
        (fst y = - 1 \<or> fst y = int (length Buf) \<and> written Fd u = drop off Buf))", THEN mp, THEN mp, OF _ assms],
    intro impI, goal_cases)
  case (1 F os Fd Buf off s y)
  let ?r = "os (log s) (Write Fd (drop off Buf))"
  let ?s = "after_call s (Write Fd (drop off Buf)) ?r"
  have bound: "- 1 \<le> sret ?r" "sret ?r \<le> int (length (drop off Buf))"
    using sound_write [OF 1(3), of "log s" Fd "drop off Buf"] by simp_all
  consider (over) "length Buf \<le> off" "y = (int off, s)"
    | (some) "off < length Buf" "0 \<le> sret ?r" "F os Fd Buf (off + nat (sret ?r)) ?s = Some y"
    | (fail) "off < length Buf" "sret ?r < 0" "y = (sret ?r, ?s)"
    | (again) "off < length Buf" "sret ?r < 0" "F os Fd Buf off ?s = Some y"
    using 1(2) by (auto simp: sys_def Let_def split: if_splits)
  then show ?case
  proof cases
    case over
    then show ?thesis using 1(4) by (intro exI [of _ "[]"]) (simp add: traced_refl)
  next
    case some
    have le: "off + nat (sret ?r) \<le> length Buf" using some(1) bound(2) by simp
    obtain u where u: "traced (range (Write Fd)) ?s u (snd y)"
      "fst y = - 1 \<or> fst y = int (length Buf) \<and> written Fd u = drop (off + nat (sret ?r)) Buf"
      using 1(1) [OF some(3)] 1(3) le by blast
    show ?thesis
      using u some(2) bound(2)
      by (intro exI [of _ "(Write Fd (drop off Buf), ?r) # u"] conjI traced_step)
        (auto simp: drop_take_drop)
  next
    case fail
    then show ?thesis
      using bound(1) by (intro exI [of _ "[(Write Fd (drop off Buf), ?r)]"] conjI traced_step) (auto simp: traced_refl)
  next
    case again
    obtain u where u: "traced (range (Write Fd)) ?s u (snd y)"
      "fst y = - 1 \<or> fst y = int (length Buf) \<and> written Fd u = drop off Buf"
      using 1(1) [OF again(3)] 1(3,4) by blast
    show ?thesis
      using u again(2) by (intro exI [of _ "(Write Fd (drop off Buf), ?r) # u"] conjI traced_step) auto
  qed
qed

lemma ReadAll_effect:
  assumes "ReadAll os Fd Buf s = Some y"
  shows "\<exists>u. traced {Read Fd} s u (snd y) \<and> snd (fst y) = Buf @ read_from Fd u"
proof (rule ReadAll.raw_induct [where P = "\<lambda>os Fd Buf s y. \<exists>u. traced {Read Fd} s u (snd y) \<and>
      snd (fst y) = Buf @ read_from Fd u", OF _ assms], goal_cases)
  case (1 F os Fd Buf s y)
  let ?r = "os (log s) (Read Fd)"
  let ?s = "after_call s (Read Fd) ?r"
  let ?B = "Buf @ take (nat (sret ?r)) (sdata ?r)"
  consider (more) "0 < sret ?r" "F os Fd ?B ?s = Some y" | (none) "0 < sret ?r" "y = ((sret ?r, ?B), ?s)"
    | (over) "sret ?r \<le> 0" "y = ((sret ?r, Buf), ?s)"
    using 1(2) by (auto simp: sys_def Let_def split: if_splits)
  then show ?case
  proof cases
    case more
    obtain u where "traced {Read Fd} ?s u (snd y)" "snd (fst y) = ?B @ read_from Fd u"
      using 1(1) [OF more(2)] by blast
    then show ?thesis
      using more(1) by (intro exI [of _ "(Read Fd, ?r) # u"] conjI traced_step) auto
  qed (intro exI [of _ "[(Read Fd, ?r)]"] conjI traced_step; auto simp: traced_refl)+
qed

lemma post_FullWrite:
  assumes "sound_os os"
    and "\<And>n u s'. traced (range (Write Fd)) s u s' \<Longrightarrow> n = - 1 \<or> n = int (length Buf) \<and> written Fd u = Buf \<Longrightarrow> Q n s'"
  shows "post (FullWrite os Fd Buf) Q s"
  unfolding post_def FullWrite_def
proof (intro allI impI)
  fix n s'
  assume "FullWrite_loop os Fd Buf 0 s = Some (n, s')"
  from FullWrite_loop_effect [OF this assms(1)] show "Q n s'"
    by (auto intro: assms(2))
qed

lemma post_ReadAll:
  assumes "\<And>n u s'. traced {Read Fd} s u s' \<Longrightarrow> Q (n, read_from Fd u) s'"
  shows "post (ReadAll os Fd []) Q s"
  unfolding post_def
proof (intro allI impI)
  fix x s'
  assume "ReadAll os Fd [] s = Some (x, s')"
  from ReadAll_effect [OF this] show "Q x s'"
    by (cases x) (auto intro: assms)
qed

section \<open>Every descriptor is closed\<close>

lemma traced_fds: "traced C s u s' \<Longrightarrow> fds s' = fds s"
  by (auto simp: traced_def)

lemma post_Finish_closed:
  assumes "balanced t0 s"
  shows "post (Finish os StrError Load) (\<lambda>_ s'. all_closed t0 s') s"
proof -
  have b: "balanced t0 (after_call s (Waitpid (Pid s)) r)" for r
    using assms by (rule balanced_call) (simp add: quiet_def)
  have clean: "post (Cleanup os StrError ok) (\<lambda>_ s'. all_closed t0 s') s'"
    if "balanced t0 s'" for ok s'
    using that by (auto intro: post_weaken [OF post_Cleanup])
  have clean': "post (Cleanup os StrError ok) (\<lambda>_. post (ret x) (\<lambda>_ s'. all_closed t0 s')) s'"
    if "balanced t0 s'" for ok s' and x :: bool
    by (rule post_weaken [OF post_Cleanup [OF that]]) (simp add: post_ret)
  show ?thesis
    unfolding Finish_def
    by (intro pc clean clean'; simp only: balanced_variables b)
qed

lemma balanced_FullWrite:
  assumes "balanced t0 s" and "sound_os os"
  shows "post (FullWrite os Fd Buf) (\<lambda>_ s'. balanced t0 s') s"
  by (rule post_FullWrite [OF assms(2)], rule balanced_traced [OF assms(1)], assumption) (auto simp: quiet_def)

lemma balanced_ReadAll:
  assumes "balanced t0 s"
  shows "post (ReadAll os Fd []) (\<lambda>_ s'. balanced t0 s') s"
  by (rule post_ReadAll, rule balanced_traced [OF assms], assumption) (auto simp: quiet_def)

lemma balanced_CloseFd:
  assumes "balanced t0 s"
  shows "post (CloseFd os p) (\<lambda>_ s'. balanced t0 s') s"
  by (rule post_weaken [OF post_CloseFd [OF assms]]) simp

lemma post_Parent_closed:
  assumes "balanced t0 s" and "sound_os os"
  shows "post (Parent os StrError Load) (\<lambda>_ s'. all_closed t0 s') s"
proof -
  have fail: "post (Cleanup os StrError False) (\<lambda>_ s'. all_closed t0 s') s'" if "balanced t0 s'" for s'
    using that by (auto intro: post_weaken [OF post_Cleanup])
  show ?thesis
    unfolding Parent_def Let_def
    apply (rule post_bind, rule post_weaken [OF post_CloseAll [OF assms(1)]], elim conjE)
    apply (rule post_if, erule fail)
    apply (rule post_bind, rule post_gets, rule post_prod)
    apply (rule post_bind, rule post_weaken [OF balanced_FullWrite [OF _ assms(2)]], assumption)
    apply (rule post_bind, rule post_weaken [OF balanced_CloseFd], assumption)
    apply (rule post_if, erule fail)
    apply (rule post_bind, rule post_modify, rule post_bind, rule post_gets)
    apply (rule post_bind, rule post_weaken [OF balanced_ReadAll], simp, rule post_prod)
    apply (rule post_bind, rule post_modify)
    apply (rule post_bind, rule post_weaken [OF balanced_CloseFd], simp)
    apply (rule post_if, erule fail)
    apply (rule post_bind, rule post_gets)
    apply (rule post_bind, rule post_weaken [OF balanced_ReadAll], assumption, rule post_prod)
    apply (rule post_bind, rule post_modify)
    apply (rule post_bind, rule post_weaken [OF balanced_CloseFd], simp)
    apply (rule post_if, erule fail)
    apply (erule post_Finish_closed)
    done
qed

section \<open>What a successful compilation transfers\<close>

definition silent :: "trace \<Rightarrow> bool" where
  "silent u \<longleftrightarrow> (\<forall>f. written f u = [] \<and> read_from f u = [])"

lemma silent_simps [simp]:
  "silent []" "silent (u @ v) \<longleftrightarrow> silent u \<and> silent v" "silent [(Close f, r)]" "silent [(Kill p, r)]"
  "silent ((Waitpid p, r) # u) \<longleftrightarrow> silent u"
  by (auto simp: silent_def)

lemma silentD [simp]: "silent u \<Longrightarrow> written f u = []" "silent u \<Longrightarrow> read_from f u = []"
  by (simp_all add: silent_def)

text \<open>Closing and cleaning up move no data.\<close>

definition shut :: "slot set \<Rightarrow> cstate \<Rightarrow> cstate \<Rightarrow> bool" where
  "shut P s s' \<longleftrightarrow> (\<exists>u e. s' = s\<lparr>log := log s @ u, errno := e, fds := (\<lambda>p. if p \<in> P then - 1 else fds s p)\<rparr> \<and> silent u)"

lemma shut_refl: "shut {} s s"
  unfolding shut_def by (intro exI [of _ "[]"] exI [of _ "errno s"]) simp

lemma shut_trans: "shut P s s' \<Longrightarrow> shut Q s' s'' \<Longrightarrow> shut (P \<union> Q) s s''"
  unfolding shut_def
  by (elim exE conjE, rename_tac u v e e', rule_tac x = "u @ v" in exI, rule_tac x = e' in exI) (auto simp: fun_eq_iff)

lemma shut_CloseFd: "post (CloseFd os p) (\<lambda>_ s'. shut {p} s s') s"
  unfolding CloseFd_def
  apply (intro pc)
  subgoal
    unfolding shut_def
    by (rule exI [of _ "[(Close (fds s p), os (log s) (Close (fds s p)))]"],
        rule exI [of _ "errno (after_call s (Close (fds s p)) (os (log s) (Close (fds s p))))"])
      (auto simp: fun_eq_iff intro!: cstate.equality)
  subgoal
    unfolding shut_def
    by (rule exI [of _ "[]"], rule exI [of _ "errno s"]) (auto simp: fun_eq_iff intro!: cstate.equality)
  done

lemma shut_CloseAll: "post (CloseAll os ps) (\<lambda>ok s'. ok \<longrightarrow> shut (set ps) s s') s"
proof (induction ps arbitrary: s)
  case (Cons p ps)
  show ?case
    unfolding CloseAll.simps
    apply (rule post_bind, rule post_weaken [OF shut_CloseFd], rule post_if)
     apply (rule post_weaken [OF Cons.IH])
     apply (auto simp: post_ret dest: shut_trans)
    done
qed (simp add: post_ret shut_refl)

lemma shut_Cleanup:
  "post (Cleanup os StrError b) (\<lambda>ok s'. ok \<longrightarrow> (\<exists>u. log s' = log s @ u \<and> silent u) \<and>
     SourceStr s' = SourceStr s \<and> Profiles s' = Profiles s) s"
proof -
  have "post (CloseSlots os b) (\<lambda>ok s'. \<exists>P. shut P s s') s"
    unfolding CloseSlots_def
    apply (rule post_bind, rule post_weaken [OF shut_CloseFd])+
    apply (rule post_ret)
    apply (meson shut_trans)
    done
  then show ?thesis
    unfolding Cleanup_def
    apply (rule post_bind [OF post_weaken])
    apply (intro pc)
       apply (auto simp: shut_def)
    done
qed

lemma transfers_Finish:
  "post (Finish os StrError Load) (\<lambda>b s'. b \<longrightarrow> SourceStr s' = OutStr s \<and> Load (TrimYaml (YamlStr s)) = Inr (Profiles s') \<and>
     (\<exists>u r. log s' = log s @ u \<and> silent u \<and> (Waitpid (Pid s), r) \<in> set u \<and> sret r \<noteq> - 1 \<and> WEXITSTATUS (sstatus r) = 0)) s"
proof -
  have no: "post (Cleanup os StrError ok) (\<lambda>_. post (ret False) (\<lambda>b s'. b \<longrightarrow> R s')) s'" for ok s' R
    by (simp add: post_def ret_def)
  show ?thesis
    unfolding Finish_def
    apply (intro pc no)
    apply (rule post_weaken [OF shut_Cleanup])
    apply (intro impI, drule (1) mp, elim conjE exE)
    subgoal for PL x s' u
      by auto
    done
qed

lemma traced_only:
  assumes "fst ` set u \<subseteq> C"
  shows "C \<subseteq> range (Write g) \<Longrightarrow> read_from f u = []" and "C \<subseteq> {Read g} \<Longrightarrow> written f u = []"
    and "C \<subseteq> {Read g} \<Longrightarrow> f \<noteq> g \<Longrightarrow> read_from f u = []"
  using assms by (induction u) (auto split: scall.splits)

text \<open>
  A stage of the conversation that began in state \<open>s\<close>: the descriptors in \<open>P\<close> are closed,
  \<open>src\<close> was written, \<open>out\<close> and \<open>yml\<close> were read.
\<close>

definition stage :: "cstate \<Rightarrow> slot set \<Rightarrow> string \<Rightarrow> string \<Rightarrow> string \<Rightarrow> cstate \<Rightarrow> bool" where
  "stage s P src out yml s' \<longleftrightarrow> (\<exists>u. log s' = log s @ u \<and> written (fds s Src1) u = src \<and>
     read_from (fds s Out0) u = out \<and> read_from (fds s Yaml0) u = yml) \<and>
     fds s' = (\<lambda>p. if p \<in> P then - 1 else fds s p) \<and> Pid s' = Pid s"

lemma stage_variables [simp]:
  "stage s P src out yml (s'\<lparr>SourceStr := x\<rparr>) = stage s P src out yml s'"
  "stage s P src out yml (s'\<lparr>OutStr := x\<rparr>) = stage s P src out yml s'"
  "stage s P src out yml (s'\<lparr>YamlStr := x\<rparr>) = stage s P src out yml s'"
  by (simp_all add: stage_def)

lemma stage_shut:
  assumes "stage s P src out yml s'" and "shut Q s' s''"
  shows "stage s (P \<union> Q) src out yml s''"
proof -
  obtain u e where "s'' = s'\<lparr>log := log s' @ u, errno := e, fds := (\<lambda>p. if p \<in> Q then - 1 else fds s' p)\<rparr>" "silent u"
    using assms(2) by (auto simp: shut_def)
  moreover obtain v where "log s' = log s @ v \<and> written (fds s Src1) v = src \<and>
     read_from (fds s Out0) v = out \<and> read_from (fds s Yaml0) v = yml"
    "fds s' = (\<lambda>p. if p \<in> P then - 1 else fds s p)" "Pid s' = Pid s"
    using assms(1) by (auto simp: stage_def)
  ultimately show ?thesis unfolding stage_def by (auto simp: fun_eq_iff)
qed

lemma stage_CloseFd:
  assumes "stage s P src out yml s'"
  shows "post (CloseFd os p) (\<lambda>_ s''. stage s (P \<union> {p}) src out yml s'' \<and>
     SourceStr s'' = SourceStr s' \<and> OutStr s'' = OutStr s' \<and> YamlStr s'' = YamlStr s') s'"
  by (rule post_weaken [OF shut_CloseFd], frule stage_shut [OF assms]) (auto simp: shut_def)

lemma stage_FullWrite:
  assumes "stage s P [] [] [] s'" and "sound_os os" and "Fd = fds s Src1"
  shows "post (FullWrite os Fd Buf) (\<lambda>n s''. n = - 1 \<or> stage s P Buf [] [] s'') s'"
proof (rule post_FullWrite [OF assms(2)])
  fix n u s''
  assume t: "traced (range (Write Fd)) s' u s''" and n: "n = - 1 \<or> n = int (length Buf) \<and> written Fd u = Buf"
  have "read_from f u = []" for f using t traced_only(1) [of u "range (Write Fd)" Fd f] by (auto simp: traced_def)
  then show "n = - 1 \<or> stage s P Buf [] [] s''"
    using n t assms(1,3) unfolding stage_def traced_def by auto
qed

lemma stage_ReadOut:
  assumes "stage s P src [] [] s'" and "fds s Out0 \<noteq> fds s Yaml0" and "Fd = fds s Out0"
  shows "post (ReadAll os Fd []) (\<lambda>x s''. stage s P src (snd x) [] s'') s'"
proof (rule post_ReadAll)
  fix n u s''
  assume t: "traced {Read Fd} s' u s''"
  have "written f u = []" "f \<noteq> Fd \<Longrightarrow> read_from f u = []" for f
    using t traced_only(2,3) [of u "{Read Fd}" Fd f] by (auto simp: traced_def)
  then show "stage s P src (snd (n, read_from Fd u)) [] s''"
    using t assms unfolding stage_def traced_def by auto
qed

lemma stage_ReadYaml:
  assumes "stage s P src out [] s'" and "fds s Out0 \<noteq> fds s Yaml0" and "Fd = fds s Yaml0"
  shows "post (ReadAll os Fd []) (\<lambda>x s''. stage s P src out (snd x) s'' \<and> OutStr s'' = OutStr s') s'"
proof (rule post_ReadAll)
  fix n u s''
  assume t: "traced {Read Fd} s' u s''"
  have "written f u = []" "f \<noteq> Fd \<Longrightarrow> read_from f u = []" for f
    using t traced_only(2,3) [of u "{Read Fd}" Fd f] by (auto simp: traced_def)
  then show "stage s P src out (snd (n, read_from Fd u)) s'' \<and> OutStr s'' = OutStr s'"
    using t assms unfolding stage_def traced_def by auto
qed

definition compiled :: "(string \<Rightarrow> yexn + KernelProfile list) \<Rightarrow> fd \<Rightarrow> fd \<Rightarrow> fd \<Rightarrow> int \<Rightarrow> trace \<Rightarrow> string \<Rightarrow> cstate \<Rightarrow> bool" where
  "compiled Load src out yml pid u Source s' \<longleftrightarrow>
     written src u = Source \<and> SourceStr s' = read_from out u \<and>
     Load (TrimYaml (read_from yml u)) = Inr (Profiles s') \<and>
     (\<exists>r. (Waitpid pid, r) \<in> set u \<and> sret r \<noteq> - 1 \<and> WEXITSTATUS (sstatus r) = 0)"

lemma stage_compiled:
  assumes "stage s P src out yml s1" and "OutStr s1 = out" and "YamlStr s1 = yml"
    and "SourceStr s2 = OutStr s1 \<and> Load (TrimYaml (YamlStr s1)) = Inr (Profiles s2) \<and>
     (\<exists>u r. log s2 = log s1 @ u \<and> silent u \<and> (Waitpid (Pid s1), r) \<in> set u \<and> sret r \<noteq> - 1 \<and> WEXITSTATUS (sstatus r) = 0)"
  shows "\<exists>u. log s2 = log s @ u \<and> compiled Load (fds s Src1) (fds s Out0) (fds s Yaml0) (Pid s) u src s2"
proof -
  obtain u v r where "log s1 = log s @ u" "written (fds s Src1) u = src" "read_from (fds s Out0) u = out"
      "read_from (fds s Yaml0) u = yml" "Pid s1 = Pid s" "log s2 = log s1 @ v" "silent v" "(Waitpid (Pid s1), r) \<in> set v"
      "sret r \<noteq> - 1" "WEXITSTATUS (sstatus r) = 0"
    using assms(1,4) unfolding stage_def by blast
  then show ?thesis
    using assms(2-4) by (intro exI [of _ "u @ v"]) (auto simp: compiled_def)
qed

lemma transfers_Parent:
  assumes "sound_os os" and "fds s Out0 \<noteq> fds s Yaml0"
  shows "post (Parent os StrError Load) (\<lambda>b s'. b \<longrightarrow> (\<exists>u. log s' = log s @ u \<and>
     compiled Load (fds s Src1) (fds s Out0) (fds s Yaml0) (Pid s) u (SourceStr s) s')) s"
proof -
  have no: "post (Cleanup os StrError False) (\<lambda>b s'. b \<longrightarrow> R s') s'" for R s'
    by (auto simp: post_def Cleanup_def bind_def ret_def CloseSlots_def split: option.splits)
  have any: "post m (\<lambda>_ _. True) s'" for m :: "bool prog" and s' by (simp add: post_def)
  have start: "stage s {} [] [] [] s" by (simp add: stage_def)
  have fd: "stage s P src out yml s' \<Longrightarrow> p \<notin> P \<Longrightarrow> fds s' p = fds s p" for P src out yml s' p
    by (simp add: stage_def)
  show ?thesis
    unfolding Parent_def Let_def
    apply (rule post_bind, rule post_weaken [OF shut_CloseAll])
    apply (rule post_if, rule no, drule mp, simp)
    apply (rule post_bind, rule post_gets, rule post_prod, simp only: fst_conv snd_conv)
    apply (frule stage_shut [OF start])
    apply (rule post_bind, rule post_weaken [OF stage_FullWrite [OF _ assms(1)]], assumption, erule fd, simp)
    apply (rule post_bind)
    subgoal for x s1 n s2
      apply (cases "n = - 1")
       apply (rule post_weaken [OF any], simp add: no)
      apply (rule post_weaken [OF stage_CloseFd], simp, elim conjE)
      apply (rule post_if, rule no)
      apply (rule post_bind, rule post_modify, rule post_bind, rule post_gets)
      apply (rule post_bind, rule post_weaken [OF stage_ReadOut [OF _ assms(2)]], simp, simp add: fd, rule post_prod)
      apply (rule post_bind, rule post_modify, simp only: snd_conv fst_conv)
      apply (rule post_bind, rule post_weaken [OF stage_CloseFd], simp, elim conjE)
      apply (rule post_if, rule no)
      apply (rule post_bind, rule post_gets)
      apply (rule post_bind, rule post_weaken [OF stage_ReadYaml [OF _ assms(2)]], assumption, simp add: fd, elim conjE, rule post_prod)
      apply (rule post_bind, rule post_modify, simp only: snd_conv fst_conv)
      apply (rule post_bind, rule post_weaken [OF stage_CloseFd], simp, elim conjE)
      apply (rule post_if, rule no)
      apply (rule post_weaken [OF transfers_Finish], intro impI, drule (1) mp)
      apply (subgoal_tac "SourceStr s1 = SourceStr s")
       apply (simp only:)
       apply (erule stage_compiled, simp, simp, simp)
      apply (auto simp: shut_def)
      done
    done
qed

section \<open>The whole function\<close>

definition begun :: "cstate \<Rightarrow> cstate" where
  "begun s = s\<lparr>Pid := 0, fds := (\<lambda>_. - 1), OutStr := [], YamlStr := []\<rparr>"

text \<open>After the pipes were opened: nothing is closed, the ends are filed in order.\<close>

definition piped :: "fd list \<Rightarrow> cstate \<Rightarrow> cstate \<Rightarrow> bool" where
  "piped F s s' \<longleftrightarrow> opened (log s') = F \<and> closed (log s') = [] \<and> silent (log s') \<and> - 1 \<notin> set F \<and> distinct F \<and>
     (\<forall>x. x \<noteq> - 1 \<longrightarrow> count_list F x = count_list (map (fds s') slots) x) \<and>
     SourceStr s' = SourceStr s \<and> Pid s' = 0"

lemma piped_balanced: "piped F s s' \<Longrightarrow> balanced [] s'"
  by (auto simp: piped_def balanced_def)

lemma silent_pipe [simp]: "silent [(Pipe, r)]" "silent [(Fork, r)]"
  by (auto simp: silent_def)

lemma post_open_pipe:
  assumes "sound_os os" and "piped F s0 s" and "fds s p = - 1" and "fds s q = - 1" and "p \<noteq> q"
  shows "post (open_pipe os p q) (\<lambda>ok s'. if ok then piped (F @ [fds s' p, fds s' q]) s0 s' \<and>
       (\<forall>r. r \<noteq> p \<and> r \<noteq> q \<longrightarrow> fds s' r = fds s r) else piped F s0 s') s"
proof -
  let ?r = "os (log s) Pipe"
  let ?s = "after_call s Pipe ?r"
  have "piped (F @ [fst (sfds ?r), snd (sfds ?r)]) s0 (?s\<lparr>fds := (fds s)(p := fst (sfds ?r), q := snd (sfds ?r))\<rparr>)"
    if "sret ?r = 0"
  proof -
    note snd = sound_pipe [OF assms(1) that]
    have "count_list (map ((fds s)(p := a, q := b)) slots) x =
        count_list (map (fds s) slots) x + (if a = x then 1 else 0) + (if b = x then 1 else 0)"
      if "x \<noteq> - 1" for a b x
      using assms(3-5) that by (cases p; cases q) auto
    then show ?thesis
      using assms(2) snd that unfolding piped_def by auto
  qed
  moreover have "piped F s0 ?s" if "sret ?r \<noteq> 0"
    using assms(2) that unfolding piped_def by simp
  ultimately show ?thesis
    unfolding open_pipe_def using assms(5) by (intro pc) auto
qed

lemma post_open_pipes:
  assumes "sound_os os" and "log s = []"
  shows "post (open_pipes os) (\<lambda>ok s'. \<exists>F. piped F s s' \<and> (ok \<longrightarrow> F = map (fds s') slots)) (begun s)"
proof -
  have p0: "piped [] s (begun s)" using assms(2) by (simp add: piped_def begun_def)
  have f0: "fds (begun s) p = - 1" for p by (simp add: begun_def)
  show ?thesis
    unfolding open_pipes_def
    apply (rule post_bind, rule post_weaken [OF post_open_pipe [OF assms(1) p0 f0 f0]], simp)
    subgoal for a s1
      apply (rule post_if, rule post_ret, rule exI [of _ "[]"], simp)
      apply (simp split: if_splits, elim conjE)
      apply (rule post_bind, rule post_weaken [OF post_open_pipe [OF assms(1), of "[fds s1 Src0, fds s1 Src1]" s]])
          apply (assumption, simp add: f0, simp add: f0, simp)
      subgoal for b s2
        apply (rule post_if, rule post_ret, rule exI [of _ "[fds s1 Src0, fds s1 Src1]"], simp)
        apply (simp split: if_splits, elim conjE)
        apply (rule post_weaken [OF post_open_pipe [OF assms(1), of "[fds s1 Src0, fds s1 Src1, fds s2 Out0, fds s2 Out1]" s]])
            apply (simp, simp add: f0, simp add: f0, simp)
        apply (auto split: if_splits)
        done
      done
    done
qed

declare FullWrite_loop.simps [code] ReadAll.simps [code]

text \<open>The state after the fork of the parent.\<close>

lemma piped_fork:
  assumes "piped F s s1"
  shows "piped F s (after_call s1 Fork r\<lparr>Pid := p\<rparr>\<lparr>Pid := 0\<rparr>)" "balanced [] (after_call s1 Fork r\<lparr>Pid := p\<rparr>)"
proof -
  have b: "balanced [] (after_call s1 Fork r)"
    by (rule balanced_call [OF piped_balanced [OF assms]]) (simp add: quiet_def)
  then show "balanced [] (after_call s1 Fork r\<lparr>Pid := p\<rparr>)" by simp
  show "piped F s (after_call s1 Fork r\<lparr>Pid := p\<rparr>\<lparr>Pid := 0\<rparr>)"
    using assms by (simp add: piped_def)
qed

lemma post_Compile_closed:
  assumes "sound_os os" and "log s = []"
  shows "post (Compile os StrError Load path opts) (\<lambda>b s'. b \<noteq> None \<longrightarrow> all_closed [] s') s"
proof -
  have fail: "post (Cleanup os StrError False) (\<lambda>b. post (ret (Some b)) (\<lambda>b s'. b \<noteq> None \<longrightarrow> all_closed [] s')) s'"
    if "balanced [] s'" for s'
    by (rule post_weaken [OF post_Cleanup [OF that]]) (simp add: post_ret)
  have any: "post m (\<lambda>_. post (ret None) (\<lambda>b s'. b \<noteq> None \<longrightarrow> all_closed [] s')) s'" for m :: "unit prog" and s'
    by (auto simp: post_def ret_def)
  show ?thesis
    unfolding Compile_def begun_def [symmetric]
    apply (rule post_bind, rule post_modify)
    apply (rule post_bind, rule post_weaken [OF post_open_pipes [OF assms]], elim exE conjE)
    apply (rule post_if, rule post_bind, rule fail, erule piped_balanced)
    apply (rule post_bind, rule post_sys, rule post_bind, rule post_modify)
    apply (rule post_if, rule post_bind, rule fail, erule piped_fork)
    apply (rule post_if, rule post_bind, rule any)
    apply (rule post_bind, rule post_weaken [OF post_Parent_closed [OF _ assms(1)]], erule piped_fork)
    apply (simp add: post_ret)
    done
qed

lemma post_Compile_transfers:
  assumes "sound_os os" and "log s = []"
  shows "post (Compile os StrError Load path opts) (\<lambda>b s'. b = Some True \<longrightarrow> (\<exists>src0 src1 out0 out1 yml0 yml1 pid t u.
     log s' = t @ u \<and> opened t = [src0, src1, out0, out1, yml0, yml1] \<and> pid \<noteq> - 1 \<and>
     compiled Load src1 out0 yml0 pid u (SourceStr s) s')) s"
proof -
  let ?Q = "\<lambda>b s'. b = Some True \<longrightarrow> (\<exists>src0 src1 out0 out1 yml0 yml1 pid t u.
     log s' = t @ u \<and> opened t = [src0, src1, out0, out1, yml0, yml1] \<and> pid \<noteq> - 1 \<and>
     compiled Load src1 out0 yml0 pid u (SourceStr s) s')"
  have fail: "post (Cleanup os StrError False) (\<lambda>b. post (ret (Some b)) ?Q) s'" for s'
    by (auto simp: post_def Cleanup_def bind_def ret_def CloseSlots_def split: option.splits)
  have any: "post m (\<lambda>_. post (ret None) ?Q) s'" for m :: "unit prog" and s'
    by (auto simp: post_def ret_def)
  show ?thesis
    unfolding Compile_def begun_def [symmetric]
    apply (rule post_bind, rule post_modify)
    apply (rule post_bind, rule post_weaken [OF post_open_pipes [OF assms]], elim exE conjE)
    apply (rule post_if, rule post_bind, rule fail)
    apply (rule post_bind, rule post_sys, rule post_bind, rule post_modify)
    apply (rule post_if, rule post_bind, rule fail)
    apply (rule post_if, rule post_bind, rule any)
    subgoal for opened s1 F
      apply (rule post_bind, rule post_weaken [OF transfers_Parent [OF assms(1)]])
       apply (simp add: piped_def)
      apply (simp add: post_ret)
      apply (rule post_ret, intro impI, simp)
      apply (elim exE conjE)
      subgoal for b s2 u
        apply (rule exI [of _ "fds s1 Src0"], rule exI [of _ "fds s1 Src1"], rule exI [of _ "fds s1 Out0"],
            rule exI [of _ "fds s1 Out1"], rule exI [of _ "fds s1 Yaml0"], rule exI [of _ "fds s1 Yaml1"],
            rule exI [of _ "sret (os (log s1) Fork)"], rule exI [of _ "log s1 @ [(Fork, os (log s1) Fork)]"], rule exI [of _ u])
        apply (simp add: piped_def)
        done
      done
    done
qed

section \<open>A system for the witnesses\<close>

text \<open>It writes two bytes at a time and lets the child answer with three bytes.\<close>

definition demo_os :: os where
  "demo_os t c =
     (let r = \<lparr>sret = 0, serrno = 0, sfds = (0, 0), sdata = [], sstatus = 0\<rparr>
      in case c of
        Pipe \<Rightarrow> r\<lparr>sfds := (foldr max (opened t) 2 + 1, foldr max (opened t) 2 + 2)\<rparr>
      | Fork \<Rightarrow> r\<lparr>sret := 77\<rparr>
      | Write Fd d \<Rightarrow> r\<lparr>sret := min 2 (int (length d))\<rparr>
      | Read Fd \<Rightarrow> (if read_from Fd t = [] then r\<lparr>sret := 3, sdata := (if Fd = 5 then ''abc'' else ''xyz'')\<rparr> else r)
      | Waitpid p \<Rightarrow> r\<lparr>sret := p\<rparr>
      | _ \<Rightarrow> r)"

definition demo_load :: "string \<Rightarrow> yexn + KernelProfile list" where
  "demo_load y = (if y = ''xyz'' then Inr [KernelProfile_new ''f'' 2] else Inl (YAMLException ''bad''))"

definition demo_cstate :: cstate where
  "demo_cstate = \<lparr>log = [], errno = 0, fds = (\<lambda>_. - 1), Pid = 0, SourceStr = ''kernel'', OutStr = [], YamlStr = [], Profiles = []\<rparr>"


lemma demo_sound: "sound_os demo_os"
proof -
  have le: "y \<in> set xs \<Longrightarrow> y \<le> foldr max xs (2 :: int)" and two: "2 \<le> foldr max xs (2 :: int)" for xs y
    by (induction xs) (auto simp: max_def)
  have "foldr max xs 2 + 1 \<notin> set xs" "foldr max xs 2 + 2 \<notin> set xs" for xs :: "int list"
    using le [of _ xs] by fastforce+
  moreover have "0 \<le> foldr max xs 2 + 1" "0 \<le> foldr max xs 2 + 2" for xs :: "int list"
    using two [of xs] by simp_all
  ultimately show ?thesis
    unfolding sound_os_def by (auto simp: demo_os_def Let_def)
qed

lemma demo_compiles:
  obtains s' where "Compile demo_os (\<lambda>_. ''error'') demo_load ''cc'' None demo_cstate = Some (Some True, s')"
proof -
  have "map_option fst (Compile demo_os (\<lambda>_. ''error'') demo_load ''cc'' None demo_cstate) = Some (Some True)"
    by code_simp
  then show ?thesis using that by (auto simp: map_option_case split: option.splits)
qed

section \<open>Properties\<close>

text \<open>
  C27. No descriptor leaks and none is closed twice. Whatever the system answers, when
  \<open>Compile\<close> returns in the parent, the descriptors it closed are exactly those its pipes
  got, each as often as it was opened.
\<close>

theorem Compile_closes:
  assumes "Compile os StrError Load path opts s = Some (Some b, s')" and "sound_os os" and "log s = []"
  shows "mset (closed (log s')) = mset (opened (log s'))"
proof -
  have "all_closed [] s'"
    using post_Compile_closed [OF assms(2,3), of StrError Load path opts] assms(1) by (auto simp: post_def)
  then have "- 1 \<notin> set (opened (log s')) \<union> set (closed (log s'))"
    and "\<And>x. x \<noteq> - 1 \<Longrightarrow> count_list (opened (log s')) x = count_list (closed (log s')) x"
    by (auto simp: all_closed_def balanced_def)
  then show ?thesis
    by (intro multiset_eqI) (metis Un_iff count_list_0_iff count_mset)
qed

lemma Compile_closes_witness:
  "\<exists>s'. Compile demo_os (\<lambda>_. ''error'') demo_load ''cc'' None demo_cstate = Some (Some True, s') \<and>
     mset (closed (log s')) = mset (opened (log s'))"
proof -
  obtain s' where run: "Compile demo_os (\<lambda>_. ''error'') demo_load ''cc'' None demo_cstate = Some (Some True, s')"
    by (rule demo_compiles)
  show ?thesis using run Compile_closes [OF run demo_sound] by (auto simp: demo_cstate_def)
qed



text \<open>
  C28. A failed fork is answered with a signal to everybody: \<open>Pid\<close> is -1 then, and the clean-up
  takes it for a child.
\<close>

theorem Compile_fork_fails:
  assumes "\<forall>t. sret (os t Pipe) = 0" and "\<forall>t. sret (os t Fork) = - 1"
  shows "\<exists>s'. Compile os StrError Load path opts s = Some (Some False, s') \<and> Kill (- 1) \<in> fst ` set (log s')"
proof -
  have pipe: "\<exists>s'. open_pipe os p q s = Some (True, s') \<and> Pid s' = Pid s" for p q s
    using assms(1) by (simp add: open_pipe_def sys_def bind_def modify_def ret_def Let_def)
  have pipes: "\<exists>s'. open_pipes os s = Some (True, s')" for s
  proof -
    obtain s1 where 1: "open_pipe os Src0 Src1 s = Some (True, s1)" using pipe by blast
    obtain s2 where 2: "open_pipe os Out0 Out1 s1 = Some (True, s2)" using pipe by blast
    obtain s3 where "open_pipe os Yaml0 Yaml1 s2 = Some (True, s3)" using pipe by blast
    then show ?thesis by (simp add: open_pipes_def bind_def 1 2)
  qed
  have close: "\<exists>b s'. CloseFd os p s = Some (b, s') \<and> Pid s' = Pid s" for p s
    by (simp add: CloseFd_def bind_def gets_def sys_def modify_def ret_def Let_def) blast
  have slots: "\<exists>s'. CloseSlots os False s = Some (False, s') \<and> Pid s' = Pid s" for s
  proof -
    obtain b1 s1 where 1: "CloseFd os Src0 s = Some (b1, s1)" "Pid s1 = Pid s" using close by blast
    obtain b2 s2 where 2: "CloseFd os Src1 s1 = Some (b2, s2)" "Pid s2 = Pid s1" using close by blast
    obtain b3 s3 where 3: "CloseFd os Out0 s2 = Some (b3, s3)" "Pid s3 = Pid s2" using close by blast
    obtain b4 s4 where 4: "CloseFd os Out1 s3 = Some (b4, s4)" "Pid s4 = Pid s3" using close by blast
    obtain b5 s5 where 5: "CloseFd os Yaml0 s4 = Some (b5, s5)" "Pid s5 = Pid s4" using close by blast
    obtain b6 s6 where 6: "CloseFd os Yaml1 s5 = Some (b6, s6)" "Pid s6 = Pid s5" using close by blast
    show ?thesis by (simp add: CloseSlots_def bind_def ret_def 1 2 3 4 5 6)
  qed
  obtain s1 where s1: "open_pipes os (begun s) = Some (True, s1)" using pipes by blast
  let ?r = "os (log s1) Fork"
  obtain s2 where s2: "CloseSlots os False (after_call s1 Fork ?r\<lparr>Pid := - 1\<rparr>) = Some (False, s2)" "Pid s2 = - 1"
    using slots [of "after_call s1 Fork ?r\<lparr>Pid := - 1\<rparr>"] by auto
  show ?thesis
    using assms(2) s1 s2
    by (simp add: Compile_def Cleanup_def bind_def modify_def ret_def gets_def sys_def Let_def begun_def)
qed

text \<open>The premises can be met.\<close>

lemma Compile_fork_fails_witness:
  "\<exists>os s'. sret (os [] Fork) = - 1 \<and> Compile os (\<lambda>_. ''error'') demo_load ''cc'' None demo_cstate = Some (Some False, s') \<and>
     Kill (- 1) \<in> fst ` set (log s')"
proof -
  let ?os = "\<lambda>t c. (demo_os t c)\<lparr>sret := if c = Fork then - 1 else 0\<rparr>"
  have "\<exists>s'. Compile ?os (\<lambda>_. ''error'') demo_load ''cc'' None demo_cstate = Some (Some False, s') \<and> Kill (- 1) \<in> fst ` set (log s')"
    by (rule Compile_fork_fails) simp_all
  then show ?thesis by (intro exI [of _ ?os]) auto
qed

text \<open>
  C29. Writing the source ends: if from some point on every write either takes at least one
  byte or fails for good, \<open>FullWrite\<close> returns.
\<close>

theorem FullWrite_returns:
  assumes "\<forall>t d. N \<le> length t \<longrightarrow> 0 < sret (os t (Write Fd d)) \<or>
     sret (os t (Write Fd d)) < 0 \<and> serrno (os t (Write Fd d)) \<noteq> EINTR"
  shows "\<exists>n s'. FullWrite os Fd Buf s = Some (n, s')"
proof -
  have "\<exists>y. FullWrite_loop os Fd Buf off s = Some y" for off
  proof (induction "(N - length (log s)) + (length Buf - off)" arbitrary: off s rule: less_induct)
    case less
    let ?r = "os (log s) (Write Fd (drop off Buf))"
    let ?s = "after_call s (Write Fd (drop off Buf)) ?r"
    have shorter: "N - length (log ?s) \<le> N - length (log s)" by simp
    show ?case
    proof (cases "off < length Buf")
      case True
      have ok: "0 < sret ?r \<or> sret ?r < 0 \<and> serrno ?r \<noteq> EINTR \<or> length (log s) < N"
        using assms by (meson not_le)
      have "\<exists>y. FullWrite_loop os Fd Buf (off + nat (sret ?r)) ?s = Some y" if "0 \<le> sret ?r"
        by (rule less) (use ok that True in auto)
      moreover have "\<exists>y. FullWrite_loop os Fd Buf off ?s = Some y" if "sret ?r < 0" "serrno ?r = EINTR"
        by (rule less) (use ok that True in auto)
      ultimately show ?thesis
        using True by (subst FullWrite_loop.simps) (auto simp: sys_def Let_def)
    qed (subst FullWrite_loop.simps, simp)
  qed
  then show ?thesis by (simp add: FullWrite_def split_paired_Ex [symmetric])
qed

lemma FullWrite_returns_witness:
  "\<exists>n s'. FullWrite (\<lambda>t c. (demo_os t c)\<lparr>sret := 1\<rparr>) 4 ''kernel'' demo_cstate = Some (n, s')"
  by (rule FullWrite_returns [where N = 0]) simp

end
