(* ===== verification/LiveVar.thy ===== *)
theory LiveVar
  imports Profile
begin

text \<open>
  \<open>LiveVarTracker\<close> of the instrumenting compiler (\<open>cc/LiveVarTracker.hpp\<close> and \<open>.cpp\<close>): the
  variables of a kernel whose values a checkpoint has to save, in the order in which they are
  laid out, with the nesting depth at which each was declared.

  Clang answers what it knows about a declaration (\<open>VarDecl\<close>), about the control flow graph
  and about liveness; these answers are the parameter \<open>flow\<close>. A \<open>std::map\<close> ordered by
  \<open>SortBySize\<close> is a list kept in that order. A null statement is \<open>None\<close>.
\<close>

section \<open>Declarations\<close>

datatype LangAS = opencl_private | opencl_global | opencl_constant | opencl_local | other_space

text \<open>The address of the declaration, its name, and width and alignment of its type in bits.\<close>

record VarDecl =
  vd_ptr :: nat
  vd_name :: string
  vd_width :: nat
  vd_align :: nat
  vd_space :: LangAS

text \<open>Coarse alignment first, then by address.\<close>

definition SortBySize :: "VarDecl \<Rightarrow> VarDecl \<Rightarrow> bool" where
  "SortBySize LHS RHS =
     (if vd_align LHS \<noteq> vd_align RHS then vd_align LHS > vd_align RHS else vd_ptr LHS < vd_ptr RHS)"

type_synonym tracker = "(VarDecl \<times> u32) list"

fun map_emplace :: "VarDecl \<Rightarrow> u32 \<Rightarrow> tracker \<Rightarrow> tracker \<times> bool" where
  "map_emplace VD n [] = ([(VD, n)], True)"
| "map_emplace VD n ((V, m) # T) =
     (if SortBySize V VD then (case map_emplace VD n T of (T', new) \<Rightarrow> ((V, m) # T', new))
      else if SortBySize VD V then ((VD, n) # (V, m) # T, True)
      else ((V, m) # T, False))"

definition map_erase :: "VarDecl \<Rightarrow> tracker \<Rightarrow> tracker" where
  "map_erase VD T = filter (\<lambda>(V, m). SortBySize V VD \<or> SortBySize VD V) T"

section \<open>The tracker\<close>

text \<open>The block a statement belongs to, and whether a variable is live after a block.\<close>

record flow =
  getBlock :: "nat \<Rightarrow> nat option"
  isLive :: "nat \<Rightarrow> VarDecl \<Rightarrow> bool"

record LiveVarTracker =
  Flow :: "flow option"
  Tracker :: tracker
  Scope :: u32

definition LiveVarTracker_new :: LiveVarTracker where
  "LiveVarTracker_new = \<lparr>Flow = None, Tracker = [], Scope = 0\<rparr>"

definition EndContext :: "LiveVarTracker \<Rightarrow> LiveVarTracker" where
  "EndContext T = T\<lparr>Flow := None, Tracker := [], Scope := 0\<rparr>"

definition SetContext :: "flow \<Rightarrow> LiveVarTracker \<Rightarrow> LiveVarTracker" where
  "SetContext f T = (EndContext T)\<lparr>Flow := Some f\<rparr>"

definition HasContext :: "LiveVarTracker \<Rightarrow> bool" where
  "HasContext T \<longleftrightarrow> Flow T \<noteq> None"

definition AddTrack :: "VarDecl \<Rightarrow> LiveVarTracker \<Rightarrow> LiveVarTracker \<times> bool" where
  "AddTrack VD T = (case map_emplace VD (Scope T) (Tracker T) of (T', new) \<Rightarrow> (T\<lparr>Tracker := T'\<rparr>, new))"

definition RemoveTrack :: "VarDecl \<Rightarrow> LiveVarTracker \<Rightarrow> LiveVarTracker \<times> bool" where
  "RemoveTrack VD T = (T\<lparr>Tracker := map_erase VD (Tracker T)\<rparr>, map_erase VD (Tracker T) \<noteq> Tracker T)"

definition ClearTrack :: "LiveVarTracker \<Rightarrow> LiveVarTracker" where
  "ClearTrack T = T\<lparr>Tracker := []\<rparr>"

definition NewScope :: "LiveVarTracker \<Rightarrow> LiveVarTracker" where
  "NewScope T = T\<lparr>Scope := Scope T + 1\<rparr>"

definition PopScope :: "LiveVarTracker \<Rightarrow> LiveVarTracker" where
  "PopScope T = T\<lparr>Tracker := filter (\<lambda>(V, m). \<not> Scope T \<le> m) (Tracker T), Scope := Scope T - 1\<rparr>"

section \<open>Iteration over the live variables\<close>

definition IsLiveAfter :: "LiveVarTracker \<Rightarrow> VarDecl \<Rightarrow> nat option \<Rightarrow> bool outcome" where
  "IsLiveAfter T VD S =
     (case S of None \<Rightarrow> Ok False
      | Some s \<Rightarrow> (case Flow T of None \<Rightarrow> Ok False
         | Some f \<Rightarrow> (case getBlock f s of None \<Rightarrow> Crash | Some B \<Rightarrow> Ok (isLive f B VD))))"

text \<open>The loop of \<open>begin\<close> and \<open>operator++\<close>: on to the next live variable.\<close>

fun skip_dead :: "LiveVarTracker \<Rightarrow> nat option \<Rightarrow> tracker \<Rightarrow> tracker outcome" where
  "skip_dead T S [] = Ok []"
| "skip_dead T S ((V, m) # It) = bindO (IsLiveAfter T V S) (\<lambda>live. if live then Ok ((V, m) # It) else skip_dead T S It)"

lemma skip_dead_length: "skip_dead T S It = Ok It' \<Longrightarrow> length It' \<le> length It"
proof (induction It)
  case (Cons a It)
  then show ?case
    by (cases a; cases "IsLiveAfter T (fst a) S") (auto split: if_splits intro: le_SucI)
qed simp

text \<open>The variables that \<open>for (VarDecl* VD : L)\<close> visits, from an iterator on.\<close>

function walk :: "LiveVarTracker \<Rightarrow> nat option \<Rightarrow> tracker \<Rightarrow> VarDecl list outcome" where
  "walk T S [] = Ok []"
| "walk T S ((V, m) # It) =
     (case skip_dead T S It of
        Ok It' \<Rightarrow> bindO (walk T S It') (\<lambda>Vs. Ok (V # Vs))
      | Throw e \<Rightarrow> Throw e | Abort \<Rightarrow> Abort | Crash \<Rightarrow> Crash)"
  by pat_completeness auto
termination by (relation "measure (\<lambda>(T, S, It). length It)") (auto dest: skip_dead_length simp: less_Suc_eq_le)

definition GenLivenessAfter :: "LiveVarTracker \<Rightarrow> nat option \<Rightarrow> VarDecl list outcome" where
  "GenLivenessAfter T S = bindO (skip_dead T S (Tracker T)) (walk T S)"

section \<open>Order\<close>

text \<open>The order is total up to the identity of the declaration.\<close>

lemma SortBySize_trans: "SortBySize a b \<Longrightarrow> SortBySize b c \<Longrightarrow> SortBySize a c"
  by (auto simp: SortBySize_def split: if_splits)

lemma SortBySize_irrefl [simp]: "\<not> SortBySize a a"
  by (simp add: SortBySize_def)

definition ordered :: "tracker \<Rightarrow> bool" where
  "ordered T \<longleftrightarrow> sorted_wrt SortBySize (map fst T)"

lemma set_map_emplace: "set (fst (map_emplace VD n T)) \<subseteq> insert (VD, n) (set T)"
  by (induction VD n T rule: map_emplace.induct) (auto split: prod.splits)

lemma ordered_emplace: "ordered T \<Longrightarrow> ordered (fst (map_emplace VD n T))"
proof (induction VD n T rule: map_emplace.induct)
  case (2 VD n V m T)
  show ?case
  proof (cases "SortBySize V VD")
    case True
    have "\<forall>x \<in> set (fst (map_emplace VD n T)). SortBySize V (fst x)"
      using set_map_emplace [of VD n T] 2(2) True by (auto simp: ordered_def)
    then show ?thesis using 2 True by (auto simp: ordered_def split: prod.splits)
  next
    case False
    then show ?thesis using 2(2) by (auto simp: ordered_def intro: SortBySize_trans)
  qed
qed (simp add: ordered_def)

lemma SortBySize_distinct: "sorted_wrt SortBySize Vs \<Longrightarrow> distinct Vs"
  by (induction Vs) auto

lemma ordered_filter: "ordered T \<Longrightarrow> ordered (filter P T)"
  unfolding ordered_def by (induction T) auto

section \<open>What the iteration visits\<close>

definition live_after :: "flow \<Rightarrow> nat \<Rightarrow> VarDecl \<Rightarrow> bool" where
  "live_after f s VD \<longleftrightarrow> (\<exists>B. getBlock f s = Some B \<and> isLive f B VD)"

lemma skip_dead_live:
  assumes "Flow T = Some f" and "getBlock f s = Some B"
  shows "skip_dead T (Some s) It = Ok (dropWhile (\<lambda>(V, m). \<not> live_after f s V) It)"
  using assms by (induction It) (auto simp: IsLiveAfter_def live_after_def)

lemma walk_live:
  assumes "Flow T = Some f" and "getBlock f s = Some B"
  shows "walk T (Some s) (dropWhile (\<lambda>(V, m). \<not> live_after f s V) It) = Ok (filter (live_after f s) (map fst It))"
proof (induction It)
  case (Cons a It)
  then show ?case by (cases a) (simp add: skip_dead_live [OF assms])
qed simp

lemma GenLivenessAfter_eq:
  assumes "Flow T = Some f" and "getBlock f s = Some B"
  shows "GenLivenessAfter T (Some s) = Ok (filter (live_after f s) (map fst (Tracker T)))"
  by (simp add: GenLivenessAfter_def skip_dead_live [OF assms] walk_live [OF assms])

section \<open>Scopes\<close>

text \<open>What a traversal does to the tracker: declarations, and blocks in their own scope.\<close>

datatype visit = Declare VarDecl | Block "visit list"

fun visit_scopes :: "visit \<Rightarrow> LiveVarTracker \<Rightarrow> LiveVarTracker"
  and visit_all :: "visit list \<Rightarrow> LiveVarTracker \<Rightarrow> LiveVarTracker" where
  "visit_scopes (Declare VD) T = fst (AddTrack VD T)"
| "visit_scopes (Block vs) T = PopScope (visit_all vs (NewScope T))"
| "visit_all [] T = T"
| "visit_all (v # vs) T = visit_all vs (visit_scopes v T)"

fun depth :: "visit \<Rightarrow> nat" and depths :: "visit list \<Rightarrow> nat" where
  "depth (Declare VD) = 0"
| "depth (Block vs) = Suc (depths vs)"
| "depths [] = 0"
| "depths (v # vs) = max (depth v) (depths vs)"

text \<open>The entries below a scope are those of before; everything else was added in it.\<close>

definition extends :: "LiveVarTracker \<Rightarrow> LiveVarTracker \<Rightarrow> bool" where
  "extends T T' \<longleftrightarrow> Flow T' = Flow T \<and> Scope T' = Scope T \<and>
     filter (\<lambda>(V, m). m < Scope T) (Tracker T') = filter (\<lambda>(V, m). m < Scope T) (Tracker T) \<and>
     (\<forall>(V, m) \<in> set (Tracker T'). m \<le> Scope T)"

lemma filter_emplace:
  assumes "\<not> P (VD, n)"
  shows "filter P (fst (map_emplace VD n T)) = filter P T"
  using assms by (induction VD n T rule: map_emplace.induct) (auto split: prod.splits)

lemma extends_AddTrack:
  assumes "\<forall>(V, m) \<in> set (Tracker T). m \<le> Scope T"
  shows "extends T (fst (AddTrack VD T))"
proof -
  have "set (fst (map_emplace VD (Scope T) (Tracker T))) \<subseteq> insert (VD, Scope T) (set (Tracker T))" by (rule set_map_emplace)
  then have "\<forall>(V, m) \<in> set (fst (map_emplace VD (Scope T) (Tracker T))). m \<le> Scope T" using assms by auto
  then show ?thesis
    by (simp add: extends_def AddTrack_def filter_emplace split_beta)
qed

lemma extends_trans: "extends T T' \<Longrightarrow> extends T' T'' \<Longrightarrow> extends T T''"
  by (simp add: extends_def)

lemma PopScope_extends:
  assumes "extends (NewScope T) T'" and "\<forall>(V, m) \<in> set (Tracker T). m \<le> Scope T" and "Scope T < Scope T + 1"
  shows "PopScope T' = T"
proof -
  have "filter (\<lambda>(V, m). m < Scope T + 1) (Tracker T) = Tracker T"
    using assms(2,3) by (intro filter_True) auto
  then have "filter (\<lambda>(V, m). \<not> Scope T' \<le> m) (Tracker T') = Tracker T"
    using assms(1) by (simp add: extends_def NewScope_def not_le)
  then show ?thesis
    using assms(1) by (simp add: PopScope_def extends_def NewScope_def)
qed

lemma Suc_scope: "unat n + Suc d < 2 ^ 32 \<Longrightarrow> n < n + 1 \<and> unat (n + 1) = Suc (unat (n :: u32))"
proof -
  assume "unat n + Suc d < 2 ^ 32"
  then have "unat (n + 1) = unat n + 1" by (subst unat_add_lem [THEN iffD1]) simp_all
  then show ?thesis by (simp add: word_less_nat_alt)
qed

lemma visits_extend:
  "\<forall>(V, m) \<in> set (Tracker T). m \<le> Scope T \<Longrightarrow> unat (Scope T) + depth v < 2 ^ 32 \<Longrightarrow> extends T (visit_scopes v T)"
  "\<forall>(V, m) \<in> set (Tracker T). m \<le> Scope T \<Longrightarrow> unat (Scope T) + depths vs < 2 ^ 32 \<Longrightarrow> extends T (visit_all vs T)"
proof (induction v T and vs T rule: visit_scopes_visit_all.induct)
  case (1 VD T)
  then show ?case by (simp add: extends_AddTrack)
next
  case (2 vs T)
  have lt: "Scope T < Scope T + 1" "unat (Scope T + 1) = Suc (unat (Scope T))"
    using Suc_scope [of "Scope T" "depths vs"] 2(3) by auto
  have "extends (NewScope T) (visit_all vs (NewScope T))"
    using 2(2,3) lt by (intro 2(1)) (auto simp: NewScope_def)
  then have "PopScope (visit_all vs (NewScope T)) = T" using 2(2) lt(1) by (rule PopScope_extends)
  then show ?case using 2(2) by (simp add: extends_def)
next
  case (4 v vs T)
  have e: "extends T (visit_scopes v T)" using 4 by simp
  then have "extends (visit_scopes v T) (visit_all vs (visit_scopes v T))"
    using 4(2,4) by (simp add: extends_def)
  with e show ?case using extends_trans by simp
qed (simp add: extends_def)

section \<open>Properties\<close>

text \<open>
  C37. A checkpoint considers exactly the live variables. Where Clang knows the block of the
  statement, the iteration visits every tracked variable that is live after it, no other, in
  the order of the tracker: coarsest alignment first.
\<close>

theorem liveness_exact:
  assumes "Flow T = Some f" and "getBlock f s = Some B" and "ordered (Tracker T)"
  shows "\<exists>Vs. GenLivenessAfter T (Some s) = Ok Vs \<and> set Vs = {V \<in> fst ` set (Tracker T). isLive f B V} \<and>
     sorted_wrt (\<lambda>a b. vd_align b \<le> vd_align a) Vs \<and> distinct Vs"
proof -
  let ?Vs = "filter (live_after f s) (map fst (Tracker T))"
  have "sorted_wrt SortBySize ?Vs" using assms(3) by (simp add: ordered_def sorted_wrt_filter)
  moreover from this have "sorted_wrt (\<lambda>a b. vd_align b \<le> vd_align a) ?Vs"
    by (rule sorted_wrt_mono_rel [rotated]) (auto simp: SortBySize_def split: if_splits)
  moreover have "distinct ?Vs" using \<open>sorted_wrt SortBySize ?Vs\<close> by (rule SortBySize_distinct)
  ultimately show ?thesis
    using GenLivenessAfter_eq [OF assms(1,2)] assms(2)
    by (intro exI [of _ ?Vs]) (auto simp: live_after_def)
qed

text \<open>
  Scopes are undone exactly. Traversing a block, with whatever declarations and nested
  blocks inside, leaves the tracker as it was, if every entry belongs to a scope that is
  still open and the nesting is less than \<open>2 ^ 32\<close> deep.
\<close>

theorem block_undone:
  assumes "\<forall>(V, m) \<in> set (Tracker T). m \<le> Scope T" and "unat (Scope T) + depth (Block vs) < 2 ^ 32"
  shows "visit_scopes (Block vs) T = T"
proof -
  have lt: "Scope T < Scope T + 1" "unat (Scope T + 1) = Suc (unat (Scope T))"
    using Suc_scope [of "Scope T" "depths vs"] assms(2) by auto
  have "extends (NewScope T) (visit_all vs (NewScope T))"
    using assms lt by (intro visits_extend) (auto simp: NewScope_def)
  then show ?thesis using assms(1) lt(1) by (simp add: PopScope_extends)
qed

definition demo_var :: VarDecl where
  "demo_var = \<lparr>vd_ptr = 1, vd_name = ''x'', vd_width = 32, vd_align = 32, vd_space = opencl_private\<rparr>"

definition demo_char :: VarDecl where
  "demo_char = \<lparr>vd_ptr = 2, vd_name = ''c'', vd_width = 8, vd_align = 8, vd_space = opencl_private\<rparr>"

definition demo_flow :: flow where
  "demo_flow = \<lparr>getBlock = (\<lambda>_. Some 1), isLive = (\<lambda>B V. vd_ptr V = 2)\<rparr>"

definition demo_tracker :: LiveVarTracker where
  "demo_tracker = \<lparr>Flow = Some demo_flow, Tracker = [(demo_var, 0), (demo_char, 1)], Scope = 1\<rparr>"

lemma liveness_exact_witness:
  "\<exists>Vs. GenLivenessAfter demo_tracker (Some 5) = Ok Vs \<and> set Vs = {demo_char}"
proof -
  have "ordered (Tracker demo_tracker)"
    by (simp add: ordered_def demo_tracker_def SortBySize_def demo_var_def demo_char_def)
  from liveness_exact [of demo_tracker demo_flow 5 1, OF _ _ this]
  obtain Vs where "GenLivenessAfter demo_tracker (Some 5) = Ok Vs"
    "set Vs = {V \<in> fst ` set (Tracker demo_tracker). isLive demo_flow 1 V}"
    by (auto simp: demo_tracker_def demo_flow_def)
  moreover have "{V \<in> fst ` set (Tracker demo_tracker). isLive demo_flow 1 V} = {demo_char}"
    by (auto simp: demo_tracker_def demo_flow_def demo_var_def demo_char_def)
  ultimately show ?thesis by auto
qed

lemma block_undone_witness:
  "visit_scopes (Block [Declare demo_char, Block [Declare demo_var]]) demo_tracker = demo_tracker"
  by (rule block_undone) (simp_all add: demo_tracker_def)

end
