(* ===== verification/Header.thy ===== *)
theory Header
  imports Prelude
begin

text \<open>
  Model of \<open>UpdateHeader\<close> of \<open>runtime/Callback.cpp\<close>: after each run of an instrumented
  kernel the runtime reads one \<open>cl_int\<close> per work-item (0: finished, positive: checkpointed,
  negative: blocked by the barrier of that number) and decides whether the task is finished,
  must be resumed, or must be resumed after releasing the work-groups whose work-items all
  wait at one barrier. \<open>UpdateHeader_eq\<close> shows the loop equal to a specification on the
  list of work-groups.

  The loop over the work-groups does not end when the group size is 0, so it is a partial
  function with \<open>None\<close> for divergence; \<open>UpdateHeader_eq\<close> gives its result for every
  positive size.
\<close>

section \<open>The code\<close>

type_synonym bucket = "(u32 \<times> u32) list"

text \<open>The debug histogram: slot \<open>Abs\<close> counts the negative and the other entries.\<close>

definition bump :: "cl_int \<Rightarrow> bucket \<Rightarrow> bucket" where
  "bump x B =
     (let Sign = signed_drop_bit 31 x;
          Abs = unat ((Sign XOR x) - Sign);
          B = (if length B \<le> Abs then B @ replicate (Abs + 1 - length B) (0, 0) else B);
          (n, p) = B ! Abs
      in B[Abs := (if Sign = - 1 then (n + 1, p) else (n, p + 1))])"

record scan =
  Progress :: int
  Tag :: cl_int
  TagCount :: nat
  Bucket :: bucket

definition ScanItem :: "bool \<Rightarrow> cl_int \<Rightarrow> scan \<Rightarrow> scan outcome" where
  "ScanItem ShouldLog Front s =
     (let s = (if ShouldLog then s\<lparr>Bucket := bump Front (Bucket s)\<rparr> else s)
      in if Front = 0 then Ok s
         else
           let s = s\<lparr>Progress := Progress s OR 1\<rparr>
           in if 0 < sint Front then Ok s
              else if Tag s = 0 then Ok (s\<lparr>Tag := Front, TagCount := TagCount s + 1\<rparr>)
              else if Tag s = Front then Ok (s\<lparr>TagCount := TagCount s + 1\<rparr>)
              else Abort)"

fun ScanGroup :: "bool \<Rightarrow> cl_int list \<Rightarrow> scan \<Rightarrow> scan outcome" where
  "ScanGroup ShouldLog [] s = Ok s"
| "ScanGroup ShouldLog (x # xs) s = bindO (ScanItem ShouldLog x s) (ScanGroup ShouldLog xs)"

text \<open>
  One turn of the outer loop for the group that starts at \<open>First\<close>; \<open>pre\<close> is the part
  of the header already handled, \<open>rest\<close> the part from \<open>First\<close> on.
\<close>

definition GroupStep ::
  "bool \<Rightarrow> nat \<Rightarrow> cl_int list \<Rightarrow> int \<Rightarrow> bucket \<Rightarrow> (int \<times> cl_int list \<times> bucket) outcome" where
  "GroupStep ShouldLog WorkGrpSize rest P B =
     (if length rest < WorkGrpSize then Abort
      else
        bindO (ScanGroup ShouldLog (take WorkGrpSize rest)
                 \<lparr>Progress = P, Tag = 0, TagCount = 0, Bucket = B\<rparr>)
          (\<lambda>s. if TagCount s = WorkGrpSize
               then Ok (- 1, map (\<lambda>_. - Tag s) (take WorkGrpSize rest), Bucket s)
               else Ok (Progress s, take WorkGrpSize rest, Bucket s)))"

partial_function (option) UpdateHeader_loop ::
  "bool \<Rightarrow> nat \<Rightarrow> cl_int list \<Rightarrow> cl_int list \<Rightarrow> int \<Rightarrow> bucket
     \<Rightarrow> (int \<times> cl_int list \<times> bucket) outcome option" where
  "UpdateHeader_loop ShouldLog WorkGrpSize pre rest P B =
     (if rest = [] then Some (Ok (P, pre, B))
      else case GroupStep ShouldLog WorkGrpSize rest P B of
             Ok (P, grp, B) \<Rightarrow>
               UpdateHeader_loop ShouldLog WorkGrpSize (pre @ grp) (drop WorkGrpSize rest) P B
           | Throw e \<Rightarrow> Some (Throw e) | Abort \<Rightarrow> Some Abort | Crash \<Rightarrow> Some Crash)"

definition UpdateHeader ::
  "bool \<Rightarrow> cl_int list \<Rightarrow> nat \<Rightarrow> bucket \<Rightarrow> (int \<times> cl_int list \<times> bucket) outcome option" where
  "UpdateHeader ShouldLog header WorkGrpSize B =
     UpdateHeader_loop ShouldLog WorkGrpSize [] header 0 (if ShouldLog then [] else B)"

section \<open>The specification\<close>

fun chunks :: "nat \<Rightarrow> 'a list \<Rightarrow> 'a list list" where
  "chunks n xs = (if n = 0 \<or> xs = [] then [] else take n xs # chunks n (drop n xs))"

declare chunks.simps [simp del]

abbreviation waiting :: "cl_int \<Rightarrow> bool" where
  "waiting x \<equiv> sint x < 0"

text \<open>The work-items of a group that wait do so at one barrier.\<close>

definition one_barrier :: "cl_int list \<Rightarrow> bool" where
  "one_barrier g \<longleftrightarrow> (\<forall>x \<in> set g. \<forall>y \<in> set g. waiting x \<longrightarrow> waiting y \<longrightarrow> x = y)"

definition all_waiting :: "cl_int list \<Rightarrow> bool" where
  "all_waiting g \<longleftrightarrow> g \<noteq> [] \<and> (\<forall>x \<in> set g. waiting x)"

definition release :: "cl_int list \<Rightarrow> cl_int list" where
  "release g = (if all_waiting g then map uminus g else g)"

definition verdict :: "cl_int list list \<Rightarrow> int" where
  "verdict gs = (if \<exists>g \<in> set gs. all_waiting g then - 1
                 else if \<exists>g \<in> set gs. \<exists>x \<in> set g. x \<noteq> 0 then 1 else 0)"

definition header_ok :: "nat \<Rightarrow> cl_int list \<Rightarrow> bool" where
  "header_ok n h \<longleftrightarrow> n dvd length h \<and> (\<forall>g \<in> set (chunks n h). one_barrier g)"

section \<open>One group\<close>

lemma neg_cases: "x \<noteq> 0 \<Longrightarrow> \<not> 0 < sint (x :: cl_int) \<longleftrightarrow> waiting x"
  by (metis linorder_neqE_linordered_idom not_less_iff_gr_or_eq sint_0 signed_word_eqI)

lemma waiting_nz: "waiting x \<Longrightarrow> x \<noteq> (0 :: cl_int)"
  by auto

definition negs :: "cl_int list \<Rightarrow> cl_int list" where
  "negs g = filter waiting g"

definition agree :: "cl_int \<Rightarrow> cl_int list \<Rightarrow> bool" where
  "agree t ns \<longleftrightarrow> (\<forall>x \<in> set ns. x = (if t = 0 then hd ns else t))"

definition new_tag :: "cl_int \<Rightarrow> cl_int list \<Rightarrow> cl_int" where
  "new_tag t ns = (if t = 0 \<and> ns \<noteq> [] then hd ns else t)"

lemma or_one_idem: "(p OR 1) OR 1 = (p OR 1 :: int)"
  by (simp add: or.assoc)

text \<open>What scanning a group from the state \<open>s\<close> comes to, up to the histogram.\<close>

definition scan_result :: "cl_int list \<Rightarrow> scan \<Rightarrow> bucket \<Rightarrow> scan outcome" where
  "scan_result g s B =
     (if agree (Tag s) (negs g)
      then Ok \<lparr>Progress = (if \<exists>x \<in> set g. x \<noteq> 0 then Progress s OR 1 else Progress s),
               Tag = new_tag (Tag s) (negs g), TagCount = TagCount s + length (negs g),
               Bucket = B\<rparr>
      else Abort)"

lemma scan_result_Cons:
  "x = 0 \<Longrightarrow> scan_result (x # g) s = scan_result g (s\<lparr>Bucket := b\<rparr>)"
  "0 < sint x \<Longrightarrow>
     scan_result (x # g) s = scan_result g (s\<lparr>Bucket := b, Progress := Progress s OR 1\<rparr>)"
  "waiting x \<Longrightarrow> Tag s = 0 \<or> Tag s = x \<Longrightarrow> scan_result (x # g) s =
     scan_result g (s\<lparr>Bucket := b, Progress := Progress s OR 1, Tag := x,
                      TagCount := TagCount s + 1\<rparr>)"
  "waiting x \<Longrightarrow> Tag s \<noteq> 0 \<Longrightarrow> Tag s \<noteq> x \<Longrightarrow> scan_result (x # g) s B = Abort"
  by (auto simp: scan_result_def fun_eq_iff negs_def agree_def new_tag_def or_one_idem)

lemma ScanGroup_eq: "\<exists>B. ScanGroup L g s = scan_result g s B"
proof (induction g arbitrary: s)
  case Nil
  then show ?case
    by (intro exI [of _ "Bucket s"]) (simp add: scan_result_def agree_def negs_def new_tag_def)
next
  case (Cons x g)
  let ?b = "if L then bump x (Bucket s) else Bucket s"
  have s: "(if L then s\<lparr>Bucket := bump x (Bucket s)\<rparr> else s) = s\<lparr>Bucket := ?b\<rparr>" by simp
  note item = ScanItem_def [of L x s, unfolded s Let_def]
  consider "x = 0" | "0 < sint x" "x \<noteq> 0"
    | "waiting x" "x \<noteq> 0" "\<not> 0 < sint x" "Tag s = 0 \<or> Tag s = x"
    | "waiting x" "x \<noteq> 0" "\<not> 0 < sint x" "Tag s \<noteq> 0" "Tag s \<noteq> x"
    using neg_cases [of x] by auto
  then show ?case
  proof cases
    case 1
    have "ScanItem L x s = Ok (s\<lparr>Bucket := ?b\<rparr>)"
      unfolding item using 1 by auto
    then show ?thesis
      using Cons.IH [of "s\<lparr>Bucket := ?b\<rparr>"] scan_result_Cons(1) [OF 1, of g s ?b] by simp
  next
    case 2
    have "ScanItem L x s = Ok (s\<lparr>Bucket := ?b, Progress := Progress s OR 1\<rparr>)"
      unfolding item using 2 by auto
    then show ?thesis
      using Cons.IH [of "s\<lparr>Bucket := ?b, Progress := Progress s OR 1\<rparr>"]
        scan_result_Cons(2) [OF 2(1), of g s ?b]
      by simp
  next
    case 3
    have "ScanItem L x s = Ok (s\<lparr>Bucket := ?b, Progress := Progress s OR 1, Tag := x,
        TagCount := TagCount s + 1\<rparr>)"
      unfolding item using 3 by auto
    then show ?thesis
      using Cons.IH [of "s\<lparr>Bucket := ?b, Progress := Progress s OR 1, Tag := x,
          TagCount := TagCount s + 1\<rparr>"] scan_result_Cons(3) [OF 3(1,4), of g ?b]
      by simp
  next
    case 4
    have "ScanItem L x s = Abort"
      unfolding item using 4 by auto
    then show ?thesis using scan_result_Cons(4) [OF 4(1,4,5)] by simp
  qed
qed

lemma agree_zero_iff: "agree 0 (negs g) \<longleftrightarrow> one_barrier g"
proof
  assume a: "agree 0 (negs g)"
  show "one_barrier g"
    unfolding one_barrier_def
  proof (intro ballI impI)
    fix x y assume "x \<in> set g" "y \<in> set g" "waiting x" "waiting y"
    then have "x \<in> set (negs g)" "y \<in> set (negs g)" by (auto simp: negs_def)
    then show "x = y" using a by (simp add: agree_def) metis
  qed
next
  assume o: "one_barrier g"
  show "agree 0 (negs g)"
  proof (cases "negs g = []")
    case False
    then have "hd (negs g) \<in> set (negs g)" by simp
    then show ?thesis using o by (auto simp: agree_def one_barrier_def negs_def)
  qed (simp add: agree_def)
qed

lemma negs_full: "length (negs g) = length g \<longleftrightarrow> (\<forall>x \<in> set g. waiting x)"
  unfolding negs_def by (metis filter_True length_filter_less less_irrefl)

section \<open>The loop\<close>

definition progress_step :: "int \<Rightarrow> cl_int list \<Rightarrow> int" where
  "progress_step P g = (if all_waiting g then - 1 else if \<exists>x \<in> set g. x \<noteq> 0 then P OR 1 else P)"

lemma release_tag:
  assumes "one_barrier g" and "all_waiting g"
  shows "map (\<lambda>_. - hd g) g = release g"
proof -
  have "\<And>x. x \<in> set g \<Longrightarrow> x = hd g"
    using assms by (auto simp: one_barrier_def all_waiting_def)
  then show ?thesis using assms(2) by (simp add: release_def)
qed

lemma GroupStep_eq:
  assumes "0 < n" and "n \<le> length rest"
  shows "\<exists>B'. GroupStep L n rest P B =
     (if one_barrier (take n rest)
      then Ok (progress_step P (take n rest), release (take n rest), B') else Abort)"
proof -
  let ?g = "take n rest"
  have len: "length ?g = n" and ne: "?g \<noteq> []" using assms by auto
  obtain B' where scan: "ScanGroup L ?g \<lparr>Progress = P, Tag = 0, TagCount = 0, Bucket = B\<rparr> =
      scan_result ?g \<lparr>Progress = P, Tag = 0, TagCount = 0, Bucket = B\<rparr> B'"
    using ScanGroup_eq by blast
  have cnt: "length (negs ?g) = n \<longleftrightarrow> all_waiting ?g"
    using negs_full [of ?g] ne unfolding len all_waiting_def by blast
  have nd: "\<not> length rest < n" using assms by simp
  show ?thesis
  proof (cases "all_waiting ?g")
    case True
    then have full: "negs ?g = ?g" by (auto simp: negs_def all_waiting_def filter_id_conv)
    have "agree 0 ?g \<longleftrightarrow> one_barrier ?g" using agree_zero_iff [of ?g] full by simp
    then show ?thesis
      using True scan nd len ne cnt release_tag [OF _ True]
      by (intro exI [of _ B'])
         (auto simp: GroupStep_def scan_result_def progress_step_def agree_zero_iff new_tag_def full
           simp del: map_eq_conv)
  next
    case False
    then show ?thesis
      using scan nd cnt
      by (intro exI [of _ B'])
         (auto simp: GroupStep_def scan_result_def progress_step_def agree_zero_iff release_def)
  qed
qed

lemma header_ok_step:
  "0 < n \<Longrightarrow> n \<le> length h \<Longrightarrow>
     header_ok n h \<longleftrightarrow> one_barrier (take n h) \<and> header_ok n (drop n h)"
  by (auto simp: header_ok_def chunks.simps [of n h] dvd_minus_self)

lemma header_ok_short: "0 < n \<Longrightarrow> h \<noteq> [] \<Longrightarrow> length h < n \<Longrightarrow> \<not> header_ok n h"
  by (auto simp: header_ok_def dest: dvd_imp_le)

lemma UpdateHeader_loop_eq:
  assumes "0 < n"
  shows "\<exists>B'. UpdateHeader_loop L n pre rest P B =
     Some (if header_ok n rest
           then Ok (foldl progress_step P (chunks n rest),
                    pre @ concat (map release (chunks n rest)), B')
           else Abort)"
proof (induction "length rest" arbitrary: pre rest P B rule: less_induct)
  case less
  consider "rest = []" | "rest \<noteq> []" "length rest < n" | "rest \<noteq> []" "n \<le> length rest"
    by linarith
  then show ?case
  proof cases
    case 1
    then show ?thesis
      by (intro exI [of _ B]) (simp add: UpdateHeader_loop.simps chunks.simps header_ok_def)
  next
    case 2
    then show ?thesis
      by (simp add: UpdateHeader_loop.simps GroupStep_def header_ok_short assms)
  next
    case 3
    obtain B' where g: "GroupStep L n rest P B =
        (if one_barrier (take n rest)
         then Ok (progress_step P (take n rest), release (take n rest), B') else Abort)"
      using GroupStep_eq [OF assms 3(2)] by blast
    have "length (drop n rest) < length rest" using 3 assms by simp
    from less [OF this, of "pre @ release (take n rest)" "progress_step P (take n rest)" B']
    show ?thesis
      using 3 assms by (auto simp: UpdateHeader_loop.simps [of L n pre rest] g
          header_ok_step [OF assms] chunks.simps [of n rest])
  qed
qed

lemma foldl_progress:
  "P \<in> {- 1, 0, 1} \<Longrightarrow> foldl progress_step P gs =
     (if P = - 1 \<or> (\<exists>g \<in> set gs. all_waiting g) then - 1
      else if P = 1 \<or> (\<exists>g \<in> set gs. \<exists>x \<in> set g. x \<noteq> 0) then 1 else 0)"
proof (induction gs arbitrary: P)
  case (Cons g gs)
  have "progress_step P g \<in> {- 1, 0, 1}" using Cons.prems by (auto simp: progress_step_def)
  from Cons.IH [OF this] show ?case
    using Cons.prems by (auto simp: progress_step_def)
qed auto

lemma set_chunks: "0 < n \<Longrightarrow> (\<Union>g \<in> set (chunks n xs). set g) = set xs"
proof (induction n xs rule: chunks.induct)
  case (1 n xs)
  show ?case
  proof (cases "xs = []")
    case False
    have "set xs = set (take n xs) \<union> set (drop n xs)"
      by (metis append_take_drop_id set_append)
    then show ?thesis using 1 False by (simp add: chunks.simps [of n xs])
  qed (simp add: chunks.simps)
qed

lemma UpdateHeader_eq:
  assumes "0 < n"
  shows "\<exists>B'. UpdateHeader L h n B =
     Some (if header_ok n h
           then Ok (verdict (chunks n h), concat (map release (chunks n h)), B') else Abort)"
proof -
  have v: "foldl progress_step 0 (chunks n h) = verdict (chunks n h)"
    using foldl_progress [of 0 "chunks n h"] by (simp add: verdict_def)
  show ?thesis
    using UpdateHeader_loop_eq [OF assms, of L "[]" h 0 "if L then [] else B"]
    unfolding UpdateHeader_def v append_Nil .
qed

lemma verdict_zero:
  assumes "0 < n"
  shows "verdict (chunks n h) = 0 \<longleftrightarrow> (\<forall>x \<in> set h. x = 0)"
proof -
  have "(\<exists>g \<in> set (chunks n h). all_waiting g) \<Longrightarrow>
      \<exists>g \<in> set (chunks n h). \<exists>x \<in> set g. x \<noteq> 0"
    unfolding all_waiting_def by (metis all_not_in_conv set_empty waiting_nz)
  then have "verdict (chunks n h) = 0 \<longleftrightarrow> (\<forall>x \<in> (\<Union>g \<in> set (chunks n h). set g). x = 0)"
    by (auto simp: verdict_def)
  then show ?thesis by (simp add: set_chunks [OF assms])
qed

lemma chunks_concat_map:
  assumes "0 < n" and "n dvd length h" and "\<And>g. length (f g) = length g"
  shows "chunks n (concat (map f (chunks n h))) = map f (chunks n h)"
  using assms
proof (induction n h rule: chunks.induct)
  case (1 n h)
  show ?case
  proof (cases "h = []")
    case True
    then show ?thesis by (simp add: chunks.simps)
  next
    case False
    then have le: "n \<le> length h" using 1 by (auto dest: dvd_imp_le)
    have "chunks n (concat (map f (chunks n (drop n h)))) = map f (chunks n (drop n h))"
      using 1 False le by (auto simp: dvd_minus_self)
    moreover have "length (f (take n h)) = n" using le 1 by simp
    moreover have "f (take n h) \<noteq> []"
      using calculation(2) 1(2) by (cases "f (take n h)") simp_all
    ultimately show ?thesis
      using False 1
      by (simp add: chunks.simps [of n h] chunks.simps [of n "f (take n h) @ _"])
  qed
qed

lemma length_release [simp]: "length (release g) = length g"
  by (simp add: release_def)

lemma waiting_uminus:
  assumes "waiting x" and "x \<noteq> - (2 ^ 31)"
  shows "\<not> waiting (- x)"
proof
  assume "waiting (- x)"
  then have "bit (- x) 31" and "bit x 31"
    using assms(1) bit_last_iff [of x] bit_last_iff [of "- x"] by simp_all
  then have "2 ^ 31 \<le> uint (- x)" and "2 ^ 31 \<le> uint x"
    using bit_msb_iff_uint [of x] bit_msb_iff_uint [of "- x"] by simp_all
  moreover have "uint (- x) = 2 ^ 32 - uint x"
    using calculation(2) uint_lt2p [of x] by (simp add: uint_word_ariths zmod_zminus1_eq_if)
  ultimately have "uint x = uint (- (2 ^ 31) :: cl_int)" by simp
  then show False using assms(2) by (simp only: word_uint_eq_iff)
qed

lemma release_not_waiting:
  assumes "one_barrier g" and "- (2 ^ 31) \<notin> set g"
  shows "\<not> all_waiting (release g)"
proof (cases "all_waiting g")
  case True
  then obtain x where "x \<in> set g" unfolding all_waiting_def using hd_in_set by blast
  then have "waiting x" "x \<noteq> - (2 ^ 31)" using True assms(2) by (auto simp: all_waiting_def)
  then have "\<not> waiting (- x)" by (rule waiting_uminus)
  then show ?thesis using True \<open>x \<in> set g\<close> by (auto simp: release_def all_waiting_def)
qed (simp add: release_def)

text \<open>With a group size of 0 the loop never leaves the first group.\<close>

lemma UpdateHeader_loop_zero:
  assumes "UpdateHeader_loop L n pre rest P B = Some r"
  shows "n = 0 \<longrightarrow> rest = []"
proof (rule UpdateHeader_loop.raw_induct
    [where Pa = "\<lambda>a r. case a of (((((L, n), pre), rest), P), B) \<Rightarrow> n = 0 \<longrightarrow> rest = []",
       OF _ assms, simplified prod.case])
  fix f :: "bool \<Rightarrow> nat \<Rightarrow> cl_int list \<Rightarrow> cl_int list \<Rightarrow> int \<Rightarrow> bucket
     \<Rightarrow> (int \<times> cl_int list \<times> bucket) outcome option"
  fix L n pre rest P B r
  assume IH: "\<And>L n pre rest P B r. f L n pre rest P B = Some r \<Longrightarrow> n = 0 \<longrightarrow> rest = []"
    and eq: "(if rest = [] then Some (Ok (P, pre, B))
      else case GroupStep L n rest P B of
             Ok (P, grp, B) \<Rightarrow> f L n (pre @ grp) (drop n rest) P B
           | Throw e \<Rightarrow> Some (Throw e) | Abort \<Rightarrow> Some Abort | Crash \<Rightarrow> Some Crash) = Some r"
  show "n = 0 \<longrightarrow> rest = []"
  proof
    assume n: "n = 0"
    have "GroupStep L n rest P B = Ok (- 1, [], B)"
      by (simp add: GroupStep_def n)
    then show "rest = []" using eq IH n by (auto split: if_splits)
  qed
qed

lemma concat_release_id:
  "0 < n \<Longrightarrow> \<forall>g \<in> set (chunks n h). \<not> all_waiting g \<Longrightarrow>
     concat (map release (chunks n h)) = h"
proof (induction n h rule: chunks.induct)
  case (1 n h)
  show ?case
  proof (cases "h = []")
    case False
    have "concat (map release (chunks n (drop n h))) = drop n h"
      using 1 False by (simp add: chunks.simps [of n h])
    moreover have "release (take n h) = take n h"
      using 1 False by (simp add: chunks.simps [of n h] release_def)
    ultimately show ?thesis using 1 False by (simp add: chunks.simps [of n h])
  qed (simp add: chunks.simps)
qed

lemma concat_chunks: "0 < n \<Longrightarrow> concat (chunks n h) = h"
  by (induction n h rule: chunks.induct) (subst chunks.simps, auto)

lemma length_concat_release:
  assumes "0 < n"
  shows "length (concat (map release (chunks n h))) = length h"
proof -
  have "length (concat (map release xs)) = length (concat xs)" for xs
    by (induction xs) simp_all
  then show ?thesis using concat_chunks [OF assms, of h] by simp
qed

lemma UpdateHeader_no_throw: "UpdateHeader L h n B \<noteq> Some (Throw e)"
proof (cases "0 < n")
  case True
  then show ?thesis using UpdateHeader_eq [OF True, of L h B] by (auto split: if_splits)
next
  case False
  show ?thesis
  proof
    assume t: "UpdateHeader L h n B = Some (Throw e)"
    then have "h = []"
      using UpdateHeader_loop_zero [of L n "[]" h 0 "if L then [] else B" "Throw e"] False
      by (simp add: UpdateHeader_def)
    then show False using t by (simp add: UpdateHeader_def UpdateHeader_loop.simps [of L n "[]" "[]"])
  qed
qed

section \<open>Properties\<close>



text \<open>
  C20. The task is reported finished (0) exactly when every work-item has finished, the
  header is rewritten only when -1 is reported, and no other number is reported than
  0, 1 and -1.
\<close>

theorem UpdateHeader_finished:
  assumes "0 < n" and "UpdateHeader L h n B = Some (Ok (p, h', B'))"
  shows "(p = 0 \<longleftrightarrow> (\<forall>x \<in> set h. x = 0)) \<and> (p \<noteq> - 1 \<longrightarrow> h' = h) \<and> p \<in> {- 1, 0, 1}
     \<and> length h' = length h"
proof -
  have ok: "header_ok n h" and p: "p = verdict (chunks n h)"
    and h': "h' = concat (map release (chunks n h))"
    using UpdateHeader_eq [OF assms(1), of L h B] assms(2) by (auto split: if_splits)
  show ?thesis
    using verdict_zero [OF assms(1), of h] concat_release_id [OF assms(1), of h]
      length_concat_release [OF assms(1), of h]
    by (auto simp: p h' verdict_def split: if_splits)
qed

lemma UpdateHeader_finished_witness:
  "\<exists>B' h'. UpdateHeader True [0, 0, 0, 0] 2 [] = Some (Ok (0, h', B')) \<and> h' = [0, 0, 0, 0]"
proof -
  have c: "chunks 2 [0, 0, 0, 0 :: cl_int] = [[0, 0], [0, 0]]" by (simp add: chunks.simps)
  obtain B' where run: "UpdateHeader True [0, 0, 0, 0] 2 [] = Some (Ok (0, [0, 0, 0, 0], B'))"
    using UpdateHeader_eq [of 2 True "[0, 0, 0, 0]" "[]"] unfolding header_ok_def c
    by (auto simp: one_barrier_def verdict_def all_waiting_def release_def)
  show ?thesis using UpdateHeader_finished [OF _ run] run by auto
qed

text \<open>
  C21. Nothing is left blocked for good: in the header that is written back no work-group
  consists of waiting work-items only, so the next run of the kernel can advance every group
  (barrier numbers other than the smallest \<open>cl_int\<close>, which has no negation).
\<close>

theorem UpdateHeader_no_deadlock:
  assumes "0 < n" and "UpdateHeader L h n B = Some (Ok (p, h', B'))" and "- (2 ^ 31) \<notin> set h"
  shows "\<forall>g \<in> set (chunks n h'). \<not> all_waiting g"
proof -
  have ok: "header_ok n h" and h': "h' = concat (map release (chunks n h))"
    using UpdateHeader_eq [OF assms(1), of L h B] assms(2) by (auto split: if_splits)
  have ch: "chunks n h' = map release (chunks n h)"
    unfolding h' using ok assms(1) by (intro chunks_concat_map) (auto simp: header_ok_def)
  have "\<not> all_waiting (release g)" if g: "g \<in> set (chunks n h)" for g
  proof (rule release_not_waiting)
    show "one_barrier g" using ok g by (simp add: header_ok_def)
    show "- (2 ^ 31) \<notin> set g"
      using g assms(3) set_chunks [OF assms(1), of h] by blast
  qed
  then show ?thesis by (simp add: ch)
qed

lemma UpdateHeader_no_deadlock_witness:
  "\<exists>h' B'. UpdateHeader False [- 5, - 5] 2 [] = Some (Ok (- 1, h', B'))
     \<and> (\<forall>g \<in> set (chunks 2 h'). \<not> all_waiting g)"
proof -
  have c: "chunks 2 [- 5, - 5 :: cl_int] = [[- 5, - 5]]" by (simp add: chunks.simps)
  obtain B' where run: "UpdateHeader False [- 5, - 5] 2 [] = Some (Ok (- 1, [5, 5], B'))"
    using UpdateHeader_eq [of 2 False "[- 5, - 5]" "[]"] unfolding header_ok_def c
    by (auto simp: one_barrier_def verdict_def all_waiting_def release_def)
  show ?thesis using UpdateHeader_no_deadlock [OF _ run] run by auto
qed

text \<open>C22. A group size of 0 makes the loop run forever on any non-empty header.\<close>

theorem UpdateHeader_diverges:
  assumes "h \<noteq> []"
  shows "UpdateHeader L h 0 B = None"
  using UpdateHeader_loop_zero [of L 0 "[]" h 0] assms
  by (cases "UpdateHeader L h 0 B") (auto simp: UpdateHeader_def)

lemma UpdateHeader_diverges_witness: "UpdateHeader False [1] 0 [] = None"
  by (rule UpdateHeader_diverges) simp

end
