(* ===== verification/Toolkit.thy ===== *)
theory Toolkit
  imports Header
begin

text \<open>
  The helper functions of \<open>toolkit.cl\<close> that instrumented kernels call: the linear
  identifiers of a work-item, and the copies between variables and the buffer of live values.

  Memory is a function from addresses to bytes, one for each address space. The word-wise
  copies access their memory through \<open>uint\<close> and \<open>ushort\<close> pointers: a misaligned access is
  \<open>Crash\<close>. The linear identifiers are computed without wrap-around; they are smaller than
  the number of work-items, which fits a \<open>size_t\<close>.
\<close>

section \<open>Linear identifiers\<close>

text \<open>What a work-item asks the device for, by dimension.\<close>

record work_item =
  num_groups :: "nat \<Rightarrow> nat"
  group_id :: "nat \<Rightarrow> nat"
  local_size :: "nat \<Rightarrow> nat"
  local_id :: "nat \<Rightarrow> nat"

text \<open>The loop counts the dimension down; the accumulators are the group, the item, the size.\<close>

fun linear_loop :: "work_item \<Rightarrow> nat \<Rightarrow> nat \<times> nat \<times> nat \<Rightarrow> nat \<times> nat \<times> nat" where
  "linear_loop wi 0 (grp, loc, sz) = (grp, loc, sz)"
| "linear_loop wi (Suc d) (grp, loc, sz) =
     linear_loop wi d (grp * num_groups wi d + group_id wi d, loc * local_size wi d + local_id wi d, sz * local_size wi d)"

definition get_linear_id :: "work_item \<Rightarrow> nat \<Rightarrow> nat \<times> nat \<times> nat \<times> nat" where
  "get_linear_id wi work_dim =
     (case linear_loop wi work_dim (0, 0, 1) of (grp, loc, sz) \<Rightarrow> (grp * sz + loc, grp, loc, sz))"

text \<open>The mixed radix number with digits \<open>x\<close> and bases \<open>b\<close>.\<close>

fun radix :: "(nat \<Rightarrow> nat) \<Rightarrow> (nat \<Rightarrow> nat) \<Rightarrow> nat \<Rightarrow> nat" where
  "radix b x 0 = 0"
| "radix b x (Suc d) = radix b x d + x d * (\<Prod>j < d. b j)"

lemma linear_loop_radix:
  "linear_loop wi d (g, l, z) =
     (g * (\<Prod>j < d. num_groups wi j) + radix (num_groups wi) (group_id wi) d,
      l * (\<Prod>j < d. local_size wi j) + radix (local_size wi) (local_id wi) d,
      z * (\<Prod>j < d. local_size wi j))"
  by (induction d arbitrary: g l z) (simp_all add: algebra_simps)

lemma radix_bound: "\<forall>j < d. x j < b j \<Longrightarrow> radix b x d < (\<Prod>j < d. b j)"
proof (induction d)
  case (Suc d)
  have "radix b x (Suc d) < (\<Prod>j < d. b j) + x d * (\<Prod>j < d. b j)" using Suc by simp
  also have "\<dots> = Suc (x d) * (\<Prod>j < d. b j)" by simp
  also have "\<dots> \<le> b d * (\<Prod>j < d. b j)" using Suc.prems by (intro mult_le_mono1) (simp add: Suc_leI)
  finally show ?case by (simp add: mult.commute)
qed simp

lemma radix_inject:
  assumes "\<forall>j < d. x j < b j" and "\<forall>j < d. y j < b j" and "radix b x d = radix b y d"
  shows "\<forall>j < d. x j = y j"
  using assms
proof (induction d)
  case (Suc d)
  define p where "p = (\<Prod>j < d. b j)"
  have bound: "radix b x d < p" "radix b y d < p" 
    using Suc.prems(1,2) unfolding p_def by (simp_all add: radix_bound)
  have eq: "radix b x d + x d * p = radix b y d + y d * p" using Suc.prems(3) by (simp add: p_def)
  have split: "(n + m * p) div p = m" "(n + m * p) mod p = n" if "n < p" for n m using that by simp_all
  have "x d = y d" using split(1) [OF bound(1), of "x d"] split(1) [OF bound(2), of "y d"] by (simp only: eq)
  moreover have "radix b x d = radix b y d"
    using split(2) [OF bound(1), of "x d"] split(2) [OF bound(2), of "y d"] by (simp only: eq)
  moreover have "\<forall>j < d. x j = y j" using Suc.prems(1,2) by (intro Suc.IH calculation) simp_all
  ultimately show ?case by (simp add: less_Suc_eq)
qed simp

definition in_range :: "work_item \<Rightarrow> nat \<Rightarrow> bool" where
  "in_range wi dim \<longleftrightarrow> (\<forall>j < dim. group_id wi j < num_groups wi j \<and> local_id wi j < local_size wi j)"

lemma get_linear_id_eq:
  "get_linear_id wi dim =
     (radix (num_groups wi) (group_id wi) dim * (\<Prod>j < dim. local_size wi j) + radix (local_size wi) (local_id wi) dim,
      radix (num_groups wi) (group_id wi) dim, radix (local_size wi) (local_id wi) dim, \<Prod>j < dim. local_size wi j)"
  by (simp add: get_linear_id_def linear_loop_radix)

section \<open>Copying private variables\<close>

type_synonym byte = "8 word"
type_synonym mem = "nat \<Rightarrow> byte"

text \<open>\<open>n\<close> bytes from \<open>s\<close> in \<open>S\<close> to \<open>d\<close> in \<open>D\<close>.\<close>

definition block :: "nat \<Rightarrow> nat \<Rightarrow> nat \<Rightarrow> mem \<Rightarrow> mem \<Rightarrow> mem" where
  "block n d s D S = (\<lambda>a. if d \<le> a \<and> a < d + n then S (s + (a - d)) else D a)"

text \<open>
  The copying loops, in units of 4, 2 or 1 bytes: what is left over at the end is not copied.
\<close>

function copy_units :: "nat \<Rightarrow> nat \<Rightarrow> nat \<Rightarrow> nat \<Rightarrow> mem \<Rightarrow> mem \<Rightarrow> mem outcome" where
  "copy_units u d s len D S =
     (if u = 0 \<or> len < u then Ok D
      else if \<not> u dvd d \<or> \<not> u dvd s then Crash
      else copy_units u (d + u) (s + u) (len - u) (block u d s D S) S)"
  by pat_completeness auto
termination by (relation "measure (\<lambda>(u, d, s, len, D, S). len)") auto

declare copy_units.simps [simp del]

definition store_private_align_4 :: "nat \<Rightarrow> nat \<Rightarrow> nat \<Rightarrow> mem \<Rightarrow> mem \<Rightarrow> mem outcome" where
  "store_private_align_4 lvb src len glb prv = copy_units 4 lvb src len glb prv"

definition load_private_align_4 :: "nat \<Rightarrow> nat \<Rightarrow> nat \<Rightarrow> mem \<Rightarrow> mem \<Rightarrow> mem outcome" where
  "load_private_align_4 lvb dst len glb prv = copy_units 4 dst lvb len prv glb"

definition store_private_align_2 :: "nat \<Rightarrow> nat \<Rightarrow> nat \<Rightarrow> mem \<Rightarrow> mem \<Rightarrow> mem outcome" where
  "store_private_align_2 lvb src len glb prv = copy_units 2 lvb src len glb prv"

definition load_private_align_2 :: "nat \<Rightarrow> nat \<Rightarrow> nat \<Rightarrow> mem \<Rightarrow> mem \<Rightarrow> mem outcome" where
  "load_private_align_2 lvb dst len glb prv = copy_units 2 dst lvb len prv glb"

definition store_private :: "nat \<Rightarrow> nat \<Rightarrow> nat \<Rightarrow> mem \<Rightarrow> mem \<Rightarrow> mem outcome" where
  "store_private lvb src len glb prv = copy_units 1 lvb src len glb prv"

definition load_private :: "nat \<Rightarrow> nat \<Rightarrow> nat \<Rightarrow> mem \<Rightarrow> mem \<Rightarrow> mem outcome" where
  "load_private lvb dst len glb prv = copy_units 1 dst lvb len prv glb"

lemmas private_copies = store_private_align_4_def load_private_align_4_def store_private_align_2_def
  load_private_align_2_def store_private_def load_private_def

lemma block_0 [simp]: "block 0 d s D S = D"
  by (auto simp: block_def fun_eq_iff)

lemma block_append: "block m (d + n) (s + n) (block n d s D S) S = block (n + m) d s D S"
  by (auto simp: block_def fun_eq_iff intro: arg_cong [of _ _ S])

text \<open>Aligned copies of a whole number of units copy everything.\<close>

lemma copy_units_block:
  assumes "0 < u" and "u dvd d" and "u dvd s" and "u dvd len"
  shows "copy_units u d s len D S = Ok (block len d s D S)"
  using assms
proof (induction u d s len D S rule: copy_units.induct)
  case (1 u d s len D S)
  show ?case
  proof (cases "len < u")
    case True
    then show ?thesis using "1.prems" by (subst copy_units.simps) (auto dest: dvd_imp_le)
  next
    case False
    have "block (len - u) (d + u) (s + u) (block u d s D S) S = block len d s D S"
      using block_append [of "len - u" d u s D S] False by simp
    moreover have "copy_units u (d + u) (s + u) (len - u) (block u d s D S) S =
        Ok (block (len - u) (d + u) (s + u) (block u d s D S) S)"
      using "1.prems" False by (intro "1.IH") auto
    ultimately show ?thesis
      using "1.prems" False by (subst copy_units.simps) simp
  qed
qed

text \<open>
  What the checkpoint code expects of these functions: for every kind of copy there is a unit
  that divides 4, and within it a store and a load move exactly the bytes named.
\<close>

locale save_area =
  fixes store :: "'k \<Rightarrow> nat \<Rightarrow> nat \<Rightarrow> nat \<Rightarrow> mem \<Rightarrow> mem \<Rightarrow> mem outcome"
    and load :: "'k \<Rightarrow> nat \<Rightarrow> nat \<Rightarrow> nat \<Rightarrow> mem \<Rightarrow> mem \<Rightarrow> mem outcome"
    and unit :: "'k \<Rightarrow> nat"
  assumes store_block: "unit k dvd lvb \<Longrightarrow> unit k dvd src \<Longrightarrow> unit k dvd n \<Longrightarrow>
        store k lvb src n glb prv = Ok (block n lvb src glb prv)"
    and load_block: "unit k dvd lvb \<Longrightarrow> unit k dvd dst \<Longrightarrow> unit k dvd n \<Longrightarrow>
        load k lvb dst n glb prv = Ok (block n dst lvb prv glb)"
    and unit_dvd: "unit k dvd 4"
begin

lemma unit_dvd_4: "4 dvd n \<Longrightarrow> unit k dvd n"
  using unit_dvd by (rule dvd_trans)

text \<open>At an offset into a save area aligned to 4.\<close>

lemma store_at:
  assumes "4 dvd base" and "unit k dvd off" and "unit k dvd src" and "unit k dvd n"
  shows "store k (base + off) src n glb prv = Ok (block n (base + off) src glb prv)"
  using assms unit_dvd_4 [OF assms(1)] by (intro store_block) simp_all

lemma load_at:
  assumes "4 dvd base" and "unit k dvd off" and "unit k dvd dst" and "unit k dvd n"
  shows "load k (base + off) dst n glb prv = Ok (block n dst (base + off) prv glb)"
  using assms unit_dvd_4 [OF assms(1)] by (intro load_block) simp_all

text \<open>What was stored is loaded back, whatever happened to the variable since.\<close>

lemma load_store:
  assumes "4 dvd base" and "unit k dvd off" and "unit k dvd src" and "unit k dvd n"
    and "store k (base + off) src n glb prv = Ok glb'"
  shows "load k (base + off) src n glb' prv' = Ok (block n src src prv' prv)"
proof -
  have glb': "glb' = block n (base + off) src glb prv" using assms(5) store_at [OF assms(1-4)] by simp
  have "block n src (base + off) prv' glb' = block n src src prv' prv"
    unfolding glb' by (auto simp: block_def fun_eq_iff)
  then show ?thesis using load_at [OF assms(1-4)] by simp
qed

end

text \<open>A variable smaller than the unit is not copied at all.\<close>

lemma copy_units_short: "len < u \<Longrightarrow> copy_units u d s len D S = Ok D"
  by (subst copy_units.simps) simp

section \<open>The cost counter\<close>

text \<open>
  The counter holds the device clock in units of \<open>2 ^ 10\<close> ticks, cut to 32 bits, when the
  work-item started or resumed. \<open>clock\<close> is what \<open>clock64\<close> reads. The estimated cost is ignored.
\<close>

definition init_cost_ctr :: "u64 \<Rightarrow> u32" where
  "init_cost_ctr clock = ucast (drop_bit 10 clock)"

definition update_ctr :: "u32 \<Rightarrow> u32 \<Rightarrow> u32" where
  "update_ctr cost_ctr esti_cost = cost_ctr"

definition should_chkpnt :: "u64 \<Rightarrow> u32 \<Rightarrow> u32 \<Rightarrow> bool" where
  "should_chkpnt clock cost_ctr tlv \<longleftrightarrow> ucast (drop_bit 10 clock) - cost_ctr > tlv"

text \<open>
  Although the counter wraps, the test is exact: a work-item asks for a checkpoint exactly
  when more units than \<open>tlv\<close> have passed, as long as fewer than \<open>2 ^ 32\<close> have.
\<close>

lemma should_chkpnt_exact:
  assumes "start \<le> clock" and "unat clock div 2 ^ 10 - unat start div 2 ^ 10 < 2 ^ 32"
  shows "should_chkpnt clock (update_ctr (init_cost_ctr start) cost) tlv \<longleftrightarrow>
     unat tlv < unat clock div 2 ^ 10 - unat start div 2 ^ 10"
proof -
  define a b where "a = unat start div 2 ^ 10" and "b = unat clock div 2 ^ 10"
  have "a \<le> b" unfolding a_def b_def using assms(1) by (intro div_le_mono) (simp add: word_le_nat_alt)
  have cut: "ucast (drop_bit 10 w) = (of_nat (unat w div 2 ^ 10) :: u32)" for w :: u64
    by (rule word_unat_eq_iff [THEN iffD2]) (simp add: unsigned_ucast_eq unat_drop_bit_eq drop_bit_eq_div unat_div_distrib unsigned_of_nat)
  have "ucast (drop_bit 10 clock) - ucast (drop_bit 10 start) = (of_nat (b - a) :: u32)"
    using \<open>a \<le> b\<close> unfolding cut a_def b_def by (simp add: of_nat_diff)
  moreover have "unat (of_nat (b - a) :: u32) = b - a"
    using assms(2) unfolding a_def b_def by (simp add: unsigned_of_nat take_bit_nat_eq_self)
  ultimately show ?thesis
    by (simp add: should_chkpnt_def update_ctr_def init_cost_ctr_def word_less_nat_alt a_def b_def)
qed

section \<open>Copying local variables\<close>

text \<open>
  The work-items of a group copy a local variable together: each takes every
  \<open>batch_size\<close>-th word, starting with its own; whoever would copy the last, partial word
  copies its bytes. With a batch len of 0 the loop does not end.
\<close>

partial_function (option) store_local_loop ::
  "nat \<Rightarrow> nat \<Rightarrow> nat \<Rightarrow> nat \<Rightarrow> nat \<Rightarrow> mem \<Rightarrow> mem \<Rightarrow> mem outcome option" where
  "store_local_loop lvb src len batch i D S =
     (if src + 4 * i + 4 \<le> src + len
      then (if \<not> 4 dvd lvb \<or> \<not> 4 dvd src then Some Crash
            else store_local_loop lvb src len batch (i + batch) (block 4 (lvb + 4 * i) (src + 4 * i) D S) S)
      else if src + 4 * i < src + len
      then Some (Ok (block (len - 4 * i) (lvb + 4 * i) (src + 4 * i) D S))
      else Some (Ok D))"

definition store_local :: "nat \<Rightarrow> nat \<Rightarrow> nat \<Rightarrow> nat \<Rightarrow> nat \<Rightarrow> mem \<Rightarrow> mem \<Rightarrow> mem outcome option" where
  "store_local lvb src len loc_id batch D S = store_local_loop lvb src len batch loc_id D S"

text \<open>The words and bytes a work-item copies.\<close>

definition share :: "nat \<Rightarrow> nat \<Rightarrow> nat \<Rightarrow> nat \<Rightarrow> nat \<Rightarrow> nat \<Rightarrow> mem \<Rightarrow> mem \<Rightarrow> mem" where
  "share lvb src len loc_id batch i D S = (\<lambda>a.
     if lvb + 4 * i \<le> a \<and> a < lvb + len \<and> ((a - lvb) div 4) mod batch = loc_id then S (src + (a - lvb)) else D a)"

lemma share_step:
  assumes "0 < batch" and "i mod batch = k" and "4 * i + 4 \<le> len"
  shows "share lvb src len k batch (i + batch) (block 4 (lvb + 4 * i) (src + 4 * i) D S) S = share lvb src len k batch i D S"
proof
  fix a
  show "share lvb src len k batch (i + batch) (block 4 (lvb + 4 * i) (src + 4 * i) D S) S a = share lvb src len k batch i D S a"
  proof (cases "lvb + 4 * i \<le> a \<and> a < lvb + len \<and> ((a - lvb) div 4) mod batch = k")
    case True
    then have "i * 4 \<le> a - lvb" by linarith
    then have le: "i \<le> (a - lvb) div 4" by (simp add: less_eq_div_iff_mult_less_eq)
    show ?thesis
    proof (cases "(a - lvb) div 4 = i")
      case True
      then have "lvb + 4 * i \<le> a \<and> a < lvb + 4 * i + 4" using \<open>_ \<and> _ \<and> _\<close> by linarith
      then show ?thesis using assms \<open>_ \<and> _ \<and> _ = k\<close> by (auto simp: share_def block_def)
    next
      case False
      then have "i + batch \<le> (a - lvb) div 4"
        using le True assms(1,2) by (metis le_neq_implies_less mod_eq_dvd_iff_nat nat_dvd_not_less not_less zero_less_diff le_add_diff_inverse add_le_cancel_left)
      then have "4 * (i + batch) \<le> a - lvb" by (simp add: less_eq_div_iff_mult_less_eq mult.commute)
      then have "lvb + 4 * (i + batch) \<le> a" using True by linarith
      then show ?thesis using True by (simp add: share_def)
    qed
  next
    case False
    have "lvb + 4 * i \<le> a \<and> a < lvb + 4 * i + 4 \<Longrightarrow> (a - lvb) div 4 = i" by (intro div_nat_eqI) auto
    then have "\<not> (lvb + 4 * i \<le> a \<and> a < lvb + 4 * i + 4)" using False assms by auto
    then show ?thesis using False by (auto simp: share_def block_def)
  qed
qed

lemma store_local_loop_share:
  assumes "0 < batch" and "4 dvd lvb" and "4 dvd src" and "i mod batch = k"
  shows "store_local_loop lvb src len batch i D S = Some (Ok (share lvb src len k batch i D S))"
  using assms(4)
proof (induction "len - 4 * i" arbitrary: i D rule: less_induct)
  case less
  consider (word) "4 * i + 4 \<le> len" | (tail) "\<not> 4 * i + 4 \<le> len" "4 * i < len" | (past) "len \<le> 4 * i"
    by linarith
  then show ?case
  proof cases
    case word
    have "store_local_loop lvb src len batch (i + batch) (block 4 (lvb + 4 * i) (src + 4 * i) D S) S =
        Some (Ok (share lvb src len k batch (i + batch) (block 4 (lvb + 4 * i) (src + 4 * i) D S) S))"
      using word assms(1) less.prems by (intro less.hyps) auto
    then show ?thesis
      using word assms(2,3) share_step [OF assms(1) less.prems word] by (subst store_local_loop.simps) simp
  next
    case tail
    have "block (len - 4 * i) (lvb + 4 * i) (src + 4 * i) D S = share lvb src len k batch i D S"
    proof
      fix a
      have "lvb + 4 * i \<le> a \<and> a < lvb + len \<Longrightarrow> (a - lvb) div 4 = i" using tail by (intro div_nat_eqI) auto
      then show "block (len - 4 * i) (lvb + 4 * i) (src + 4 * i) D S a = share lvb src len k batch i D S a"
        using tail less.prems by (auto simp: block_def share_def)
    qed
    then show ?thesis using tail by (subst store_local_loop.simps) simp
  next
    case past
    have "share lvb src len k batch i D S = D"
    proof
      fix a
      have "\<not> (lvb + 4 * i \<le> a \<and> a < lvb + len)" using past by linarith
      then show "share lvb src len k batch i D S a = D a" by (auto simp: share_def)
    qed
    then show ?thesis using past by (subst store_local_loop.simps) simp
  qed
qed

text \<open>A group copies together, its members in some order.\<close>

fun group_store :: "nat \<Rightarrow> nat \<Rightarrow> nat \<Rightarrow> nat \<Rightarrow> mem \<Rightarrow> nat list \<Rightarrow> mem \<Rightarrow> mem outcome option" where
  "group_store lvb src len batch S [] D = Some (Ok D)"
| "group_store lvb src len batch S (k # ks) D =
     (case store_local lvb src len k batch D S of
        Some (Ok D') \<Rightarrow> group_store lvb src len batch S ks D'
      | r \<Rightarrow> r)"

lemma share_own: "share lvb src len k batch k D S =
    (\<lambda>a. if lvb \<le> a \<and> a < lvb + len \<and> ((a - lvb) div 4) mod batch = k then S (src + (a - lvb)) else D a)"
proof
  fix a
  have "lvb + 4 * k \<le> a" if "lvb \<le> a" "((a - lvb) div 4) mod batch = k"
  proof -
    have "k \<le> (a - lvb) div 4" using that(2) by (metis mod_less_eq_dividend)
    then have "4 * k \<le> a - lvb" by (simp add: less_eq_div_iff_mult_less_eq mult.commute)
    then show ?thesis using that(1) by linarith
  qed
  then show "share lvb src len k batch k D S a =
    (if lvb \<le> a \<and> a < lvb + len \<and> ((a - lvb) div 4) mod batch = k then S (src + (a - lvb)) else D a)"
    by (auto simp: share_def)
qed

lemma group_store_shares:
  assumes "4 dvd lvb" and "4 dvd src" and "set ks \<subseteq> {..< batch}"
  shows "group_store lvb src len batch S ks D = Some (Ok (\<lambda>a.
     if lvb \<le> a \<and> a < lvb + len \<and> ((a - lvb) div 4) mod batch \<in> set ks then S (src + (a - lvb)) else D a))"
  using assms(3)
proof (induction ks arbitrary: D)
  case (Cons k ks)
  then have "store_local lvb src len k batch D S = Some (Ok (share lvb src len k batch k D S))"
    unfolding store_local_def by (intro store_local_loop_share [OF _ assms(1,2)]) auto
  then show ?case using Cons by (auto simp: share_own fun_eq_iff)
qed simp

lemma group_store_block:
  assumes "4 dvd lvb" and "4 dvd src" and "set ks = {..< batch}" and "0 < batch"
  shows "group_store lvb src len batch S ks D = Some (Ok (block len lvb src D S))"
  using group_store_shares [of lvb src ks batch len S D] assms by (auto simp: block_def fun_eq_iff)

section \<open>The header\<close>

lemma nth_chunks:
  assumes "0 < n" and "i * n < length xs"
  shows "i < length (chunks n xs) \<and> chunks n xs ! i = take n (drop (i * n) xs)"
  using assms
proof (induction i arbitrary: xs)
  case 0
  then show ?case by (cases xs) (auto simp: chunks.simps)
next
  case (Suc i)
  then have "xs \<noteq> []" "i * n < length (drop n xs)" by auto
  with Suc.IH [OF Suc.prems(1) this(2)] Suc.prems show ?case
    by (subst (1 2) chunks.simps) (auto simp: add.commute)
qed

section \<open>Properties\<close>



text \<open>
  Two work-items of one launch never share a number, so none overwrites another's header
  entry or live values.
\<close>

theorem linear_id_distinct:
  assumes "in_range wi dim" and "in_range wi' dim"
    and "num_groups wi' = num_groups wi" and "local_size wi' = local_size wi"
    and "fst (get_linear_id wi dim) = fst (get_linear_id wi' dim)" and "j < dim"
  shows "group_id wi j = group_id wi' j \<and> local_id wi j = local_id wi' j"
proof -
  let ?l = "\<Prod>j < dim. local_size wi j"
  have b: "radix (local_size wi) (local_id wi) dim < ?l" "radix (local_size wi) (local_id wi') dim < ?l"
    using assms(1,2,4) by (auto simp: in_range_def intro!: radix_bound)
  have split: "(m * q + n) div q = m" "(m * q + n) mod q = n" if "n < q" for n m q :: nat using that by simp_all
  have eq: "radix (num_groups wi) (group_id wi) dim * ?l + radix (local_size wi) (local_id wi) dim =
      radix (num_groups wi) (group_id wi') dim * ?l + radix (local_size wi) (local_id wi') dim"
    using assms(5) by (simp add: get_linear_id_eq assms(3,4))
  have "radix (num_groups wi) (group_id wi) dim = radix (num_groups wi) (group_id wi') dim"
    using split(1) [OF b(1)] split(1) [OF b(2)] eq by metis
  moreover have "radix (local_size wi) (local_id wi) dim = radix (local_size wi) (local_id wi') dim"
    using split(2) [OF b(1)] split(2) [OF b(2)] eq by metis
  ultimately show ?thesis
    using radix_inject [of dim "group_id wi" "num_groups wi" "group_id wi'"]
      radix_inject [of dim "local_id wi" "local_size wi" "local_id wi'"] assms
    by (auto simp: in_range_def)
qed

lemma linear_id_distinct_witness:
  "\<exists>wi wi'. in_range wi 1 \<and> in_range wi' 1 \<and> fst (get_linear_id wi 1) = fst (get_linear_id wi' 1) \<and>
     group_id wi 0 = group_id wi' 0"
proof -
  let ?wi = "\<lparr>num_groups = (\<lambda>_. 2), group_id = (\<lambda>_. 1), local_size = (\<lambda>_. 3), local_id = (\<lambda>_. 2)\<rparr>"
  have r: "in_range ?wi 1" by (simp add: in_range_def)
  have "group_id ?wi 0 = group_id ?wi 0 \<and> local_id ?wi 0 = local_id ?wi 0"
    by (rule linear_id_distinct [OF r r]) simp_all
  then show ?thesis using r by blast
qed

text \<open>
  A work-group saves a local variable completely. If both addresses are multiples of
  four, the members' calls of \<open>__clpkm_store_local\<close>, in whatever order, each ending, together
  copy exactly the bytes of the variable, a partial last word included.
\<close>

theorem group_store_exact:
  assumes "set ks = {..< batch}" and "0 < batch" and "4 dvd lvb" and "4 dvd src"
  shows "group_store lvb src len batch S ks D = Some (Ok (block len lvb src D S))"
  using assms by (intro group_store_block)

lemma group_store_exact_witness:
  "group_store 8 4 7 3 S [2, 0, 1] D = Some (Ok (block 7 8 4 D S))"
  by (rule group_store_exact) auto

end
