(* ===== verification/Covfefe.thy ===== *)
theory Covfefe
  imports LiveVar Toolkit
begin

text \<open>
  The checkpoint and resume code that the instrumenting compiler writes into a kernel:
  \<open>Instrumentor::GenerateCovfefe\<close> for variables in private memory and
  \<open>Instrumentor::GenerateLocfefe\<close> for those in local memory, with the layout of the buffers
  they imply. The code is generated as text; here it is first a list of copies and then its
  text, so that the copies can be run on the memory model of \<open>Toolkit\<close>.

  Sizes and offsets are natural numbers: a buffer that does not fit a \<open>size_t\<close> cannot exist.
\<close>

section \<open>Private variables\<close>

text \<open>Which helper copies the variable, where it is saved, and its size in bytes.\<close>

datatype copy_kind = Align4 | Align2 | Bytes

record save_op =
  so_kind :: copy_kind
  so_offset :: nat
  so_var :: VarDecl
  so_size :: nat

definition var_size :: "VarDecl \<Rightarrow> nat" where
  "var_size VD = (vd_width VD + 7) div 8"

definition copy_kind_of :: "VarDecl \<Rightarrow> copy_kind" where
  "copy_kind_of VD = (if vd_align VD \<ge> 32 then Align4 else if vd_align VD \<ge> 16 then Align2 else Bytes)"

text \<open>Padding to a multiple of 4, \<open>(n + 3) & ~3\<close>.\<close>

definition pad_to_4 :: "nat \<Rightarrow> nat" where
  "pad_to_4 n = (n + 3) div 4 * 4"

fun SaveOps :: "VarDecl list \<Rightarrow> nat \<Rightarrow> (save_op list \<times> nat) outcome" where
  "SaveOps [] ReqPrv = Ok ([], ReqPrv)"
| "SaveOps (VD # L) ReqPrv =
     (case vd_space VD of
        opencl_private \<Rightarrow>
          bindO (SaveOps L (ReqPrv + var_size VD)) (\<lambda>(ops, n).
            Ok (\<lparr>so_kind = copy_kind_of VD, so_offset = ReqPrv, so_var = VD, so_size = var_size VD\<rparr> # ops, n))
      | opencl_global \<Rightarrow> SaveOps L ReqPrv
      | opencl_constant \<Rightarrow> SaveOps L ReqPrv
      | opencl_local \<Rightarrow> SaveOps L ReqPrv
      | other_space \<Rightarrow> Crash)"

fun MemcpyStore :: "copy_kind \<Rightarrow> string" where
  "MemcpyStore Align4 = ''__clpkm_store_private_align_4''"
| "MemcpyStore Align2 = ''__clpkm_store_private_align_2''"
| "MemcpyStore Bytes = ''__clpkm_store_private''"

fun MemcpyLoad :: "copy_kind \<Rightarrow> string" where
  "MemcpyLoad Align4 = ''__clpkm_load_private_align_4''"
| "MemcpyLoad Align2 = ''__clpkm_load_private_align_2''"
| "MemcpyLoad Bytes = ''__clpkm_load_private''"

definition copy_args :: "save_op \<Rightarrow> string" where
  "copy_args so = ''(__clpkm_prv+'' @ dec (so_offset so) @ '', &'' @ vd_name (so_var so) @ '', '' @ dec (so_size so) @ ''); ''"

text \<open>The code to store and to load, and the profile with the largest request so far.\<close>

definition GenerateCovfefe :: "VarDecl list \<Rightarrow> KernelProfile \<Rightarrow> ((string \<times> string) \<times> KernelProfile) outcome" where
  "GenerateCovfefe L KP =
     bindO (SaveOps L 0) (\<lambda>(ops, n).
       Ok ((concat (map (\<lambda>so. MemcpyStore (so_kind so) @ copy_args so) ops),
            concat (map (\<lambda>so. MemcpyLoad (so_kind so) @ copy_args so) ops)),
           KP\<lparr>ReqPrvSize := max (ReqPrvSize KP) (pad_to_4 n)\<rparr>))"

section \<open>Running the generated code\<close>

text \<open>
  \<open>prv\<close> is the private memory of the work-item, \<open>adr\<close> the address of each variable in it, \<open>glb\<close>
  global memory, \<open>base\<close> the value of \<open>__clpkm_prv\<close>.
\<close>

fun run_store_op :: "copy_kind \<Rightarrow> nat \<Rightarrow> nat \<Rightarrow> nat \<Rightarrow> mem \<Rightarrow> mem \<Rightarrow> mem outcome" where
  "run_store_op Align4 lvb src n glb prv = store_private_align_4 lvb src n glb prv"
| "run_store_op Align2 lvb src n glb prv = store_private_align_2 lvb src n glb prv"
| "run_store_op Bytes lvb src n glb prv = store_private lvb src n glb prv"

fun run_load_op :: "copy_kind \<Rightarrow> nat \<Rightarrow> nat \<Rightarrow> nat \<Rightarrow> mem \<Rightarrow> mem \<Rightarrow> mem outcome" where
  "run_load_op Align4 lvb dst n glb prv = load_private_align_4 lvb dst n glb prv"
| "run_load_op Align2 lvb dst n glb prv = load_private_align_2 lvb dst n glb prv"
| "run_load_op Bytes lvb dst n glb prv = load_private lvb dst n glb prv"

fun run_stores :: "(VarDecl \<Rightarrow> nat) \<Rightarrow> nat \<Rightarrow> save_op list \<Rightarrow> mem \<Rightarrow> mem \<Rightarrow> mem outcome" where
  "run_stores adr base [] prv glb = Ok glb"
| "run_stores adr base (so # ops) prv glb =
     bindO (run_store_op (so_kind so) (base + so_offset so) (adr (so_var so)) (so_size so) glb prv)
       (run_stores adr base ops prv)"

fun run_loads :: "(VarDecl \<Rightarrow> nat) \<Rightarrow> nat \<Rightarrow> save_op list \<Rightarrow> mem \<Rightarrow> mem \<Rightarrow> mem outcome" where
  "run_loads adr base [] glb prv = Ok prv"
| "run_loads adr base (so # ops) glb prv =
     bindO (run_load_op (so_kind so) (base + so_offset so) (adr (so_var so)) (so_size so) glb prv)
       (run_loads adr base ops glb)"

section \<open>The layout\<close>

text \<open>
  What \<open>toolkit.cl\<close> assumes of types (\<open>sizeof\<close> counts the padding that the alignment needs),
  and that the device places variables accordingly.
\<close>

definition placed :: "(VarDecl \<Rightarrow> nat) \<Rightarrow> VarDecl \<Rightarrow> bool" where
  "placed adr VD \<longleftrightarrow> (32 \<le> vd_align VD \<longrightarrow> 4 dvd var_size VD \<and> 4 dvd adr VD) \<and>
     (16 \<le> vd_align VD \<longrightarrow> 2 dvd var_size VD \<and> 2 dvd adr VD)"

fun unit_of :: "copy_kind \<Rightarrow> nat" where
  "unit_of Align4 = 4" | "unit_of Align2 = 2" | "unit_of Bytes = 1"

lemma run_ops_units:
  "run_store_op k lvb src n glb prv = copy_units (unit_of k) lvb src n glb prv"
  "run_load_op k lvb src n glb prv = copy_units (unit_of k) src lvb n prv glb"
  by (cases k; simp add: private_copies)+

lemma unit_pos [simp]: "0 < unit_of k"
  by (cases k) simp_all

interpretation save: save_area run_store_op run_load_op unit_of
proof
  show "unit_of k dvd 4" for k by (cases k) simp_all
qed (simp_all add: run_ops_units copy_units_block)

abbreviation private_vars :: "VarDecl list \<Rightarrow> VarDecl list" where
  "private_vars L \<equiv> filter (\<lambda>V. vd_space V = opencl_private) L"

definition op_ok :: "(VarDecl \<Rightarrow> nat) \<Rightarrow> save_op \<Rightarrow> bool" where
  "op_ok adr so \<longleftrightarrow> unit_of (so_kind so) dvd so_offset so \<and> unit_of (so_kind so) dvd so_size so \<and>
     unit_of (so_kind so) dvd adr (so_var so) \<and> so_size so = var_size (so_var so)"

text \<open>Consecutive pieces from \<open>lo\<close> to \<open>hi\<close>.\<close>

fun packed :: "nat \<Rightarrow> (nat \<times> nat) list \<Rightarrow> nat \<Rightarrow> bool" where
  "packed lo [] hi \<longleftrightarrow> lo = hi"
| "packed lo ((off, n) # ps) hi \<longleftrightarrow> off = lo \<and> packed (lo + n) ps hi"

lemma packed_le: "packed lo ps hi \<Longrightarrow> lo \<le> hi"
  by (induction lo ps hi rule: packed.induct) auto

lemma packed_bounds: "packed lo ps hi \<Longrightarrow> (off, n) \<in> set ps \<Longrightarrow> lo \<le> off \<and> off + n \<le> hi"
proof (induction lo ps hi rule: packed.induct)
  case (2 lo off' n' ps hi)
  have "lo + n' \<le> hi" using 2(2) by (auto dest: packed_le)
  then show ?case using 2 by auto
qed simp

abbreviation pieces :: "save_op list \<Rightarrow> (nat \<times> nat) list" where
  "pieces ops \<equiv> map (\<lambda>so. (so_offset so, so_size so)) ops"

lemma SaveOps_layout:
  assumes "SaveOps L n = Ok (ops, m)"
  shows "packed n (pieces ops) m \<and> map so_var ops = private_vars L \<and>
     (\<forall>so \<in> set ops. so_size so = var_size (so_var so) \<and> so_kind so = copy_kind_of (so_var so))"
  using assms
  by (induction L n arbitrary: ops m rule: SaveOps.induct) (auto split: LangAS.splits prod.splits)

text \<open>Coarsest alignment first makes every offset suitable for the copy that uses it.\<close>

lemma SaveOps_aligned:
  assumes "SaveOps L n = Ok (ops, m)" and "sorted_wrt (\<lambda>a b. vd_align b \<le> vd_align a) L"
    and "\<forall>V \<in> set L. placed adr V"
    and "\<forall>V \<in> set (private_vars L). unit_of (copy_kind_of V) dvd n"
  shows "\<forall>so \<in> set ops. op_ok adr so"
  using assms
proof (induction L n arbitrary: ops m rule: SaveOps.induct)
  case (2 VD L n)
  show ?case
  proof (cases "vd_space VD")
    case opencl_private
    then obtain ops' where ops: "SaveOps L (n + var_size VD) = Ok (ops', m)"
      "ops = \<lparr>so_kind = copy_kind_of VD, so_offset = n, so_var = VD, so_size = var_size VD\<rparr> # ops'"
      using "2.prems"(1) by (auto split: prod.splits)
    have "unit_of (copy_kind_of V) dvd n + var_size VD" if "V \<in> set (private_vars L)" for V
    proof -
      have "vd_align V \<le> vd_align VD" "placed adr VD" using "2.prems"(2,3) that by auto
      then have "unit_of (copy_kind_of V) dvd var_size VD" by (auto simp: placed_def copy_kind_of_def)
      with "2.prems"(4) opencl_private that show ?thesis by simp
    qed
    then have "\<forall>so \<in> set ops'. op_ok adr so"
      using "2.IH"(1) [OF opencl_private ops(1)] "2.prems"(2,3) by simp
    moreover have "placed adr VD" "unit_of (copy_kind_of VD) dvd n" using "2.prems"(3,4) opencl_private by auto
    ultimately show ?thesis
      by (auto simp: ops(2) op_ok_def placed_def copy_kind_of_def)
  qed (use 2 in auto)
qed simp

section \<open>Saving and restoring\<close>

definition put :: "(VarDecl \<Rightarrow> nat) \<Rightarrow> nat \<Rightarrow> save_op list \<Rightarrow> mem \<Rightarrow> mem \<Rightarrow> mem" where
  "put adr base ops prv glb = fold (\<lambda>so D. block (so_size so) (base + so_offset so) (adr (so_var so)) D prv) ops glb"

definition fetch :: "(VarDecl \<Rightarrow> nat) \<Rightarrow> nat \<Rightarrow> save_op list \<Rightarrow> mem \<Rightarrow> mem \<Rightarrow> mem" where
  "fetch adr base ops glb prv = fold (\<lambda>so D. block (so_size so) (adr (so_var so)) (base + so_offset so) D glb) ops prv"

lemma op_ok_copy:
  assumes "op_ok adr so" and "4 dvd base"
  shows "run_store_op (so_kind so) (base + so_offset so) (adr (so_var so)) (so_size so) glb prv =
      Ok (block (so_size so) (base + so_offset so) (adr (so_var so)) glb prv)"
    and "run_load_op (so_kind so) (base + so_offset so) (adr (so_var so)) (so_size so) glb prv =
      Ok (block (so_size so) (adr (so_var so)) (base + so_offset so) prv glb)"
  using assms by (auto simp: op_ok_def intro!: save.store_at save.load_at)

lemma run_stores_put:
  assumes "\<forall>so \<in> set ops. op_ok adr so" and "4 dvd base"
  shows "run_stores adr base ops prv glb = Ok (put adr base ops prv glb)"
  using assms by (induction ops arbitrary: glb) (simp_all add: put_def op_ok_copy)

lemma run_loads_fetch:
  assumes "\<forall>so \<in> set ops. op_ok adr so" and "4 dvd base"
  shows "run_loads adr base ops glb prv = Ok (fetch adr base ops glb prv)"
  using assms by (induction ops arbitrary: prv) (simp_all add: fetch_def op_ok_copy)

lemma put_outside:
  assumes "packed n (pieces ops) m" and "a < base + n \<or> base + m \<le> a"
  shows "put adr base ops prv glb a = glb a"
  using assms
proof (induction ops arbitrary: n glb)
  case (Cons so ops)
  have "n + so_size so \<le> m" using Cons.prems(1) by (auto dest: packed_le)
  then show ?case
    using Cons.IH [of "n + so_size so" "block (so_size so) (base + n) (adr (so_var so)) glb prv"] Cons.prems
    by (auto simp: put_def block_def)
qed (simp add: put_def)

lemma put_at:
  assumes "packed n (pieces ops) m" and "so \<in> set ops" and "i < so_size so"
  shows "put adr base ops prv glb (base + so_offset so + i) = prv (adr (so_var so) + i)"
  using assms
proof (induction ops arbitrary: n glb)
  case (Cons so' ops)
  let ?glb = "block (so_size so') (base + so_offset so') (adr (so_var so')) glb prv"
  have put: "put adr base (so' # ops) prv glb = put adr base ops prv ?glb" by (simp add: put_def)
  have rest: "packed (n + so_size so') (pieces ops) m" "so_offset so' = n" using Cons.prems(1) by auto
  show ?case
  proof (cases "so \<in> set ops")
    case True
    then show ?thesis using Cons.IH [OF rest(1) True Cons.prems(3)] put by simp
  next
    case False
    then have "so = so'" using Cons.prems(2) by simp
    then have "put adr base ops prv ?glb (base + so_offset so + i) = ?glb (base + so_offset so + i)"
      using put_outside [OF rest(1)] rest(2) Cons.prems(3) by simp
    then show ?thesis using \<open>so = so'\<close> put Cons.prems(3) by (simp add: block_def)
  qed
qed simp

text \<open>Variables occupy disjoint ranges of private memory.\<close>

definition range_of :: "(VarDecl \<Rightarrow> nat) \<Rightarrow> VarDecl \<Rightarrow> nat set" where
  "range_of adr V = {adr V ..< adr V + var_size V}"

definition apart :: "(VarDecl \<Rightarrow> nat) \<Rightarrow> VarDecl list \<Rightarrow> bool" where
  "apart adr Vs \<longleftrightarrow> sorted_wrt (\<lambda>V W. range_of adr V \<inter> range_of adr W = {}) Vs"

lemma fetch_outside:
  assumes "\<forall>so \<in> set ops. so_size so = var_size (so_var so)" and "\<forall>V \<in> set (map so_var ops). a \<notin> range_of adr V"
  shows "fetch adr base ops glb prv a = prv a"
  using assms
  by (induction ops arbitrary: prv) (auto simp: fetch_def block_def range_of_def)

lemma fetch_at:
  assumes "\<forall>so \<in> set ops. so_size so = var_size (so_var so)" and "apart adr (map so_var ops)"
    and "so \<in> set ops" and "i < so_size so"
  shows "fetch adr base ops glb prv (adr (so_var so) + i) = glb (base + so_offset so + i)"
  using assms
proof (induction ops arbitrary: prv)
  case (Cons so' ops)
  let ?prv = "block (so_size so') (adr (so_var so')) (base + so_offset so') prv glb"
  have fetch: "fetch adr base (so' # ops) glb prv = fetch adr base ops glb ?prv" by (simp add: fetch_def)
  show ?case
  proof (cases "so \<in> set ops")
    case True
    then show ?thesis using Cons fetch by (simp add: apart_def)
  next
    case False
    then have so: "so = so'" using Cons.prems(3) by simp
    have "adr (so_var so) + i \<in> range_of adr (so_var so')"
      using Cons.prems(1,4) so by (simp add: range_of_def)
    then have "fetch adr base ops glb ?prv (adr (so_var so) + i) = ?prv (adr (so_var so) + i)"
      using Cons.prems(1,2) by (intro fetch_outside) (auto simp: apart_def)
    then show ?thesis using so fetch Cons.prems(4) by (simp add: block_def)
  qed
qed simp

lemma pad_to_4_bounds: "n \<le> pad_to_4 n" "pad_to_4 n < n + 4" "4 dvd pad_to_4 n"
  by (simp_all add: pad_to_4_def)

section \<open>Local variables\<close>

text \<open>
  A declaration statement: its text and the variables it declares. Of the kernel, the names of
  the parameters matter.
\<close>

type_synonym DeclStmt = "string \<times> VarDecl list"

text \<open>The statically sized variables, each padded to a multiple of 4.\<close>

fun LocalPieces :: "VarDecl list \<Rightarrow> nat \<Rightarrow> (VarDecl \<times> nat) list \<times> nat" where
  "LocalPieces [] off = ([], off)"
| "LocalPieces (VD # Vs) off =
     (case LocalPieces Vs (off + pad_to_4 (var_size VD)) of (ps, n) \<Rightarrow> ((VD, off) # ps, n))"

definition store_local_text :: "string \<Rightarrow> string \<Rightarrow> string \<Rightarrow> string" where
  "store_local_text gbl loc sz =
     ''__clpkm_store_local('' @ gbl @ '', '' @ loc @ '', '' @ sz @ '', __clpkm_exit_id, __clpkm_batch_sz); ''"

definition load_local_text :: "string \<Rightarrow> string \<Rightarrow> string \<Rightarrow> string" where
  "load_local_text gbl loc sz =
     ''__clpkm_cp_ev = async_work_group_copy('' @ loc @ '', '' @ gbl @ '', '' @ sz @ '', __clpkm_cp_ev); ''"

definition static_args :: "VarDecl \<times> nat \<Rightarrow> string \<times> string \<times> string" where
  "static_args p = (''__clpkm_local + '' @ dec (snd p), ''(__local char*)&'' @ vd_name (fst p), dec (var_size (fst p)))"

definition dynamic_args :: "string list \<Rightarrow> nat \<Rightarrow> nat \<Rightarrow> string \<times> string \<times> string" where
  "dynamic_args params IdxAcc ParamIdx =
     (''__clpkm_local + __clpkm_dloc_offset'', ''(__local char*)'' @ (params ! ParamIdx),
      ''__clpkm_dloc_sz_tbl['' @ dec IdxAcc @ '']'')"

definition apply3 :: "(string \<Rightarrow> string \<Rightarrow> string \<Rightarrow> string) \<Rightarrow> string \<times> string \<times> string \<Rightarrow> string" where
  "apply3 f t = f (fst t) (fst (snd t)) (snd (snd t))"

definition dynamic_text :: "(string \<Rightarrow> string \<Rightarrow> string \<Rightarrow> string) \<Rightarrow> string list \<Rightarrow> nat list \<Rightarrow> string" where
  "dynamic_text f params idxs = concat (map (\<lambda>(k, i).
     apply3 f (dynamic_args params k i) @ ''__clpkm_dloc_offset += __clpkm_dloc_sz_tbl['' @ dec k @ '']; '')
       (enumerate 0 idxs))"

definition GenerateLocfefe ::
  "DeclStmt list \<Rightarrow> string list \<Rightarrow> KernelProfile \<Rightarrow> (string \<times> string) \<times> KernelProfile" where
  "GenerateLocfefe LocDecl params KP =
     (let Vs = concat (map snd LocDecl);
          (ps, ReqLoc) = LocalPieces Vs 0;
          Decl = concat (map fst LocDecl);
          KP' = KP\<lparr>ReqLocSize := ReqLocSize KP + ReqLoc\<rparr>;
          offset = ''size_t __clpkm_dloc_offset = '' @ dec ReqLoc @ ''; ''
      in if length Vs + length (LocPtrParamIdx KP) = 0 then (([], []), KP')
         else (('' uint __clpkm_batch_sz = __clpkm_final_stop; '' @
                '' barrier(CLK_LOCAL_MEM_FENCE);'' @
                '' uint __clpkm_exit_id = atomic_dec(&__clpkm_final_stop) - 1;'' @
                '' barrier(CLK_LOCAL_MEM_FENCE);'' @
                '' if (__clpkm_final_stop != 0)'' @
                ''   return;'' @
                concat (map (apply3 store_local_text \<circ> static_args) ps) @ offset @
                dynamic_text store_local_text params (LocPtrParamIdx KP),
                Decl @
                '' if (__clpkm_hdr[__clpkm_id] != 1) { '' @
                ''   event_t __clpkm_cp_ev = 0; '' @
                concat (map (apply3 load_local_text \<circ> static_args) ps) @ offset @
                dynamic_text load_local_text params (LocPtrParamIdx KP) @
                ''   wait_group_events(1, &__clpkm_cp_ev); '' @
                ''   } ''), KP'))"

text \<open>
  Where the pieces of a work-group lie: the static ones at their offsets, then the dynamic
  ones one behind the other, by the sizes in the table.
\<close>

fun stack :: "nat \<Rightarrow> nat list \<Rightarrow> (nat \<times> nat) list" where
  "stack off [] = []"
| "stack off (n # ns) = (off, n) # stack (off + n) ns"

definition local_area :: "DeclStmt list \<Rightarrow> nat list \<Rightarrow> (nat \<times> nat) list" where
  "local_area LocDecl dyn =
     (case LocalPieces (concat (map snd LocDecl)) 0 of (ps, n) \<Rightarrow>
        map (\<lambda>(VD, off). (off, var_size VD)) ps @ stack n dyn)"

text \<open>Pieces in order, none overlapping the next, between \<open>lo\<close> and \<open>hi\<close>.\<close>

fun spaced :: "nat \<Rightarrow> (nat \<times> nat) list \<Rightarrow> nat \<Rightarrow> bool" where
  "spaced lo [] hi \<longleftrightarrow> lo \<le> hi"
| "spaced lo ((off, n) # ps) hi \<longleftrightarrow> lo \<le> off \<and> 4 dvd off \<and> spaced (off + n) ps hi"

lemma spaced_mono: "spaced lo ps hi \<Longrightarrow> lo' \<le> lo \<Longrightarrow> spaced lo' ps hi"
  by (cases ps) auto

lemma spaced_append: "spaced lo ps mid \<Longrightarrow> spaced mid qs hi \<Longrightarrow> spaced lo (ps @ qs) hi"
  by (induction lo ps mid rule: spaced.induct) (auto intro: spaced_mono)

lemma spaced_stack: "4 dvd off \<Longrightarrow> \<forall>n \<in> set ns. 4 dvd n \<Longrightarrow> spaced off (stack off ns) (off + sum_list ns)"
  by (induction off ns rule: stack.induct) (auto simp: add.assoc)

lemma spaced_le: "spaced lo ps hi \<Longrightarrow> lo \<le> hi"
  by (induction lo ps hi rule: spaced.induct) auto

lemma spaced_bounds: "spaced lo ps hi \<Longrightarrow> p \<in> set ps \<Longrightarrow> lo \<le> fst p \<and> fst p + snd p \<le> hi \<and> 4 dvd fst p"
proof (induction lo ps hi rule: spaced.induct)
  case (2 lo off n ps hi)
  have "off + n \<le> hi" using 2(2) by (auto dest: spaced_le)
  then show ?case using 2 by auto
qed simp

lemma spaced_disjoint:
  "spaced lo ps hi \<Longrightarrow> i < j \<Longrightarrow> j < length ps \<Longrightarrow> fst (ps ! i) + snd (ps ! i) \<le> fst (ps ! j)"
proof (induction ps arbitrary: lo i j)
  case (Cons p ps)
  show ?case
  proof (cases i)
    case 0
    obtain k where k: "j = Suc k" "k < length ps" using Cons.prems(2,3) by (cases j) auto
    have "spaced (fst p + snd p) ps hi" using Cons.prems(1) by (cases p) auto
    from spaced_bounds [OF this, of "ps ! k"] show ?thesis using 0 k by simp
  next
    case (Suc i')
    obtain k where k: "j = Suc k" "k < length ps" "i' < k" using Cons.prems(2,3) Suc by (cases j) auto
    have "spaced (fst p + snd p) ps hi" using Cons.prems(1) by (cases p) auto
    from Cons.IH [OF this k(3,2)] show ?thesis by (simp add: Suc k(1))
  qed
qed simp

lemma LocalPieces_spaced:
  "LocalPieces Vs off = (ps, n) \<Longrightarrow> 4 dvd off \<Longrightarrow> 4 dvd n \<and> spaced off (map (\<lambda>(VD, o'). (o', var_size VD)) ps) n"
proof (induction Vs off arbitrary: ps rule: LocalPieces.induct)
  case (2 VD Vs off)
  obtain ps' where ps: "LocalPieces Vs (off + pad_to_4 (var_size VD)) = (ps', n)" "ps = (VD, off) # ps'"
    using 2(2) by (auto split: prod.splits)
  have "4 dvd n \<and> spaced (off + pad_to_4 (var_size VD)) (map (\<lambda>(VD, o'). (o', var_size VD)) ps') n"
    using 2(1) [OF ps(1)] 2(3) pad_to_4_bounds(3) by simp
  then show ?case
    using pad_to_4_bounds(1) [of "var_size VD"] 2(3) by (auto simp: ps(2) intro: spaced_mono)
qed simp

section \<open>Properties\<close>

lemma GenerateCovfefe_profile:
  assumes "GenerateCovfefe L KP = Ok (C, KP')" and "SaveOps L 0 = Ok (ops, n)"
  shows "KP' = KP\<lparr>ReqPrvSize := max (ReqPrvSize KP) (pad_to_4 n)\<rparr>"
  using assms by (simp add: GenerateCovfefe_def)





end
