(* ===== verification/Instrument.thy ===== *)
theory Instrument
  imports Covfefe
begin

text \<open>
  The instrumenting compiler, \<open>cc/Instrumentor.cpp\<close>: a traversal of the syntax tree of a
  kernel that inserts a checkpoint at every barrier and at the end of every loop body, and
  wraps the kernel in the code that saves and resumes a work-item.

  Clang owns the tree, its traversal and the rewriter. A tree is what
  \<open>RecursiveASTVisitor\<close> shows to the visitor: a node is visited, \<open>VisitStmt\<close> first, then its
  children in order, and a visitor that answers false ends the traversal. The rewriter is
  the list of the edits requested; what it currently reads at a place is the parameter
  \<open>Rewritten\<close>. Statements are named by numbers.
\<close>

section \<open>Syntax trees\<close>

text \<open>A loop condition: absent, not a constant, or a constant.\<close>

datatype loop_cond = NoCond | NotConstant | Constant bool

text \<open>
  A loop has its condition, its body's name and whether the body is a compound statement; a
  call the name of the function if it is called directly; a variable declaration the text of
  its desugared, unqualified type and its initializer.
\<close>

datatype ast =
    Compound nat "ast list"
  | Loop nat loop_cond nat bool "ast list"
  | Switch nat "ast list"
  | Return nat "ast list"
  | Call nat "string option" "ast list"
  | DeclSt nat "ast list"
  | VarD VarDecl string "ast list"
  | Other nat "ast list"

section \<open>Edits\<close>

text \<open>The code inserted at a checkpoint keeps its parts; \<open>render\<close> gives its text.\<close>

datatype code =
    Text string
  | BarrierCode nat nat string string string
  | LoopCode nat nat string string
  | Braced code

datatype place = Range nat | StartOf nat | EndOf nat | StmtEndOf nat

datatype edit =
    ReplaceText place code
  | RemoveText place
  | InsertTextBefore place code
  | InsertTextAfterToken place code

definition nl :: string where "nl = [char_of (10 :: nat)]"

definition barrier_stop :: "nat \<Rightarrow> string" where
  "barrier_stop idx = ''__clpkm_barrier_stop['' @ dec idx @ '']''"

fun render :: "code \<Rightarrow> string" where
  "render (Text s) = s"
| "render (BarrierCode idx nonce orig sv ld) =
     '' do {'' @ nl @
     ''   atomic_dec(&'' @ barrier_stop idx @ '');'' @ nl @
     ''   barrier(CLK_LOCAL_MEM_FENCE);'' @ nl @
     ''   uint __remain_count = '' @ barrier_stop idx @ '';'' @ nl @
     ''   barrier(CLK_LOCAL_MEM_FENCE);'' @ nl @
     ''   atomic_inc(&'' @ barrier_stop idx @ '');'' @ nl @
     ''   if (__remain_count != 0) { '' @ nl @
     ''     __clpkm_hdr[__clpkm_id] = -'' @ dec nonce @ '';'' @ nl @
     sv @
     ''     goto __CLPKM_SV_LOC_AND_RET;'' @
     ''   }'' @ nl @
     ''   '' @ orig @ '';'' @ nl @
     ''   if (0) case '' @ dec nonce @ '': {'' @ nl @
     ld @
     ''   }'' @ nl @
     '' } while (0)''"
| "render (LoopCode cost nonce sv ld) =
     '' __clpkm_update_ctr(&__clpkm_ctr, '' @ dec cost @ '');'' @
     '' if (__clpkm_should_chkpnt(__clpkm_ctr, __clpkm_tlv)) {'' @
     '' __clpkm_hdr[__clpkm_id] = '' @ dec nonce @ ''; '' @
     sv @ '' goto __CLPKM_SV_LOC_AND_RET;'' @
     '' } if (0) case '' @ dec nonce @ '': {'' @
     ld @ '' } ''"
| "render (Braced c) = render c @ '' } ''"

section \<open>The state of the instrumentor\<close>

datatype diag = Warning string | Error string

record inst =
  CostCounter :: nat
  Nonce :: nat
  BarrierIdx :: nat
  LVT :: LiveVarTracker
  ThePL :: "KernelProfile list"
  Edits :: "edit list"
  Diags :: "diag list"

type_synonym rewriter = "edit list \<Rightarrow> place \<Rightarrow> string"

definition add_edit :: "edit \<Rightarrow> inst \<Rightarrow> inst" where
  "add_edit e s = s\<lparr>Edits := Edits s @ [e]\<rparr>"

definition DiagReport :: "diag \<Rightarrow> inst \<Rightarrow> inst" where
  "DiagReport d s = s\<lparr>Diags := Diags s @ [d]\<rparr>"

text \<open>\<open>GenerateCovfefe(LVT.GenLivenessAfter(S), ThePL.back())\<close>; \<open>back\<close> of an empty list is undefined.\<close>

definition Checkpoint :: "nat \<Rightarrow> inst \<Rightarrow> ((string \<times> string) \<times> inst) outcome" where
  "Checkpoint i s =
     bindO (GenLivenessAfter (LVT s) (Some i)) (\<lambda>L.
     if ThePL s = [] then Crash
     else bindO (GenerateCovfefe L (last (ThePL s))) (\<lambda>(C, KP).
       Ok (C, s\<lparr>ThePL := butlast (ThePL s) @ [KP]\<rparr>)))"

section \<open>The visitors\<close>

definition VisitStmt :: "inst \<Rightarrow> inst" where
  "VisitStmt s = s\<lparr>CostCounter := CostCounter s + 1\<rparr>"

definition VisitSwitchStmt :: "inst \<Rightarrow> bool \<times> inst" where
  "VisitSwitchStmt s = (False, DiagReport (Error ''switch is not supported'') s)"

definition VisitReturnStmt :: "nat \<Rightarrow> inst \<Rightarrow> inst" where
  "VisitReturnStmt i s = add_edit (ReplaceText (Range i) (Text
     ('' do { __clpkm_hdr[__clpkm_id] = 0;'' @ '' goto __CLPKM_SV_LOC_AND_RET; } while(0)''))) s"

text \<open>The first declaration decides; it goes if it is in local memory.\<close>

fun first_local :: "ast list \<Rightarrow> bool" where
  "first_local (VarD VD ty init # ds) \<longleftrightarrow> vd_space VD = opencl_local"
| "first_local _ \<longleftrightarrow> False"

definition VisitDeclStmt :: "nat \<Rightarrow> ast list \<Rightarrow> inst \<Rightarrow> inst" where
  "VisitDeclStmt i ds s = (if first_local ds then add_edit (RemoveText (Range i)) s else s)"

definition IgnoreTypeSet :: "string list" where
  "IgnoreTypeSet = [''sampler_t'', ''image1d_t'', ''image1d_buffer_t'', ''image1d_array_t'',
     ''image2d_t'', ''image2d_array_t'', ''image3d_t'']"

text \<open>What follows the last space, if there is one: \<open>TypeStr.erase(0, rfind(' ') + 1)\<close>.\<close>

definition after_last_space :: "string \<Rightarrow> string" where
  "after_last_space ty = rev (takeWhile (\<lambda>c. c \<noteq> CHR '' '') (rev ty))"

definition ignored_type :: "string \<Rightarrow> bool" where
  "ignored_type ty \<longleftrightarrow> ty \<in> set IgnoreTypeSet \<or> (CHR '' '' \<in> set ty \<and> after_last_space ty \<in> set IgnoreTypeSet)"

definition VisitVarDecl :: "VarDecl \<Rightarrow> string \<Rightarrow> inst \<Rightarrow> inst" where
  "VisitVarDecl VD ty s = (if ignored_type ty then s else s\<lparr>LVT := fst (AddTrack VD (LVT s))\<rparr>)"

text \<open>
  The argument of the barrier gets the local fence: from the last closing parenthesis on, the
  text is replaced. There must be one.
\<close>

definition PatchFence :: "string \<Rightarrow> string outcome" where
  "PatchFence orig =
     (if CHR '')'' \<in> set orig
      then Ok (rev (tl (dropWhile (\<lambda>c. c \<noteq> CHR '')'') (rev orig))) @ '' | CLK_LOCAL_MEM_FENCE)'')
      else Crash)"

definition VisitCallExpr :: "rewriter \<Rightarrow> nat \<Rightarrow> string option \<Rightarrow> inst \<Rightarrow> inst outcome" where
  "VisitCallExpr Rewritten i callee s =
     (if callee \<noteq> Some ''barrier'' then Ok s
      else bindO (PatchFence (Rewritten (Edits s) (Range i))) (\<lambda>OrigBarrier.
           let idx = BarrierIdx s; s1 = s\<lparr>BarrierIdx := idx + 1\<rparr> in
           bindO (Checkpoint i s1) (\<lambda>(C, s2).
           let s3 = s2\<lparr>Nonce := Nonce s2 + 1\<rparr> in
           Ok (add_edit (ReplaceText (Range i) (BarrierCode idx (Nonce s3) OrigBarrier (fst C) (snd C))) s3))))"

definition PatchLoopBody :: "nat \<Rightarrow> nat \<Rightarrow> loop_cond \<Rightarrow> nat \<Rightarrow> bool \<Rightarrow> inst \<Rightarrow> inst outcome" where
  "PatchLoopBody OldCost NewCost cond body compound s =
     (let s0 = s\<lparr>CostCounter := OldCost\<rparr> in
      if cond = Constant False then Ok s0
      else
        let s1 = (if cond = Constant True then DiagReport (Warning ''infinite loop'') s0 else s0) in
        bindO (Checkpoint body s1) (\<lambda>(C, s2).
        let s3 = s2\<lparr>Nonce := Nonce s2 + 1\<rparr>;
            InstCR = LoopCode (NewCost - OldCost) (Nonce s3) (fst C) (snd C) in
        Ok (if compound then add_edit (InsertTextBefore (EndOf body) InstCR) s3
            else add_edit (InsertTextAfterToken (StmtEndOf body) (Braced InstCR))
                   (add_edit (InsertTextBefore (StartOf body) (Text '' { '')) s3))))"

section \<open>The traversal\<close>

fun traverse :: "rewriter \<Rightarrow> ast \<Rightarrow> inst \<Rightarrow> (bool \<times> inst) outcome"
  and traverse_all :: "rewriter \<Rightarrow> ast list \<Rightarrow> inst \<Rightarrow> (bool \<times> inst) outcome" where
  "traverse R (Compound i xs) s =
     bindO (traverse_all R xs (VisitStmt (s\<lparr>LVT := NewScope (LVT s)\<rparr>))) (\<lambda>(Ret, s').
       Ok (Ret, s'\<lparr>LVT := PopScope (LVT s')\<rparr>))"
| "traverse R (Loop i cond body compound xs) s =
     bindO (traverse_all R xs (VisitStmt s)) (\<lambda>(_, s').
       bindO (PatchLoopBody (CostCounter s) (CostCounter s') cond body compound s') (\<lambda>s''. Ok (True, s'')))"
| "traverse R (Switch i xs) s = Ok (VisitSwitchStmt (VisitStmt s))"
| "traverse R (Return i xs) s = traverse_all R xs (VisitReturnStmt i (VisitStmt s))"
| "traverse R (Call i callee xs) s = bindO (VisitCallExpr R i callee (VisitStmt s)) (traverse_all R xs)"
| "traverse R (DeclSt i ds) s = traverse_all R ds (VisitDeclStmt i ds (VisitStmt s))"
| "traverse R (VarD VD ty init) s = traverse_all R init (VisitVarDecl VD ty s)"
| "traverse R (Other i xs) s = traverse_all R xs (VisitStmt s)"
| "traverse_all R [] s = Ok (True, s)"
| "traverse_all R (x # xs) s =
     bindO (traverse R x s) (\<lambda>(ok, s'). if ok then traverse_all R xs s' else Ok (False, s'))"

text \<open>\<open>FuncInfoCollector\<close>: barriers and declarations in local memory, over the whole tree.\<close>

fun count_barriers :: "ast \<Rightarrow> nat" and count_barriers_all :: "ast list \<Rightarrow> nat" where
  "count_barriers (Compound i xs) = count_barriers_all xs"
| "count_barriers (Loop i cond body compound xs) = count_barriers_all xs"
| "count_barriers (Switch i xs) = count_barriers_all xs"
| "count_barriers (Return i xs) = count_barriers_all xs"
| "count_barriers (Call i callee xs) = (if callee = Some ''barrier'' then 1 else 0) + count_barriers_all xs"
| "count_barriers (DeclSt i ds) = count_barriers_all ds"
| "count_barriers (VarD VD ty init) = count_barriers_all init"
| "count_barriers (Other i xs) = count_barriers_all xs"
| "count_barriers_all [] = 0"
| "count_barriers_all (x # xs) = count_barriers x + count_barriers_all xs"

fun declared :: "ast list \<Rightarrow> VarDecl list" where
  "declared [] = []"
| "declared (VarD VD ty init # ds) = VD # declared ds"
| "declared (_ # ds) = declared ds"

fun local_decls :: "ast \<Rightarrow> (nat \<times> VarDecl list) list" and local_decls_all :: "ast list \<Rightarrow> (nat \<times> VarDecl list) list" where
  "local_decls (Compound i xs) = local_decls_all xs"
| "local_decls (Loop i cond body compound xs) = local_decls_all xs"
| "local_decls (Switch i xs) = local_decls_all xs"
| "local_decls (Return i xs) = local_decls_all xs"
| "local_decls (Call i callee xs) = local_decls_all xs"
| "local_decls (DeclSt i ds) = (if first_local ds then [(i, declared ds)] else []) @ local_decls_all ds"
| "local_decls (VarD VD ty init) = local_decls_all init"
| "local_decls (Other i xs) = local_decls_all xs"
| "local_decls_all [] = []"
| "local_decls_all (x # xs) = local_decls x @ local_decls_all xs"

section \<open>Kernels\<close>

record param =
  p_id :: nat
  p_var :: VarDecl
  p_type :: string
  p_local_ptr :: bool

text \<open>The body is a compound statement; its flow is what Clang's analyses say of the function.\<close>

record FunctionDecl =
  fd_id :: nat
  fd_name :: string
  fd_kernel :: bool
  fd_params :: "param list"
  fd_body :: "(nat \<times> ast list) option"
  fd_flow :: flow

definition CLPKMParam :: string where
  "CLPKMParam = '', __global int * restrict __clpkm_metadata, '' @
     ''__global char * restrict __clpkm_local, '' @
     ''__global char * restrict __clpkm_prv, '' @
     ''const uint __clpkm_tlv''"

definition LocalParamIdx :: "param list \<Rightarrow> nat list" where
  "LocalParamIdx ps = map fst (filter (p_local_ptr \<circ> snd) (enumerate 0 ps))"

definition DynSzLocBufSize :: "nat list \<Rightarrow> string" where
  "DynSzLocBufSize idxs = ''0'' @ concat (map (\<lambda>(k, i). '' + __clpkm_dloc_sz_tbl['' @ dec k @ '']'') (enumerate 0 idxs))"

definition InitBarrierStop :: "nat \<Rightarrow> string" where
  "InitBarrierStop BarrierCount =
     (if BarrierCount = 0 then []
      else ''  __local uint __clpkm_barrier_stop['' @ dec BarrierCount @ ''];'' @ nl @
           ''  for (size_t __idx = __clpkm_loc_id; '' @
           ''__idx < '' @ dec BarrierCount @ ''; '' @
           ''__idx += __clpkm_grp_size)'' @ nl @
           ''    __clpkm_barrier_stop[__idx] = __clpkm_grp_size;'' @ nl)"

definition InitFinalStop :: "string \<Rightarrow> string" where
  "InitFinalStop store =
     (if store = [] then []
      else ''  __local uint __clpkm_final_stop;'' @ nl @
           ''  if (__clpkm_loc_id == 0)'' @ nl @
           ''    __clpkm_final_stop = __clpkm_grp_size;'' @ nl)"

definition Prologue :: "FunctionDecl \<Rightarrow> nat list \<Rightarrow> nat \<Rightarrow> string \<times> string \<Rightarrow> string" where
  "Prologue FD idxs BarrierCount Locfefe =
     nl @ ''  __global const uint* __clpkm_dloc_sz_tbl = (__global uint*) __clpkm_metadata;'' @ nl @
     ''  __global int* __clpkm_hdr = __clpkm_metadata + '' @ dec (length idxs) @ '';'' @ nl @
     ''  uint __clpkm_ctr = 0; // cost counter'' @ nl @
     ''  __clpkm_init_cost_ctr(&__clpkm_ctr, __clpkm_tlv);'' @ nl @
     ''  size_t __clpkm_id = 0; // global work-item id '' @ nl @
     ''  size_t __clpkm_grp_id = 0; // work-group id '' @ nl @
     ''  size_t __clpkm_loc_id = 0; // local work-item id'' @ nl @
     ''  size_t __clpkm_grp_size = 0; // work-group size '' @ nl @
     ''  // Compute linear IDs and adjust live value buffer'' @ nl @
     ''  __get_linear_id(&__clpkm_id, &__clpkm_grp_id,'' @ nl @
     ''                  &__clpkm_loc_id, &__clpkm_grp_size);'' @ nl @
     ''  __clpkm_prv += __clpkm_id * '' @ ''__clpkm_req_prv_size_'' @ fd_name FD @ '';'' @ nl @
     ''  __clpkm_local += __clpkm_grp_id * ('' @ ''__clpkm_req_loc_size_'' @ fd_name FD @ '' + '' @
     DynSzLocBufSize idxs @ '');'' @ nl @
     ''  // Initialize barrier stop'' @ nl @
     InitBarrierStop BarrierCount @ InitFinalStop (fst Locfefe) @
     ''  // Load live values for variables locate in local memory'' @ nl @
     snd Locfefe @
     (if snd Locfefe \<noteq> [] \<or> InitBarrierStop BarrierCount \<noteq> [] then ''barrier(CLK_LOCAL_MEM_FENCE);'' else []) @
     ''  switch (__builtin_expect(__clpkm_hdr[__clpkm_id], 1)) {'' @ nl @
     ''  default: goto __CLPKM_SV_LOC_AND_RET;'' @ nl @
     ''  case 1: ;'' @ nl"

definition Epilogue :: "string \<times> string \<Rightarrow> string" where
  "Epilogue Locfefe =
     '' } // switch'' @ nl @
     '' __clpkm_hdr[__clpkm_id] = 0;'' @ nl @
     '' __CLPKM_SV_LOC_AND_RET: ;'' @ nl @ fst Locfefe"

definition ReqSizeDeclStr :: "FunctionDecl \<Rightarrow> KernelProfile \<Rightarrow> string" where
  "ReqSizeDeclStr FD KP =
     nl @ ''__constant size_t '' @ ''__clpkm_req_prv_size_'' @ fd_name FD @ '' = '' @ dec (ReqPrvSize KP) @ '';'' @
     nl @ ''__constant size_t '' @ ''__clpkm_req_loc_size_'' @ fd_name FD @ '' = '' @ dec (ReqLocSize KP) @ '';''"

definition param_ast :: "param \<Rightarrow> ast" where
  "param_ast p = VarD (p_var p) (p_type p) []"

text \<open>The declarations in local memory, with their current text.\<close>

definition CollectLocal :: "rewriter \<Rightarrow> edit list \<Rightarrow> ast list \<Rightarrow> DeclStmt list" where
  "CollectLocal R es xs = map (\<lambda>(i, Vs). (R es (Range i), Vs)) (local_decls_all xs)"

definition TraverseFunctionDecl :: "rewriter \<Rightarrow> FunctionDecl \<Rightarrow> inst \<Rightarrow> (bool \<times> inst) outcome" where
  "TraverseFunctionDecl R FD s =
     (if \<not> fd_kernel FD then Ok (True, s)
      else if fd_params FD = [] then Ok (True, DiagReport (Warning ''skipping nullary function'') s)
      else
        let s1 = add_edit (InsertTextAfterToken (EndOf (p_id (last (fd_params FD)))) (Text CLPKMParam)) s in
        case fd_body FD of None \<Rightarrow> Ok (True, s1)
        | Some (body, xs) \<Rightarrow>
            let idxs = LocalParamIdx (fd_params FD);
                (Locfefe, KP) = GenerateLocfefe (CollectLocal R (Edits s1) xs) (map (vd_name \<circ> p_var) (fd_params FD))
                  ((KernelProfile_new (fd_name FD) (length (fd_params FD)))\<lparr>LocPtrParamIdx := idxs\<rparr>);
                s2 = s1\<lparr>ThePL := ThePL s1 @ [KP]\<rparr>;
                s3 = add_edit (InsertTextAfterToken (StartOf body) (Text (Prologue FD idxs (count_barriers_all xs) Locfefe))) s2;
                s4 = add_edit (InsertTextBefore (EndOf body) (Text (Epilogue Locfefe))) s3;
                s5 = s4\<lparr>LVT := SetContext (fd_flow FD) (LVT s4), CostCounter := 0, Nonce := 1, BarrierIdx := 0\<rparr>
            in
            bindO (traverse_all R (map param_ast (fd_params FD) @ [Compound body xs]) s5) (\<lambda>(Ret, s6).
              Ok (Ret, add_edit (InsertTextBefore (StartOf (fd_id FD)) (Text (ReqSizeDeclStr FD (last (ThePL s6)))))
                (s6\<lparr>LVT := EndContext (LVT s6)\<rparr>))))"

section \<open>What a traversal leaves\<close>

datatype event = BarrierEv | LoopEv nat

fun own_cost :: "ast \<Rightarrow> nat" and own_costs :: "ast list \<Rightarrow> nat" where
  "own_cost (Compound i xs) = 1 + own_costs xs"
| "own_cost (Loop i cond body compound xs) = 0"
| "own_cost (Switch i xs) = 1"
| "own_cost (Return i xs) = 1 + own_costs xs"
| "own_cost (Call i callee xs) = 1 + own_costs xs"
| "own_cost (DeclSt i ds) = 1 + own_costs ds"
| "own_cost (VarD VD ty init) = own_costs init"
| "own_cost (Other i xs) = 1 + own_costs xs"
| "own_costs [] = 0"
| "own_costs (x # xs) = own_cost x + own_costs xs"

text \<open>The checkpoints of a tree, in the order in which they are made.\<close>

fun events :: "ast \<Rightarrow> event list" and events_all :: "ast list \<Rightarrow> event list" where
  "events (Compound i xs) = events_all xs"
| "events (Loop i cond body compound xs) =
     events_all xs @ (if cond = Constant False then [] else [LoopEv (1 + own_costs xs)])"
| "events (Switch i xs) = []"
| "events (Return i xs) = events_all xs"
| "events (Call i callee xs) = (if callee = Some ''barrier'' then [BarrierEv] else []) @ events_all xs"
| "events (DeclSt i ds) = events_all ds"
| "events (VarD VD ty init) = events_all init"
| "events (Other i xs) = events_all xs"
| "events_all [] = []"
| "events_all (x # xs) = events x @ events_all xs"

fun has_switch :: "ast \<Rightarrow> bool" and has_switch_any :: "ast list \<Rightarrow> bool" where
  "has_switch (Compound i xs) = has_switch_any xs"
| "has_switch (Loop i cond body compound xs) = has_switch_any xs"
| "has_switch (Switch i xs) = True"
| "has_switch (Return i xs) = has_switch_any xs"
| "has_switch (Call i callee xs) = has_switch_any xs"
| "has_switch (DeclSt i ds) = has_switch_any ds"
| "has_switch (VarD VD ty init) = has_switch_any init"
| "has_switch (Other i xs) = has_switch_any xs"
| "has_switch_any [] = False"
| "has_switch_any (x # xs) = (has_switch x \<or> has_switch_any xs)"

text \<open>The checkpoints in a list of edits: their label, and the barrier's index or the loop's cost.\<close>

datatype mark = BarrierMark nat nat | LoopMark nat nat

fun mark_of_code :: "code \<Rightarrow> mark list" where
  "mark_of_code (BarrierCode idx nonce orig sv ld) = [BarrierMark idx nonce]"
| "mark_of_code (LoopCode cost nonce sv ld) = [LoopMark cost nonce]"
| "mark_of_code (Braced c) = mark_of_code c"
| "mark_of_code (Text t) = []"

fun mark_of_edit :: "edit \<Rightarrow> mark list" where
  "mark_of_edit (ReplaceText p c) = mark_of_code c"
| "mark_of_edit (RemoveText p) = []"
| "mark_of_edit (InsertTextBefore p c) = mark_of_code c"
| "mark_of_edit (InsertTextAfterToken p c) = mark_of_code c"

abbreviation marks :: "edit list \<Rightarrow> mark list" where
  "marks es \<equiv> concat (map mark_of_edit es)"

fun stamp :: "nat \<Rightarrow> nat \<Rightarrow> event list \<Rightarrow> mark list" where
  "stamp n b [] = []"
| "stamp n b (BarrierEv # es) = BarrierMark b (n + 1) # stamp (n + 1) (b + 1) es"
| "stamp n b (LoopEv c # es) = LoopMark c (n + 1) # stamp (n + 1) b es"

fun barrier_events :: "event list \<Rightarrow> nat" where
  "barrier_events [] = 0"
| "barrier_events (BarrierEv # es) = Suc (barrier_events es)"
| "barrier_events (LoopEv c # es) = barrier_events es"

lemma barrier_events_append [simp]: "barrier_events (es @ fs) = barrier_events es + barrier_events fs"
  by (induction es rule: barrier_events.induct) auto

lemma stamp_append: "stamp n b (es @ fs) = stamp n b es @ stamp (n + length es) (b + barrier_events es) fs"
  by (induction n b es rule: stamp.induct) auto

lemma barrier_events_count:
  "\<not> has_switch x \<Longrightarrow> barrier_events (events x) = count_barriers x"
  "\<not> has_switch_any xs \<Longrightarrow> barrier_events (events_all xs) = count_barriers_all xs"
  by (induction x and xs rule: events_events_all.induct) auto

text \<open>The effect of a piece of the traversal with the given checkpoints and cost.\<close>

definition advanced :: "event list \<Rightarrow> nat \<Rightarrow> inst \<Rightarrow> inst \<Rightarrow> bool" where
  "advanced es cost s s' \<longleftrightarrow> CostCounter s' = CostCounter s + cost \<and> Nonce s' = Nonce s + length es \<and>
     BarrierIdx s' = BarrierIdx s + barrier_events es \<and>
     (\<exists>u. Edits s' = Edits s @ u \<and> marks u = stamp (Nonce s) (BarrierIdx s) es)"

lemma advanced_trans: "advanced es c s s' \<Longrightarrow> advanced fs d s' s'' \<Longrightarrow> advanced (es @ fs) (c + d) s s''"
  unfolding advanced_def by (elim conjE exE, intro conjI, simp_all add: stamp_append)

lemma advanced_eq: "advanced es c s s' \<Longrightarrow> es = es' \<Longrightarrow> c = c' \<Longrightarrow> advanced es' c' s s'"
  by simp

lemma advanced_visits:
  "advanced [] 1 s (VisitStmt s)" "advanced [] 0 s (VisitReturnStmt i s)" "advanced [] 0 s (VisitDeclStmt i ds s)"
  "advanced [] 0 s (VisitVarDecl VD ty s)" "advanced [] 0 s (s\<lparr>LVT := T\<rparr>)"
  by (simp_all add: advanced_def VisitStmt_def VisitReturnStmt_def VisitDeclStmt_def VisitVarDecl_def add_edit_def)

lemma Checkpoint_frame:
  assumes "Checkpoint i s = Ok (C, s')"
  shows "\<exists>PL. s' = s\<lparr>ThePL := PL\<rparr>"
  using assms by (auto simp: Checkpoint_def split: if_splits)

lemma advanced_VisitCallExpr:
  assumes "VisitCallExpr R i callee s = Ok s'"
  shows "advanced (if callee = Some ''barrier'' then [BarrierEv] else []) 0 s s'"
proof (cases "callee = Some ''barrier''")
  case True
  then obtain orig C s2 where c: "Checkpoint i (s\<lparr>BarrierIdx := BarrierIdx s + 1\<rparr>) = Ok (C, s2)"
    "s' = add_edit (ReplaceText (Range i) (BarrierCode (BarrierIdx s) (Nonce s2 + 1) orig (fst C) (snd C)))
       (s2\<lparr>Nonce := Nonce s2 + 1\<rparr>)"
    using assms by (auto simp: VisitCallExpr_def Let_def)
  obtain PL where "s2 = s\<lparr>BarrierIdx := BarrierIdx s + 1, ThePL := PL\<rparr>" using Checkpoint_frame [OF c(1)] by auto
  then show ?thesis using True by (simp add: advanced_def c(2) add_edit_def)
next
  case False
  then show ?thesis using assms by (simp add: VisitCallExpr_def advanced_def)
qed

lemma advanced_PatchLoopBody:
  assumes "advanced es cost s0 s" and "PatchLoopBody (CostCounter s0) (CostCounter s) cond body compound s = Ok s'"
  shows "advanced (es @ (if cond = Constant False then [] else [LoopEv cost])) 0 s0 s'"
proof (cases "cond = Constant False")
  case True
  then show ?thesis using assms by (auto simp: PatchLoopBody_def advanced_def)
next
  case False
  let ?s = "if cond = Constant True then DiagReport (Warning ''infinite loop'') (s\<lparr>CostCounter := CostCounter s0\<rparr>)
    else s\<lparr>CostCounter := CostCounter s0\<rparr>"
  obtain C s2 where c: "Checkpoint body ?s = Ok (C, s2)"
    "s' = (let s3 = s2\<lparr>Nonce := Nonce s2 + 1\<rparr>;
            InstCR = LoopCode (CostCounter s - CostCounter s0) (Nonce s3) (fst C) (snd C) in
        (if compound then add_edit (InsertTextBefore (EndOf body) InstCR) s3
            else add_edit (InsertTextAfterToken (StmtEndOf body) (Braced InstCR))
                   (add_edit (InsertTextBefore (StartOf body) (Text '' { '')) s3)))"
    using assms(2) False by (auto simp: PatchLoopBody_def Let_def)
  obtain PL where "s2 = ?s\<lparr>ThePL := PL\<rparr>" using Checkpoint_frame [OF c(1)] by blast
  then show ?thesis
    using assms(1) False unfolding c(2) advanced_def
    by (auto simp: Let_def add_edit_def DiagReport_def stamp_append)
qed

lemma advanced_then:
  assumes "advanced es c s s'" and "advanced fs d s' s''" and "es @ fs = gs" and "c + d = e"
  shows "advanced gs e s s''"
  using advanced_trans [OF assms(1,2)] assms(3,4) by simp

lemma traverse_advanced:
  "\<not> has_switch x \<Longrightarrow> traverse R x s = Ok (ok, s') \<Longrightarrow> ok \<and> advanced (events x) (own_cost x) s s'"
  "\<not> has_switch_any xs \<Longrightarrow> traverse_all R xs s = Ok (ok, s') \<Longrightarrow> ok \<and> advanced (events_all xs) (own_costs xs) s s'"
proof (induction R x s and R xs s arbitrary: ok s' and ok s' rule: traverse_traverse_all.induct)
  case (1 R i xs s)
  let ?s = "s\<lparr>LVT := NewScope (LVT s)\<rparr>"
  obtain s1 where s1: "traverse_all R xs (VisitStmt ?s) = Ok (ok, s1)" "s' = s1\<lparr>LVT := PopScope (LVT s1)\<rparr>"
    using "1.prems"(2) by auto
  have "ok" and a: "advanced (events_all xs) (own_costs xs) (VisitStmt ?s) s1"
    using "1.IH" [OF _ s1(1)] "1.prems"(1) by auto
  have "advanced [] 1 s (VisitStmt ?s)" by (rule advanced_then [OF advanced_visits(5,1)]) simp_all
  then have "advanced (events_all xs) (1 + own_costs xs) s s1" by (rule advanced_then [OF _ a]) simp_all
  then show ?case using \<open>ok\<close> by (auto simp: s1(2) intro: advanced_then [OF _ advanced_visits(5)])
next
  case (2 R i cond body compound xs s)
  obtain b s1 where s1: "traverse_all R xs (VisitStmt s) = Ok (b, s1)"
    and p: "PatchLoopBody (CostCounter s) (CostCounter s1) cond body compound s1 = Ok s'" and ok: "ok"
    using "2.prems"(2) by auto
  have "advanced (events_all xs) (own_costs xs) (VisitStmt s) s1"
    using "2.IH" [OF _ s1(1)] "2.prems"(1) by auto
  then have "advanced (events_all xs) (1 + own_costs xs) s s1"
    by (rule advanced_then [OF advanced_visits(1)]) simp_all
  from advanced_PatchLoopBody [OF this p] ok show ?case by simp
next
  case (4 R i xs s)
  have "ok" and a: "advanced (events_all xs) (own_costs xs) (VisitReturnStmt i (VisitStmt s)) s'"
    using "4.IH" "4.prems" by auto
  moreover have "advanced [] 1 s (VisitReturnStmt i (VisitStmt s))"
    by (rule advanced_then [OF advanced_visits(1,2)]) simp_all
  ultimately show ?case by (auto intro: advanced_then)
next
  case (5 R i callee xs s)
  obtain s1 where s1: "VisitCallExpr R i callee (VisitStmt s) = Ok s1" "traverse_all R xs s1 = Ok (ok, s')"
    using "5.prems"(2) by auto
  have "ok" and a: "advanced (events_all xs) (own_costs xs) s1 s'"
    using "5.IH" [OF _ s1(2)] "5.prems"(1) by auto
  have "advanced (if callee = Some ''barrier'' then [BarrierEv] else []) 1 s s1"
    by (rule advanced_then [OF advanced_visits(1) advanced_VisitCallExpr [OF s1(1)]]) simp_all
  then have "advanced (events (Call i callee xs)) (own_cost (Call i callee xs)) s s'"
    by (rule advanced_then [OF _ a]) simp_all
  then show ?case using \<open>ok\<close> by simp
next
  case (6 R i ds s)
  have "ok" and a: "advanced (events_all ds) (own_costs ds) (VisitDeclStmt i ds (VisitStmt s)) s'"
    using "6.IH" "6.prems" by auto
  moreover have "advanced [] 1 s (VisitDeclStmt i ds (VisitStmt s))"
    by (rule advanced_then [OF advanced_visits(1,3)]) simp_all
  ultimately show ?case by (auto intro: advanced_then)
next
  case (7 R VD ty init s)
  have "ok" and a: "advanced (events_all init) (own_costs init) (VisitVarDecl VD ty s) s'"
    using "7.IH" "7.prems" by auto
  then show ?case by (auto intro: advanced_then [OF advanced_visits(4)])
next
  case (8 R i xs s)
  have "ok" and a: "advanced (events_all xs) (own_costs xs) (VisitStmt s) s'"
    using "8.IH" "8.prems" by auto
  then show ?case by (auto intro: advanced_then [OF advanced_visits(1)])
next
  case (9 R s)
  then show ?case by (simp add: advanced_def)
next
  case (10 R x xs s)
  obtain b s1 where s1: "traverse R x s = Ok (b, s1)" using "10.prems"(2) by auto
  have b: "b" and a: "advanced (events x) (own_cost x) s s1" using "10.IH"(1) [OF _ s1] "10.prems"(1) by auto
  have "traverse_all R xs s1 = Ok (ok, s')" using "10.prems"(2) s1 b by simp
  then have "ok \<and> advanced (events_all xs) (own_costs xs) s1 s'"
    using "10.IH"(2) "10.prems"(1) b by (auto simp del: traverse.simps)
  then show ?case using a by (auto intro: advanced_then)
qed simp

section \<open>Errors and profiles\<close>

abbreviation switch_error :: diag where
  "switch_error \<equiv> Error ''switch is not supported''"

text \<open>
  Diagnostics are never withdrawn, and of the profiles only the private size of the last one
  changes: it grows.
\<close>

definition grown :: "inst \<Rightarrow> inst \<Rightarrow> bool" where
  "grown s s' \<longleftrightarrow> set (Diags s) \<subseteq> set (Diags s') \<and>
     (ThePL s' = ThePL s \<or> (\<exists>PL KP n. ThePL s = PL @ [KP] \<and> ThePL s' = PL @ [KP\<lparr>ReqPrvSize := n\<rparr>] \<and> ReqPrvSize KP \<le> n))"

lemma grown_refl [simp]: "grown s s"
  by (simp add: grown_def)

lemma grown_trans:
  assumes "grown s s'" and "grown s' s''"
  shows "grown s s''"
proof (cases "ThePL s' = ThePL s \<or> ThePL s'' = ThePL s'")
  case True
  then show ?thesis using assms unfolding grown_def by auto
next
  case False
  then obtain PL KP n PL' KP' n' where "ThePL s = PL @ [KP]" "ThePL s' = PL @ [KP\<lparr>ReqPrvSize := n\<rparr>]" "ReqPrvSize KP \<le> n"
    "ThePL s' = PL' @ [KP']" "ThePL s'' = PL' @ [KP'\<lparr>ReqPrvSize := n'\<rparr>]" "ReqPrvSize KP' \<le> n'"
    using assms unfolding grown_def by blast
  then show ?thesis
    using assms unfolding grown_def
    by (intro conjI disjI2 exI [of _ PL] exI [of _ KP] exI [of _ n']) auto
qed

lemma grown_visits:
  "grown s (VisitStmt s)" "grown s (VisitReturnStmt i s)" "grown s (VisitDeclStmt i ds s)" "grown s (VisitVarDecl VD ty s)"
  "grown s (s\<lparr>LVT := T\<rparr>)" "grown s (DiagReport d s)"
  by (auto simp: grown_def VisitStmt_def VisitReturnStmt_def VisitDeclStmt_def VisitVarDecl_def add_edit_def DiagReport_def)

lemma grown_frame: "Diags s' = Diags s \<Longrightarrow> ThePL s' = ThePL s \<Longrightarrow> grown s s'"
  by (simp add: grown_def)

lemma grown_Checkpoint:
  assumes "Checkpoint i s = Ok (C, s')"
  shows "grown s s'"
proof -
  obtain L KP where c: "ThePL s \<noteq> []" "GenerateCovfefe L (last (ThePL s)) = Ok (C, KP)" "s' = s\<lparr>ThePL := butlast (ThePL s) @ [KP]\<rparr>"
    using assms by (auto simp: Checkpoint_def split: if_splits)
  obtain ops n where "SaveOps L 0 = Ok (ops, n)" using c(2) by (auto simp: GenerateCovfefe_def)
  from GenerateCovfefe_profile [OF c(2) this] c(1,3) show ?thesis
    unfolding grown_def
    by (intro conjI disjI2 exI [of _ "butlast (ThePL s)"] exI [of _ "last (ThePL s)"]
        exI [of _ "max (ReqPrvSize (last (ThePL s))) (pad_to_4 n)"]) auto
qed

lemma grown_VisitCallExpr:
  assumes "VisitCallExpr R i callee s = Ok s'"
  shows "grown s s'"
proof (cases "callee = Some ''barrier''")
  case True
  then obtain C s2 e where c: "Checkpoint i (s\<lparr>BarrierIdx := BarrierIdx s + 1\<rparr>) = Ok (C, s2)"
    "s' = add_edit e (s2\<lparr>Nonce := Nonce s2 + 1\<rparr>)"
    using assms by (auto simp: VisitCallExpr_def Let_def)
  have "grown s (s\<lparr>BarrierIdx := BarrierIdx s + 1\<rparr>)" "grown s2 s'" by (auto simp: c(2) add_edit_def intro: grown_frame)
  then show ?thesis using grown_Checkpoint [OF c(1)] by (blast intro: grown_trans)
qed (use assms in \<open>simp add: VisitCallExpr_def\<close>)

lemma grown_PatchLoopBody:
  assumes "PatchLoopBody old new cond body compound s = Ok s'"
  shows "grown s s'"
proof (cases "cond = Constant False")
  case True
  then show ?thesis using assms by (auto simp: PatchLoopBody_def intro: grown_frame)
next
  case False
  let ?s0 = "s\<lparr>CostCounter := old\<rparr>"
  let ?s = "if cond = Constant True then DiagReport (Warning ''infinite loop'') ?s0 else ?s0"
  obtain C s2 where c: "Checkpoint body ?s = Ok (C, s2)" "Diags s' = Diags s2" "ThePL s' = ThePL s2"
    using assms False by (auto simp: PatchLoopBody_def Let_def add_edit_def split: if_splits)
  have "grown s ?s" using grown_trans [OF grown_frame grown_visits(6)] by (auto intro: grown_frame)
  then show ?thesis
    using grown_Checkpoint [OF c(1)] grown_frame [OF c(2,3)] by (blast intro: grown_trans)
qed

lemma traverse_grown:
  "traverse R x s = Ok (ok, s') \<Longrightarrow> grown s s' \<and> (\<not> ok \<or> has_switch x \<longrightarrow> switch_error \<in> set (Diags s'))"
  "traverse_all R xs s = Ok (ok, s') \<Longrightarrow> grown s s' \<and> (\<not> ok \<or> has_switch_any xs \<longrightarrow> switch_error \<in> set (Diags s'))"
proof (induction R x s and R xs s arbitrary: ok s' and ok s' rule: traverse_traverse_all.induct)
  case (1 R i xs s)
  let ?s = "s\<lparr>LVT := NewScope (LVT s)\<rparr>"
  obtain s1 where s1: "traverse_all R xs (VisitStmt ?s) = Ok (ok, s1)" "s' = s1\<lparr>LVT := PopScope (LVT s1)\<rparr>"
    using "1.prems" by auto
  have "grown s (VisitStmt ?s)" by (blast intro: grown_trans grown_visits)
  then show ?case
    using "1.IH" [OF s1(1)] grown_visits(5) [of s1] by (auto simp: s1(2) intro: grown_trans)
next
  case (2 R i cond body compound xs s)
  obtain b s1 where s1: "traverse_all R xs (VisitStmt s) = Ok (b, s1)"
    and p: "PatchLoopBody (CostCounter s) (CostCounter s1) cond body compound s1 = Ok s'" and ok: "ok"
    using "2.prems" by auto
  have g: "grown s1 s'" by (rule grown_PatchLoopBody [OF p])
  then have "set (Diags s1) \<subseteq> set (Diags s')" by (simp add: grown_def)
  then show ?case
    using "2.IH" [OF s1(1)] g grown_visits(1) [of s] ok by (auto intro: grown_trans)
next
  case (3 R i xs s)
  have "grown (VisitStmt s) s'" using "3.prems" grown_visits(6) by (auto simp: VisitSwitchStmt_def)
  then show ?case
    using "3.prems" by (auto simp: VisitSwitchStmt_def DiagReport_def intro: grown_trans [OF grown_visits(1)])
next
  case (4 R i xs s)
  then have "grown (VisitReturnStmt i (VisitStmt s)) s' \<and> (\<not> ok \<or> has_switch_any xs \<longrightarrow> switch_error \<in> set (Diags s'))" by auto
  then show ?case by (auto intro: grown_trans [OF grown_trans [OF grown_visits(1,2)]])
next
  case (5 R i callee xs s)
  obtain s1 where s1: "VisitCallExpr R i callee (VisitStmt s) = Ok s1" "traverse_all R xs s1 = Ok (ok, s')"
    using "5.prems" by auto
  show ?case
    using "5.IH" [OF s1(2)] by (auto intro: grown_trans [OF grown_trans [OF grown_visits(1) grown_VisitCallExpr [OF s1(1)]]])
next
  case (6 R i ds s)
  then have "grown (VisitDeclStmt i ds (VisitStmt s)) s' \<and> (\<not> ok \<or> has_switch_any ds \<longrightarrow> switch_error \<in> set (Diags s'))" by auto
  then show ?case by (auto intro: grown_trans [OF grown_trans [OF grown_visits(1,3)]])
next
  case (7 R VD ty init s)
  then have "grown (VisitVarDecl VD ty s) s' \<and> (\<not> ok \<or> has_switch_any init \<longrightarrow> switch_error \<in> set (Diags s'))" by auto
  then show ?case by (auto intro: grown_trans [OF grown_visits(4)])
next
  case (8 R i xs s)
  then have "grown (VisitStmt s) s' \<and> (\<not> ok \<or> has_switch_any xs \<longrightarrow> switch_error \<in> set (Diags s'))" by auto
  then show ?case by (auto intro: grown_trans [OF grown_visits(1)])
next
  case (10 R x xs s)
  obtain b s1 where s1: "traverse R x s = Ok (b, s1)" using "10.prems" by auto
  have IH1: "grown s s1" "\<not> b \<or> has_switch x \<longrightarrow> switch_error \<in> set (Diags s1)"
    using "10.IH"(1) [OF s1] by auto
  show ?case
  proof (cases b)
    case True
    have "traverse_all R xs s1 = Ok (ok, s')" using "10.prems" s1 True by simp
    then have "grown s1 s' \<and> (\<not> ok \<or> has_switch_any xs \<longrightarrow> switch_error \<in> set (Diags s'))"
      using "10.IH"(2) True by (auto simp del: traverse.simps)
    moreover from this have "set (Diags s1) \<subseteq> set (Diags s')" by (simp add: grown_def)
    ultimately show ?thesis using IH1 by (auto intro: grown_trans)
  next
    case False
    then show ?thesis using IH1 "10.prems" s1 by simp
  qed
qed simp

section \<open>A whole kernel\<close>

fun label_of :: "mark \<Rightarrow> nat" where
  "label_of (BarrierMark idx nonce) = nonce" | "label_of (LoopMark cost nonce) = nonce"

fun index_of :: "mark \<Rightarrow> nat list" where
  "index_of (BarrierMark idx nonce) = [idx]" | "index_of (LoopMark cost nonce) = []"

lemma stamp_labels:
  "map label_of (stamp n b es) = [n + 1 ..< n + 1 + length es]"
  "concat (map index_of (stamp n b es)) = [b ..< b + barrier_events es]"
  by (induction n b es rule: stamp.induct) (simp_all add: upt_rec)

lemma params_plain:
  "has_switch_any (map param_ast ps @ xs) = has_switch_any xs" "events_all (map param_ast ps @ xs) = events_all xs"
  by (induction ps) (simp_all add: param_ast_def)

text \<open>The traversal of the body inside \<open>TraverseFunctionDecl\<close>.\<close>

lemma TraverseFunctionDecl_body:
  assumes "TraverseFunctionDecl R FD s = Ok (ok, s')" and "fd_kernel FD" and "fd_params FD \<noteq> []"
    and "fd_body FD = Some (body, xs)"
  shows "\<exists>Locfefe KP s5 s6 pre.
     GenerateLocfefe (CollectLocal R (Edits s @ pre) xs) (map (vd_name \<circ> p_var) (fd_params FD))
       ((KernelProfile_new (fd_name FD) (length (fd_params FD)))\<lparr>LocPtrParamIdx := LocalParamIdx (fd_params FD)\<rparr>) = (Locfefe, KP) \<and>
     traverse_all R (map param_ast (fd_params FD) @ [Compound body xs]) s5 = Ok (ok, s6) \<and>
     Nonce s5 = 1 \<and> BarrierIdx s5 = 0 \<and> CostCounter s5 = 0 \<and> Diags s5 = Diags s \<and> ThePL s5 = ThePL s @ [KP] \<and>
     Edits s5 = Edits s @ pre @ [InsertTextAfterToken (StartOf body)
         (Text (Prologue FD (LocalParamIdx (fd_params FD)) (count_barriers_all xs) Locfefe)),
       InsertTextBefore (EndOf body) (Text (Epilogue Locfefe))] \<and> marks pre = [] \<and>
     Edits s' = Edits s6 @ [InsertTextBefore (StartOf (fd_id FD)) (Text (ReqSizeDeclStr FD (last (ThePL s6))))] \<and>
     Diags s' = Diags s6 \<and> ThePL s' = ThePL s6"
proof -
  let ?pre = "[InsertTextAfterToken (EndOf (p_id (last (fd_params FD)))) (Text CLPKMParam)]"
  obtain Locfefe KP where g: "GenerateLocfefe (CollectLocal R (Edits s @ ?pre) xs) (map (vd_name \<circ> p_var) (fd_params FD))
       ((KernelProfile_new (fd_name FD) (length (fd_params FD)))\<lparr>LocPtrParamIdx := LocalParamIdx (fd_params FD)\<rparr>) = (Locfefe, KP)"
    by fastforce
  let ?es = "Edits s @ ?pre @ [InsertTextAfterToken (StartOf body)
         (Text (Prologue FD (LocalParamIdx (fd_params FD)) (count_barriers_all xs) Locfefe)),
       InsertTextBefore (EndOf body) (Text (Epilogue Locfefe))]"
  let ?s5 = "s\<lparr>ThePL := ThePL s @ [KP], Edits := ?es, LVT := SetContext (fd_flow FD) (LVT s), CostCounter := 0,
     Nonce := 1, BarrierIdx := 0\<rparr>"
  obtain s6 where t: "traverse_all R (map param_ast (fd_params FD) @ [Compound body xs]) ?s5 = Ok (ok, s6)"
    and s': "s' = s6\<lparr>LVT := EndContext (LVT s6),
       Edits := Edits s6 @ [InsertTextBefore (StartOf (fd_id FD)) (Text (ReqSizeDeclStr FD (last (ThePL s6))))]\<rparr>"
    using assms g
    by (auto simp: TraverseFunctionDecl_def Let_def add_edit_def simp del: traverse.simps traverse_all.simps)
  show ?thesis
    by (rule exI [of _ Locfefe], rule exI [of _ KP], rule exI [of _ ?s5], rule exI [of _ s6], rule exI [of _ ?pre],
        intro conjI g t) (simp_all add: s')
qed

lemma LocalParamIdx_spec:
  "set (LocalParamIdx ps) = {i. i < length ps \<and> p_local_ptr (ps ! i)}" "sorted (LocalParamIdx ps)"
  "distinct (LocalParamIdx ps)"
proof -
  show "set (LocalParamIdx ps) = {i. i < length ps \<and> p_local_ptr (ps ! i)}"
  proof (rule set_eqI, rule iffI)
    fix i
    assume "i \<in> {i. i < length ps \<and> p_local_ptr (ps ! i)}"
    then have "(i, ps ! i) \<in> set (filter (\<lambda>(_, P). p_local_ptr P) (enumerate 0 ps))"
      by (simp add: in_set_enumerate_eq)
    then show "i \<in> set (LocalParamIdx ps)" unfolding LocalParamIdx_def by force
  qed (auto simp: LocalParamIdx_def in_set_enumerate_eq)
  show "sorted (LocalParamIdx ps)"
    unfolding LocalParamIdx_def by (intro sorted_filter) simp
  show "distinct (LocalParamIdx ps)"
    unfolding LocalParamIdx_def by (intro distinct_map_filter) simp
qed

lemma GenerateLocfefe_profile:
  "snd (GenerateLocfefe LocDecl params KP) = KP\<lparr>ReqLocSize := ReqLocSize KP + snd (LocalPieces (concat (map snd LocDecl)) 0)\<rparr>"
  by (simp add: GenerateLocfefe_def Let_def split_beta)

section \<open>The traversal returns\<close>

fun is_error :: "diag \<Rightarrow> bool" where
  "is_error (Error msg) = True" | "is_error (Warning msg) = False"

definition errors :: "inst \<Rightarrow> diag list" where
  "errors s = filter is_error (Diags s)"

text \<open>
  What a traversal relies on: a profile to work on, and a flow that knows every statement.
  The variables are in the spaces of OpenCL C.
\<close>

definition ready :: "inst \<Rightarrow> bool" where
  "ready s \<longleftrightarrow> ThePL s \<noteq> [] \<and> (\<exists>f. Flow (LVT s) = Some f \<and> (\<forall>i. getBlock f i \<noteq> None)) \<and>
     (\<forall>(V, m) \<in> set (Tracker (LVT s)). vd_space V \<noteq> other_space)"

fun known_spaces :: "ast \<Rightarrow> bool" and known_spaces_all :: "ast list \<Rightarrow> bool" where
  "known_spaces (Compound i xs) = known_spaces_all xs"
| "known_spaces (Loop i cond body compound xs) = known_spaces_all xs"
| "known_spaces (Switch i xs) = known_spaces_all xs"
| "known_spaces (Return i xs) = known_spaces_all xs"
| "known_spaces (Call i callee xs) = known_spaces_all xs"
| "known_spaces (DeclSt i ds) = known_spaces_all ds"
| "known_spaces (VarD VD ty init) = (vd_space VD \<noteq> other_space \<and> known_spaces_all init)"
| "known_spaces (Other i xs) = known_spaces_all xs"
| "known_spaces_all [] = True"
| "known_spaces_all (x # xs) = (known_spaces x \<and> known_spaces_all xs)"

text \<open>At a barrier the rewriter shows a call, with its closing parenthesis.\<close>

definition shows_calls :: "rewriter \<Rightarrow> bool" where
  "shows_calls R \<longleftrightarrow> (\<forall>es i. CHR '')'' \<in> set (R es (Range i)))"

lemma ready_visits:
  "ready s \<Longrightarrow> ready (VisitStmt s)" "ready s \<Longrightarrow> ready (VisitReturnStmt i s)" "ready s \<Longrightarrow> ready (VisitDeclStmt i ds s)"
  "ready s \<Longrightarrow> ready (DiagReport d s)" "ready s \<Longrightarrow> ready (add_edit e s)" "ready s \<Longrightarrow> ready (s\<lparr>Nonce := n\<rparr>)"
  "ready s \<Longrightarrow> ready (s\<lparr>CostCounter := n\<rparr>)" "ready s \<Longrightarrow> ready (s\<lparr>BarrierIdx := n\<rparr>)"
  "ready s \<Longrightarrow> ready (s\<lparr>LVT := NewScope (LVT s)\<rparr>)" "ready s \<Longrightarrow> ready (s\<lparr>LVT := PopScope (LVT s)\<rparr>)"
  by (auto simp: ready_def VisitStmt_def VisitReturnStmt_def VisitDeclStmt_def DiagReport_def add_edit_def
      NewScope_def PopScope_def)

lemma ready_VisitVarDecl:
  assumes "ready s" and "vd_space VD \<noteq> other_space"
  shows "ready (VisitVarDecl VD ty s)"
proof -
  have "set (fst (map_emplace VD (Scope (LVT s)) (Tracker (LVT s)))) \<subseteq> insert (VD, Scope (LVT s)) (set (Tracker (LVT s)))"
    by (rule set_map_emplace)
  then show ?thesis using assms by (auto simp: ready_def VisitVarDecl_def AddTrack_def split_beta)
qed

lemma errors_visits [simp]:
  "errors (VisitStmt s) = errors s" "errors (VisitReturnStmt i s) = errors s" "errors (VisitDeclStmt i ds s) = errors s"
  "errors (VisitVarDecl VD ty s) = errors s" "errors (DiagReport (Warning msg) s) = errors s"
  "errors (add_edit e s) = errors s" "errors (s\<lparr>Nonce := n\<rparr>) = errors s" "errors (s\<lparr>CostCounter := n\<rparr>) = errors s"
  "errors (s\<lparr>BarrierIdx := n\<rparr>) = errors s" "errors (s\<lparr>LVT := T\<rparr>) = errors s" "errors (s\<lparr>ThePL := P\<rparr>) = errors s"
  by (simp_all add: errors_def VisitStmt_def VisitReturnStmt_def VisitDeclStmt_def VisitVarDecl_def DiagReport_def add_edit_def)

lemma SaveOps_returns: "\<forall>V \<in> set L. vd_space V \<noteq> other_space \<Longrightarrow> \<exists>ops m. SaveOps L n = Ok (ops, m)"
proof (induction L arbitrary: n)
  case (Cons V L)
  obtain ops m where "SaveOps L (n + var_size V) = Ok (ops, m)" using Cons by fastforce
  then show ?case using Cons by (cases "vd_space V") auto
qed simp

lemma Checkpoint_returns:
  assumes "ready s"
  shows "\<exists>C s'. Checkpoint i s = Ok (C, s') \<and> ready s' \<and> errors s' = errors s"
proof -
  obtain f where f: "Flow (LVT s) = Some f" "getBlock f i \<noteq> None" using assms unfolding ready_def by blast
  then obtain B where B: "getBlock f i = Some B" by auto
  let ?L = "filter (live_after f i) (map fst (Tracker (LVT s)))"
  have "\<forall>V \<in> set ?L. vd_space V \<noteq> other_space" using assms by (auto simp: ready_def)
  then obtain ops n where "SaveOps ?L 0 = Ok (ops, n)" using SaveOps_returns [of ?L 0] by blast
  then show ?thesis
    using assms by (auto simp: Checkpoint_def GenLivenessAfter_eq [OF f(1) B] GenerateCovfefe_def ready_def)
qed

lemma VisitCallExpr_returns:
  assumes "ready s" and "shows_calls R"
  shows "\<exists>s'. VisitCallExpr R i callee s = Ok s' \<and> ready s' \<and> errors s' = errors s"
proof (cases "callee = Some ''barrier''")
  case True
  obtain orig where "PatchFence (R (Edits s) (Range i)) = Ok orig" using assms(2) by (auto simp: PatchFence_def shows_calls_def)
  moreover obtain C s2 where "Checkpoint i (s\<lparr>BarrierIdx := BarrierIdx s + 1\<rparr>) = Ok (C, s2)" "ready s2" "errors s2 = errors s"
    using Checkpoint_returns [OF ready_visits(8) [OF assms(1)]] by fastforce
  ultimately show ?thesis by (simp add: VisitCallExpr_def True Let_def ready_visits)
qed (use assms(1) in \<open>simp add: VisitCallExpr_def\<close>)

lemma PatchLoopBody_returns:
  assumes "ready s"
  shows "\<exists>s'. PatchLoopBody old new cond body compound s = Ok s' \<and> ready s' \<and> errors s' = errors s"
proof (cases "cond = Constant False")
  case False
  let ?s0 = "s\<lparr>CostCounter := old\<rparr>"
  let ?s = "if cond = Constant True then DiagReport (Warning ''infinite loop'') ?s0 else ?s0"
  have "ready ?s" "errors ?s = errors s" using assms by (simp_all add: ready_visits)
  then obtain C s2 where "Checkpoint body ?s = Ok (C, s2)" "ready s2" "errors s2 = errors s"
    using Checkpoint_returns [of ?s body] by fastforce
  then show ?thesis using False by (simp add: PatchLoopBody_def Let_def ready_visits)
qed (use assms in \<open>simp add: PatchLoopBody_def ready_visits\<close>)

lemma traverse_returns:
  "ready s \<Longrightarrow> shows_calls R \<Longrightarrow> known_spaces x \<Longrightarrow>
     \<exists>ok s'. traverse R x s = Ok (ok, s') \<and> ready s' \<and> (\<not> has_switch x \<longrightarrow> ok \<and> errors s' = errors s)"
  "ready s \<Longrightarrow> shows_calls R \<Longrightarrow> known_spaces_all xs \<Longrightarrow>
     \<exists>ok s'. traverse_all R xs s = Ok (ok, s') \<and> ready s' \<and> (\<not> has_switch_any xs \<longrightarrow> ok \<and> errors s' = errors s)"
proof (induction R x s and R xs s rule: traverse_traverse_all.induct)
  case (1 R i xs s)
  obtain ok s' where "traverse_all R xs (VisitStmt (s\<lparr>LVT := NewScope (LVT s)\<rparr>)) = Ok (ok, s')" "ready s'"
    "\<not> has_switch_any xs \<longrightarrow> ok \<and> errors s' = errors s"
    using "1.IH" [OF ready_visits(1) [OF ready_visits(9) [OF "1.prems"(1)]] "1.prems"(2)] "1.prems"(3) by auto
  then show ?case by (simp add: ready_visits)
next
  case (2 R i cond body compound xs s)
  obtain ok s' where s': "traverse_all R xs (VisitStmt s) = Ok (ok, s')" "ready s'"
    "\<not> has_switch_any xs \<longrightarrow> ok \<and> errors s' = errors s"
    using "2.IH" [OF ready_visits(1) [OF "2.prems"(1)] "2.prems"(2)] "2.prems"(3) by auto
  obtain s2 where "PatchLoopBody (CostCounter s) (CostCounter s') cond body compound s' = Ok s2" "ready s2" "errors s2 = errors s'"
    using PatchLoopBody_returns [OF s'(2)] by blast
  then show ?case using s'(1,3) by (intro exI [of _ True] exI [of _ s2]) simp
next
  case (5 R i callee xs s)
  obtain s1 where s1: "VisitCallExpr R i callee (VisitStmt s) = Ok s1" "ready s1" "errors s1 = errors s"
    using VisitCallExpr_returns [OF ready_visits(1) [OF "5.prems"(1)] "5.prems"(2)] by fastforce
  show ?case using "5.IH" [OF s1(2) "5.prems"(2)] "5.prems"(3) s1 by simp
next
  case (10 R x xs s)
  obtain ok s1 where s1: "traverse R x s = Ok (ok, s1)" "ready s1" "\<not> has_switch x \<longrightarrow> ok \<and> errors s1 = errors s"
    using "10.IH"(1) "10.prems" by auto
  show ?case
  proof (cases ok)
    case True
    then show ?thesis using "10.IH"(2) [OF True s1(2)] "10.prems" s1 by (auto simp del: traverse.simps)
  next
    case False
    then show ?thesis using s1 by (intro exI [of _ False]) simp
  qed
next
  case (3 R i xs s)
  then show ?case by (intro exI [of _ False]) (simp add: VisitSwitchStmt_def ready_visits)
next
  case (9 R s)
  then show ?case by (intro exI [of _ True]) simp
qed (simp_all add: ready_visits ready_VisitVarDecl)

text \<open>Outside kernels there are no checkpoints.\<close>

lemma traverse_calm:
  "events x = [] \<Longrightarrow> \<exists>ok s'. traverse R x s = Ok (ok, s') \<and> (\<not> has_switch x \<longrightarrow> ok \<and> errors s' = errors s)"
  "events_all xs = [] \<Longrightarrow> \<exists>ok s'. traverse_all R xs s = Ok (ok, s') \<and> (\<not> has_switch_any xs \<longrightarrow> ok \<and> errors s' = errors s)"
proof (induction R x s and R xs s rule: traverse_traverse_all.induct)
  case (1 R i xs s)
  then show ?case by fastforce
next
  case (2 R i cond body compound xs s)
  then have c: "cond = Constant False" "events_all xs = []" by (auto split: if_splits)
  from "2.IH" [OF c(2)] show ?case by (auto simp: c(1) PatchLoopBody_def)
next
  case (5 R i callee xs s)
  then have c: "callee \<noteq> Some ''barrier''" "events_all xs = []" by (auto split: if_splits)
  from "5.IH" [OF c(2), of "VisitStmt s"] show ?case by (simp add: VisitCallExpr_def c(1))
next
  case (10 R x xs s)
  obtain ok s1 where s1: "traverse R x s = Ok (ok, s1)" "\<not> has_switch x \<longrightarrow> ok \<and> errors s1 = errors s"
    using "10.IH"(1) "10.prems" by auto
  show ?case
  proof (cases ok)
    case True
    have "events_all xs = []" using "10.prems" by simp
    from "10.IH"(2) [OF True this, of s1] obtain ok' s2 where
      "traverse_all R xs s1 = Ok (ok', s2)" "\<not> has_switch_any xs \<longrightarrow> ok' \<and> errors s2 = errors s1" by blast
    then show ?thesis using s1 True by simp
  next
    case False
    then show ?thesis using s1 by (intro exI [of _ False]) simp
  qed
next
  case (3 R i xs s)
  then show ?case by (intro exI [of _ False]) (simp add: VisitSwitchStmt_def)
next
  case (9 R s)
  then show ?case by (intro exI [of _ True]) simp
qed simp_all

section \<open>The compiler\<close>

text \<open>
  \<open>cc/Main.cpp\<close>. Where the source and the profiles go is decided once, when the first
  translation unit begins; \<open>open_file\<close> answers why a file cannot be opened.
\<close>

datatype sink = Stdout | File string

record output_helper =
  SOut :: "sink option"
  YOut :: "string option"
  PL :: "KernelProfile list"

definition OutputHelper_new :: output_helper where
  "OutputHelper_new = \<lparr>SOut = None, YOut = None, PL = []\<rparr>"

definition Initialize :: "(string \<Rightarrow> string option) \<Rightarrow> string \<Rightarrow> string \<Rightarrow> output_helper \<Rightarrow> string \<times> output_helper" where
  "Initialize open_file OptSourceOut OptProfileOut h =
     (let (out, EC) = (if OptSourceOut = [] then (Stdout, None) else (File OptSourceOut, open_file OptSourceOut));
          h1 = h\<lparr>SOut := Some out\<rparr>
      in case EC of Some msg \<Rightarrow> (''Failed to open source output: '' @ msg, h1)
         | None \<Rightarrow>
             if OptProfileOut = [] then ([], h1)
             else (case open_file OptProfileOut of
                 Some msg \<Rightarrow> (''Failed to open profile output: '' @ msg, h1)
               | None \<Rightarrow> ([], h1\<lparr>YOut := Some OptProfileOut\<rparr>)))"

text \<open>The static variables \<open>Inited\<close> and \<open>Failed\<close> are in the state; true: go on.\<close>

record cc_state =
  Inited :: bool
  Failed :: bool
  Helper :: output_helper
  ccDiags :: "diag list"
  Written :: "(sink \<times> string) list"

definition BeginInvocation :: "(string \<Rightarrow> string option) \<Rightarrow> string \<Rightarrow> string \<Rightarrow> cc_state \<Rightarrow> bool \<times> cc_state" where
  "BeginInvocation open_file src prof c =
     (let c1 = (if Inited c then c
                else case Initialize open_file src prof (Helper c) of (ErrMsg, h) \<Rightarrow>
                  (if ErrMsg \<noteq> [] then c\<lparr>Failed := True, ccDiags := ccDiags c @ [Error ErrMsg], Helper := h\<rparr>
                   else c\<lparr>Helper := h\<rparr>)\<lparr>Inited := True\<rparr>)
      in (\<not> Failed c1, c1))"

definition cc_new :: cc_state where
  "cc_new = \<lparr>Inited = False, Failed = False, Helper = OutputHelper_new, ccDiags = [], Written = []\<rparr>"

text \<open>A declaration at the top level: a function, or something else that is only traversed.\<close>

datatype top = Func FunctionDecl | TopDecl ast

fun HandleTopLevelDecl :: "rewriter \<Rightarrow> top list \<Rightarrow> inst \<Rightarrow> inst outcome" where
  "HandleTopLevelDecl R [] s = Ok s"
| "HandleTopLevelDecl R (Func FD # ds) s = bindO (TraverseFunctionDecl R FD s) (\<lambda>(_, s'). HandleTopLevelDecl R ds s')"
| "HandleTopLevelDecl R (TopDecl x # ds) s = bindO (traverse R x s) (\<lambda>(_, s'). HandleTopLevelDecl R ds s')"

text \<open>The whole buffer is written unless an error occurred; \<open>Buffer\<close> applies the edits.\<close>

definition EndSourceFileAction :: "(edit list \<Rightarrow> string) \<Rightarrow> edit list \<Rightarrow> cc_state \<Rightarrow> cc_state outcome" where
  "EndSourceFileAction Buffer es c =
     (if \<exists>d \<in> set (ccDiags c). is_error d then Ok c
      else case SOut (Helper c) of None \<Rightarrow> Crash
        | Some out \<Rightarrow> Ok (c\<lparr>Written := Written c @ [(out, Buffer es)]\<rparr>))"

text \<open>One translation unit. The instrumentor's counters are not initialized by its constructor.\<close>

definition RunAction ::
  "(string \<Rightarrow> string option) \<Rightarrow> string \<Rightarrow> string \<Rightarrow> rewriter \<Rightarrow> (edit list \<Rightarrow> string) \<Rightarrow> nat \<times> nat \<times> nat
     \<Rightarrow> top list \<Rightarrow> cc_state \<Rightarrow> cc_state outcome" where
  "RunAction open_file src prof R Buffer junk tops c =
     (case BeginInvocation open_file src prof c of (go, c1) \<Rightarrow>
        if \<not> go then Ok c1
        else bindO (HandleTopLevelDecl R tops
               \<lparr>CostCounter = fst junk, Nonce = fst (snd junk), BarrierIdx = snd (snd junk), LVT = LiveVarTracker_new,
                ThePL = PL (Helper c1), Edits = [], Diags = []\<rparr>) (\<lambda>s.
             EndSourceFileAction Buffer (Edits s)
               (c1\<lparr>ccDiags := ccDiags c1 @ Diags s, Helper := (Helper c1)\<lparr>PL := ThePL s\<rparr>\<rparr>)))"

text \<open>The destructor writes the profiles, if there is a place for them.\<close>

definition OutputHelper_delete :: "yaml_lib \<Rightarrow> output_helper \<Rightarrow> (string \<times> ynode) option" where
  "OutputHelper_delete L h = map_option (\<lambda>f. (f, write_profiles L (PL h))) (YOut h)"

text \<open>A kernel that is traversed and has a \<open>switch\<close> somewhere.\<close>

fun switching :: "top \<Rightarrow> bool" where
  "switching (Func FD) = (fd_kernel FD \<and> fd_params FD \<noteq> [] \<and> (\<exists>b. fd_body FD = Some b \<and> has_switch_any (snd b)))"
| "switching (TopDecl x) = has_switch x"

lemma TraverseFunctionDecl_diags:
  assumes "TraverseFunctionDecl R FD s = Ok (ok, s')"
  shows "set (Diags s) \<subseteq> set (Diags s') \<and> (switching (Func FD) \<longrightarrow> switch_error \<in> set (Diags s'))"
proof (cases "fd_kernel FD \<and> fd_params FD \<noteq> [] \<and> fd_body FD \<noteq> None")
  case True
  then obtain body xs where f: "fd_kernel FD" "fd_params FD \<noteq> []" "fd_body FD = Some (body, xs)" by auto
  obtain s5 s6 where b: "traverse_all R (map param_ast (fd_params FD) @ [Compound body xs]) s5 = Ok (ok, s6)"
     "Diags s5 = Diags s" "Diags s' = Diags s6"
    using TraverseFunctionDecl_body [OF assms f] by blast
  from traverse_grown(2) [OF b(1)] show ?thesis
    using b(2,3) f by (auto simp: grown_def params_plain)
next
  case False
  then have f: "\<not> switching (Func FD)" "fd_kernel FD \<Longrightarrow> fd_params FD \<noteq> [] \<Longrightarrow> fd_body FD = None"
    by (auto simp del: not_None_eq)
  from f(2) have "set (Diags s) \<subseteq> set (Diags s')"
    using assms by (auto simp: TraverseFunctionDecl_def DiagReport_def add_edit_def split: if_splits)
  then show ?thesis using f(1) by blast
qed

lemma HandleTopLevelDecl_diags:
  "HandleTopLevelDecl R ds s = Ok s' \<Longrightarrow> set (Diags s) \<subseteq> set (Diags s') \<and>
     ((\<exists>d \<in> set ds. switching d) \<longrightarrow> switch_error \<in> set (Diags s'))"
proof (induction R ds s arbitrary: s' rule: HandleTopLevelDecl.induct)
  case (2 R FD ds s)
  then obtain ok s1 where s1: "TraverseFunctionDecl R FD s = Ok (ok, s1)" "HandleTopLevelDecl R ds s1 = Ok s'" by auto
  show ?case using TraverseFunctionDecl_diags [OF s1(1)] "2.IH" [OF s1(2)] by (auto simp del: switching.simps)
next
  case (3 R x ds s)
  then obtain ok s1 where s1: "traverse R x s = Ok (ok, s1)" "HandleTopLevelDecl R ds s1 = Ok s'" by auto
  show ?case using traverse_grown(1) [OF s1(1)] "3.IH" [OF s1(2)] by (auto simp: grown_def)
qed simp

text \<open>What the traversal of a declaration relies on.\<close>

fun sound_top :: "top \<Rightarrow> bool" where
  "sound_top (Func FD) \<longleftrightarrow> (fd_kernel FD \<and> fd_params FD \<noteq> [] \<longrightarrow>
     (\<forall>body xs. fd_body FD = Some (body, xs) \<longrightarrow> (\<forall>i. getBlock (fd_flow FD) i \<noteq> None) \<and>
        (\<forall>P \<in> set (fd_params FD). vd_space (p_var P) \<noteq> other_space) \<and> known_spaces_all xs))"
| "sound_top (TopDecl x) \<longleftrightarrow> events x = []"

lemma params_known: "known_spaces_all (map param_ast ps @ xs) = ((\<forall>P \<in> set ps. vd_space (p_var P) \<noteq> other_space) \<and> known_spaces_all xs)"
  by (induction ps) (auto simp: param_ast_def)

lemma TraverseFunctionDecl_returns:
  assumes "sound_top (Func FD)" and "shows_calls R"
  shows "\<exists>ok s'. TraverseFunctionDecl R FD s = Ok (ok, s') \<and> (\<not> switching (Func FD) \<longrightarrow> errors s' = errors s)"
proof (cases "\<exists>body xs. fd_kernel FD \<and> fd_params FD \<noteq> [] \<and> fd_body FD = Some (body, xs)")
  case True
  then obtain body xs where f: "fd_kernel FD" "fd_params FD \<noteq> []" "fd_body FD = Some (body, xs)" by blast
  let ?s1 = "add_edit (InsertTextAfterToken (EndOf (p_id (last (fd_params FD)))) (Text CLPKMParam)) s"
  obtain Locfefe KP where g: "GenerateLocfefe (CollectLocal R (Edits ?s1) xs) (map (vd_name \<circ> p_var) (fd_params FD))
       ((KernelProfile_new (fd_name FD) (length (fd_params FD)))\<lparr>LocPtrParamIdx := LocalParamIdx (fd_params FD)\<rparr>) = (Locfefe, KP)"
    by fastforce
  let ?s4 = "add_edit (InsertTextBefore (EndOf body) (Text (Epilogue Locfefe)))
      (add_edit (InsertTextAfterToken (StartOf body)
         (Text (Prologue FD (LocalParamIdx (fd_params FD)) (count_barriers_all xs) Locfefe))) (?s1\<lparr>ThePL := ThePL ?s1 @ [KP]\<rparr>))"
  let ?s5 = "?s4\<lparr>LVT := SetContext (fd_flow FD) (LVT ?s4), CostCounter := 0, Nonce := 1, BarrierIdx := 0\<rparr>"
  have known: "known_spaces_all (map param_ast (fd_params FD) @ [Compound body xs])"
    using assms(1) f by (simp add: params_known)
  have "ready ?s5" using assms(1) f by (auto simp: ready_def add_edit_def SetContext_def EndContext_def)
  from traverse_returns(2) [OF this assms(2) known]
  obtain ok s6 where t: "traverse_all R (map param_ast (fd_params FD) @ [Compound body xs]) ?s5 = Ok (ok, s6)"
    "\<not> has_switch_any xs \<longrightarrow> ok \<and> errors s6 = errors ?s5"
    by (auto simp only: params_plain has_switch.simps has_switch_any.simps)
  then show ?thesis using f
    by (simp add: TraverseFunctionDecl_def g Let_def del: traverse.simps traverse_all.simps)
next
  case False
  then have f: "fd_kernel FD \<Longrightarrow> fd_params FD \<noteq> [] \<Longrightarrow> fd_body FD = None" by (metis not_None_eq surj_pair)
  then show ?thesis
    by (cases "fd_kernel FD"; cases "fd_params FD = []") (auto simp: TraverseFunctionDecl_def)
qed

lemma HandleTopLevelDecl_returns:
  assumes "shows_calls R"
  shows "\<forall>d \<in> set ds. sound_top d \<Longrightarrow>
     \<exists>s'. HandleTopLevelDecl R ds s = Ok s' \<and> ((\<forall>d \<in> set ds. \<not> switching d) \<longrightarrow> errors s' = errors s)"
proof (induction ds arbitrary: s)
  case (Cons d ds)
  obtain s1 where s1: "HandleTopLevelDecl R (d # ds) s = HandleTopLevelDecl R ds s1" "\<not> switching d \<longrightarrow> errors s1 = errors s"
  proof (cases d)
    case (Func FD)
    then have "sound_top (Func FD)" using Cons.prems by simp
    from TraverseFunctionDecl_returns [OF this assms, of s]
    obtain ok s1 where "TraverseFunctionDecl R FD s = Ok (ok, s1)" "\<not> switching (Func FD) \<longrightarrow> errors s1 = errors s" by blast
    then show ?thesis using that [of s1] Func by simp
  next
    case (TopDecl x)
    then have "events x = []" using Cons.prems by simp
    from traverse_calm(1) [OF this, of R s]
    obtain ok s1 where "traverse R x s = Ok (ok, s1)" "\<not> has_switch x \<longrightarrow> errors s1 = errors s" by blast
    then show ?thesis using that [of s1] TopDecl by simp
  qed
  show ?case using Cons.IH [of s1] Cons.prems s1 by auto
qed simp

lemma RunAction_sound:
  assumes "\<forall>f. open_file f = None" and "shows_calls R" and "\<forall>d \<in> set tops. sound_top d"
  shows "\<exists>c' es. RunAction open_file src prof R Buffer junk tops cc_new = Ok c' \<and>
     ((\<forall>d \<in> set tops. \<not> switching d) \<longrightarrow> Written c' = [(if src = [] then Stdout else File src, Buffer es)])"
proof -
  obtain c1 where b: "BeginInvocation open_file src prof cc_new = (True, c1)" "ccDiags c1 = []" "Written c1 = []"
    "SOut (Helper c1) = Some (if src = [] then Stdout else File src)"
    using assms(1) by (auto simp: BeginInvocation_def Initialize_def cc_new_def OutputHelper_new_def Let_def)
  let ?s = "\<lparr>CostCounter = fst junk, Nonce = fst (snd junk), BarrierIdx = snd (snd junk), LVT = LiveVarTracker_new,
                ThePL = PL (Helper c1), Edits = [], Diags = []\<rparr>"
  obtain s where s: "HandleTopLevelDecl R tops ?s = Ok s" "(\<forall>d \<in> set tops. \<not> switching d) \<longrightarrow> errors s = errors ?s"
    using HandleTopLevelDecl_returns [OF assms(2,3), of ?s] by blast
  let ?c = "c1\<lparr>ccDiags := Diags s, Helper := (Helper c1)\<lparr>PL := ThePL s\<rparr>\<rparr>"
  have run: "RunAction open_file src prof R Buffer junk tops cc_new = EndSourceFileAction Buffer (Edits s) ?c"
    by (simp add: RunAction_def b s(1))
  show ?thesis
  proof (cases "\<exists>d \<in> set (Diags s). is_error d")
    case True
    then have "(\<forall>d \<in> set tops. \<not> switching d) = False" using s(2) by (auto simp: errors_def filter_empty_conv)
    then show ?thesis using True by (simp add: run EndSourceFileAction_def b)
  qed (auto simp: run EndSourceFileAction_def b)
qed

section \<open>Properties\<close>

text \<open>
  C32. Every checkpoint gets its own label. In a kernel without \<open>switch\<close>, the checkpoints are
  one per barrier and one per loop that can repeat, in the order of the traversal; they are
  labelled 2, 3, \<open>\<dots>\<close> without gaps, so none is 0 (finished) or 1 (not started) and no two
  resume at the same place; the barriers use the counters 0, 1, \<open>\<dots>\<close> and there are as many as
  the prologue declares; and a loop is charged for its own statements only, those of inner
  loops being charged there.
\<close>

theorem checkpoints_labelled:
  assumes "TraverseFunctionDecl R FD s = Ok (ok, s')" and "fd_kernel FD" and "fd_params FD \<noteq> []"
    and "fd_body FD = Some (body, xs)" and "\<not> has_switch_any xs"
  shows "ok \<and> (\<exists>u. Edits s' = Edits s @ u \<and> marks u = stamp 1 0 (events_all xs) \<and>
     map label_of (marks u) = [2 ..< 2 + length (events_all xs)] \<and>
     concat (map index_of (marks u)) = [0 ..< count_barriers_all xs] \<and>
     (\<exists>Locfefe. InsertTextAfterToken (StartOf body)
        (Text (Prologue FD (LocalParamIdx (fd_params FD)) (count_barriers_all xs) Locfefe)) \<in> set u))"
proof -
  obtain Locfefe KP s5 s6 pre where b: "traverse_all R (map param_ast (fd_params FD) @ [Compound body xs]) s5 = Ok (ok, s6)"
     "Nonce s5 = 1" "BarrierIdx s5 = 0"
     "Edits s5 = Edits s @ pre @ [InsertTextAfterToken (StartOf body)
         (Text (Prologue FD (LocalParamIdx (fd_params FD)) (count_barriers_all xs) Locfefe)),
       InsertTextBefore (EndOf body) (Text (Epilogue Locfefe))]" "marks pre = []"
     "Edits s' = Edits s6 @ [InsertTextBefore (StartOf (fd_id FD)) (Text (ReqSizeDeclStr FD (last (ThePL s6))))]"
    using TraverseFunctionDecl_body [OF assms(1-4)] by blast
  have ok: "ok" and adv: "advanced (events_all xs) (own_costs (map param_ast (fd_params FD) @ [Compound body xs])) s5 s6"
    using traverse_advanced(2) [OF _ b(1)] assms(5) by (auto simp: params_plain)
  obtain u where u: "Edits s6 = Edits s5 @ u" "marks u = stamp 1 0 (events_all xs)"
    using adv b(2,3) by (auto simp: advanced_def)
  let ?u = "pre @ [InsertTextAfterToken (StartOf body)
         (Text (Prologue FD (LocalParamIdx (fd_params FD)) (count_barriers_all xs) Locfefe)),
       InsertTextBefore (EndOf body) (Text (Epilogue Locfefe))] @ u @
       [InsertTextBefore (StartOf (fd_id FD)) (Text (ReqSizeDeclStr FD (last (ThePL s6))))]"
  have "marks ?u = stamp 1 0 (events_all xs)" using u(2) b(5) by simp
  moreover have "Edits s' = Edits s @ ?u" by (simp add: b(4,6) u(1))
  ultimately show ?thesis
    using ok stamp_labels [of 1 0 "events_all xs"] barrier_events_count(2) [OF assms(5)]
    by (intro conjI exI [of _ ?u] exI [of _ Locfefe]) (simp_all add: numeral_2_eq_2)
qed


text \<open>
  C34. A program with an unsupported \<open>switch\<close> yields no source. If a kernel that would be
  instrumented has a \<open>switch\<close> anywhere in its body, even inside a loop, whose traversal
  ignores that its body was refused, nothing is written for this translation unit.
\<close>

theorem switch_rejected:
  assumes "RunAction open_file src prof R Buffer junk tops c = Ok c'" and "\<exists>d \<in> set tops. switching d"
  shows "Written c' = Written c"
proof -
  obtain go c1 where b: "BeginInvocation open_file src prof c = (go, c1)" by fastforce
  have w: "Written c1 = Written c"
    using b by (auto simp: BeginInvocation_def Let_def split: if_splits prod.splits)
  show ?thesis
  proof (cases go)
    case True
    let ?s = "\<lparr>CostCounter = fst junk, Nonce = fst (snd junk), BarrierIdx = snd (snd junk), LVT = LiveVarTracker_new,
                ThePL = PL (Helper c1), Edits = [], Diags = []\<rparr>"
    obtain s where s: "HandleTopLevelDecl R tops ?s = Ok s"
      "EndSourceFileAction Buffer (Edits s) (c1\<lparr>ccDiags := ccDiags c1 @ Diags s, Helper := (Helper c1)\<lparr>PL := ThePL s\<rparr>\<rparr>) = Ok c'"
      using assms(1) True by (auto simp: RunAction_def b)
    have "switch_error \<in> set (Diags s)" using HandleTopLevelDecl_diags [OF s(1)] assms(2) by simp
    then have "\<exists>d \<in> set (ccDiags c1 @ Diags s). is_error d" by force
    then show ?thesis using s(2) w by (auto simp: EndSourceFileAction_def split: if_splits)
  qed (use assms(1) b w in \<open>simp add: RunAction_def\<close>)
qed


section \<open>A kernel for the witnesses\<close>

definition demo_param :: param where
  "demo_param = \<lparr>p_id = 10, p_var = demo_var, p_type = ''__local int *'', p_local_ptr = True\<rparr>"

definition demo_body :: "ast list" where
  "demo_body = [Call 1 (Some ''barrier'') [Other 2 []], Loop 3 NotConstant 4 True [Other 5 [], Compound 4 [Call 6 (Some ''f'') []]]]"

definition demo_kernel_decl :: "ast list \<Rightarrow> FunctionDecl" where
  "demo_kernel_decl xs = \<lparr>fd_id = 20, fd_name = ''k'', fd_kernel = True, fd_params = [demo_param],
     fd_body = Some (21, xs), fd_flow = demo_flow\<rparr>"

definition demo_rewriter :: rewriter where
  "demo_rewriter es p = ''barrier(0)''"

definition demo_inst :: inst where
  "demo_inst = \<lparr>CostCounter = 0, Nonce = 0, BarrierIdx = 0, LVT = LiveVarTracker_new, ThePL = [], Edits = [], Diags = []\<rparr>"

lemma demo_supported:
  "shows_calls demo_rewriter" "sound_top (Func (demo_kernel_decl demo_body))" "\<not> switching (Func (demo_kernel_decl demo_body))"
  "sound_top (Func (demo_kernel_decl [Loop 3 NotConstant 4 True [Compound 4 [Switch 6 []]]]))"
  by (simp_all add: shows_calls_def demo_rewriter_def demo_kernel_decl_def demo_flow_def demo_param_def demo_var_def demo_body_def)

lemma demo_instrumented:
  obtains ok s' where "TraverseFunctionDecl demo_rewriter (demo_kernel_decl demo_body) demo_inst = Ok (ok, s')"
  using TraverseFunctionDecl_returns [OF demo_supported(2,1)] by blast

lemma checkpoints_labelled_witness:
  "\<exists>s' u. TraverseFunctionDecl demo_rewriter (demo_kernel_decl demo_body) demo_inst = Ok (True, s') \<and> Edits s' = u \<and>
     marks u = [BarrierMark 0 2, LoopMark 4 3]"
proof -
  obtain ok s' where run: "TraverseFunctionDecl demo_rewriter (demo_kernel_decl demo_body) demo_inst = Ok (ok, s')"
    by (rule demo_instrumented)
  have "stamp 1 0 (events_all demo_body) = [BarrierMark 0 2, LoopMark 4 3]" by (simp add: demo_body_def numeral_2_eq_2 numeral_3_eq_3)
  then show ?thesis
    using checkpoints_labelled [OF run, of 21 demo_body] run
    by (auto simp: demo_kernel_decl_def demo_body_def demo_inst_def)
qed


lemma switch_rejected_witness:
  "\<exists>c'. RunAction (\<lambda>_. None) [] [] demo_rewriter (\<lambda>_. ''text'') (0, 0, 0)
     [Func (demo_kernel_decl [Loop 3 NotConstant 4 True [Compound 4 [Switch 6 []]]])] cc_new = Ok c' \<and> Written c' = []"
proof -
  let ?tops = "[Func (demo_kernel_decl [Loop 3 NotConstant 4 True [Compound 4 [Switch 6 []]]])]"
  have sound: "\<forall>d \<in> set ?tops. sound_top d" using demo_supported(4) by (simp del: sound_top.simps)
  obtain c' where run: "RunAction (\<lambda>_. None) [] [] demo_rewriter (\<lambda>_. ''text'') (0, 0, 0) ?tops cc_new = Ok c'"
    using RunAction_sound [OF _ demo_supported(1) sound, of "\<lambda>_. None" "[]" "[]" "\<lambda>_. ''text''" "(0, 0, 0)"] by blast
  have "Written c' = Written cc_new" by (rule switch_rejected [OF run]) (simp add: demo_kernel_decl_def)
  then show ?thesis using run by (simp add: cc_new_def)
qed


end
