(* ===== verification/Names.thy ===== *)
theory Names
  imports Profile
begin

text \<open>
  Generated names. The source tools number what they generate, so that no two generated names
  clash: the rename list its variables, the inliner its labels. The contract of such a
  supply is a locale; \<open>Rename\<close> and \<open>Inliner\<close> interpret it on their names.
\<close>

locale name_supply =
  fixes name :: "nat \<Rightarrow> 'a \<Rightarrow> string"
    and valid :: "nat \<Rightarrow> bool"
  assumes name_inject: "valid m \<Longrightarrow> valid n \<Longrightarrow> name m v = name n w \<Longrightarrow> m = n"
begin

text \<open>Names with consecutive numbers from \<open>k\<close> on.\<close>

definition numbered :: "nat \<Rightarrow> string list \<Rightarrow> bool" where
  "numbered k xs \<longleftrightarrow> (\<forall>i < length xs. valid (k + i) \<and> (\<exists>v. xs ! i = name (k + i) v))"

lemma numbered_empty [simp]: "numbered k []"
  by (simp add: numbered_def)

lemma numbered_snoc:
  assumes "numbered k xs" and "valid (k + length xs)"
  shows "numbered k (xs @ [name (k + length xs) v])"
  using assms by (auto simp: numbered_def nth_append less_Suc_eq)

lemma numbered_distinct:
  assumes "numbered k xs"
  shows "distinct xs"
  unfolding distinct_conv_nth
proof (intro allI impI)
  fix i j
  assume ij: "i < length xs" "j < length xs" "i \<noteq> j"
  obtain v where v: "valid (k + i)" "xs ! i = name (k + i) v" using assms ij(1) unfolding numbered_def by blast
  obtain w where w: "valid (k + j)" "xs ! j = name (k + j) w" using assms ij(2) unfolding numbered_def by blast
  show "xs ! i \<noteq> xs ! j" using name_inject [of "k + i" "k + j" v w] v w ij(3) by auto
qed

end

end
