(* ===== verification/Inliner.thy ===== *)
theory Inliner
  imports Names "HOL-Library.Multiset"
begin

text \<open>
  The inliner, \<open>inliner/Main.cpp\<close>: it collects the calls and the \<open>return\<close> statements of every
  function, then replaces each call of a function with a body by a statement expression,
  innermost calls and callees first, and refuses recursion.

  Clang owns the tree and the rewriter: a tree is what \<open>RecursiveASTVisitor\<close> shows, and what
  the rewriter reads at a place after a list of edits is the parameter \<open>Rewritten\<close>. Functions,
  calls, parameters and arguments are numbers. Hash maps are association lists; which entry
  \<open>begin\<close> yields is the parameter \<open>first\<close>.
\<close>

section \<open>Programs\<close>

text \<open>
  What Clang knows of a declaration of a function: whether one of its declarations has a
  body, which one that is, and its return type.
\<close>

record func =
  fn_name :: string
  fn_body :: bool
  fn_def :: nat
  fn_void :: bool
  fn_ret :: string
  fn_params :: "nat list"

type_synonym funcs = "nat \<Rightarrow> func"

record CallExpr =
  ce_id :: nat
  ce_callee :: "nat option"
  ce_args :: "nat list"

datatype xast = XCall CallExpr "xast list" | XReturn nat "xast list" | XGoto | XNode "xast list"

datatype idiag = INote string | IError string

datatype rrange = BodyRange nat | Between nat "nat option" "nat option" | RetValue nat | ParamRange nat | ArgRange nat

type_synonym 'a table = "(nat \<times> 'a) list"

record inliner =
  CST :: "CallExpr list table"
  RST :: "nat list table"
  CC :: "string list table"
  inlNonce :: nat
  inlEdits :: "(nat \<times> string) list"
  inlDiags :: "idiag list"

definition inliner_new :: inliner where
  "inliner_new = \<lparr>CST = [], RST = [], CC = [], inlNonce = 0, inlEdits = [], inlDiags = []\<rparr>"

text \<open>\<open>T[f].emplace_back(x)\<close>.\<close>

fun emplace_back :: "nat \<Rightarrow> 'a \<Rightarrow> 'a list table \<Rightarrow> 'a list table" where
  "emplace_back f x [] = [(f, [x])]"
| "emplace_back f x ((g, ys) # T) = (if g = f then (g, ys @ [x]) # T else (g, ys) # emplace_back f x T)"

definition table_erase :: "nat \<Rightarrow> 'a table \<Rightarrow> 'a table" where
  "table_erase f T = filter (\<lambda>(g, _). g \<noteq> f) T"

definition inlReport :: "idiag \<Rightarrow> inliner \<Rightarrow> inliner" where
  "inlReport d s = s\<lparr>inlDiags := inlDiags s @ [d]\<rparr>"

section \<open>Collecting calls\<close>

text \<open>The visitors of \<open>Extractor\<close>; \<open>F\<close> is \<open>TheFunction\<close>.\<close>

definition VisitGotoStmt :: "inliner \<Rightarrow> bool \<times> inliner" where
  "VisitGotoStmt s = (False, inlReport (IError ''goto is not supported'') s)"

definition Extractor_VisitReturnStmt :: "nat option \<Rightarrow> nat \<Rightarrow> inliner \<Rightarrow> inliner outcome" where
  "Extractor_VisitReturnStmt F r s = (case F of None \<Rightarrow> Abort | Some f \<Rightarrow> Ok (s\<lparr>RST := emplace_back f r (RST s)\<rparr>))"

definition Extractor_VisitCallExpr :: "nat option \<Rightarrow> CallExpr \<Rightarrow> inliner \<Rightarrow> inliner outcome" where
  "Extractor_VisitCallExpr F CE s = (case F of None \<Rightarrow> Abort | Some f \<Rightarrow> Ok (s\<lparr>CST := emplace_back f CE (CST s)\<rparr>))"

fun collect :: "nat option \<Rightarrow> xast \<Rightarrow> inliner \<Rightarrow> (bool \<times> inliner) outcome"
  and collect_all :: "nat option \<Rightarrow> xast list \<Rightarrow> inliner \<Rightarrow> (bool \<times> inliner) outcome" where
  "collect F (XCall CE xs) s = bindO (Extractor_VisitCallExpr F CE s) (collect_all F xs)"
| "collect F (XReturn r xs) s = bindO (Extractor_VisitReturnStmt F r s) (collect_all F xs)"
| "collect F XGoto s = Ok (VisitGotoStmt s)"
| "collect F (XNode xs) s = collect_all F xs s"
| "collect_all F [] s = Ok (True, s)"
| "collect_all F (x # xs) s = bindO (collect F x s) (\<lambda>(ok, s'). if ok then collect_all F xs s' else Ok (False, s'))"

text \<open>A function is traversed with \<open>TheFunction\<close> set; what its traversal answers is dropped.\<close>

datatype xtop = XFunc nat "xast list" | XDecl xast

fun Extractor_TraverseDecl :: "xtop \<Rightarrow> inliner \<Rightarrow> inliner outcome" where
  "Extractor_TraverseDecl (XFunc f xs) s = bindO (collect_all (Some f) xs s) (\<lambda>(_, s'). Ok s')"
| "Extractor_TraverseDecl (XDecl x) s = bindO (collect None x s) (\<lambda>(_, s'). Ok s')"

fun Extractor_HandleTopLevelDecl :: "xtop list \<Rightarrow> inliner \<Rightarrow> inliner outcome" where
  "Extractor_HandleTopLevelDecl [] s = Ok s"
| "Extractor_HandleTopLevelDecl (d # ds) s = bindO (Extractor_TraverseDecl d s) (Extractor_HandleTopLevelDecl ds)"

section \<open>Snippets\<close>

type_synonym rewritten = "(nat \<times> string) list \<Rightarrow> rrange \<Rightarrow> string"

text \<open>
  The body of a function, cut at its \<open>return\<close> statements: the text before each, the returned
  expression, and in the end the rest.
\<close>

fun snippet_pieces :: "(rrange \<Rightarrow> string) \<Rightarrow> nat \<Rightarrow> nat option \<Rightarrow> nat list \<Rightarrow> string list" where
  "snippet_pieces R f Front [] = [R (Between f Front None)]"
| "snippet_pieces R f Front (r # rs) = R (Between f Front (Some r)) # R (RetValue r) # snippet_pieces R f (Some r) rs"

definition MakeSnippet :: "(rrange \<Rightarrow> string) \<Rightarrow> nat \<Rightarrow> nat list option \<Rightarrow> string list" where
  "MakeSnippet R f rets = (case rets of None \<Rightarrow> [R (BodyRange f)] | Some rs \<Rightarrow> snippet_pieces R f None rs)"

text \<open>
  Pasting: each \<open>return\<close> becomes an assignment and a jump. The iterator runs past the end if
  the number of pieces is even.
\<close>

fun PatchReturns :: "bool \<Rightarrow> string \<Rightarrow> string \<Rightarrow> string list \<Rightarrow> string outcome" where
  "PatchReturns void RetVar ExitLabel [] = Crash"
| "PatchReturns void RetVar ExitLabel [x] = Ok x"
| "PatchReturns void RetVar ExitLabel (x # e # xs) =
     bindO (PatchReturns void RetVar ExitLabel xs) (\<lambda>tail.
       Ok (x @ '' do { '' @ (if void then [] else RetVar @ '' = '' @ e @ ''; '') @
           '' goto '' @ ExitLabel @ ''; } while (0)'' @ tail))"

text \<open>The parameters, the last one first; there must be an argument for each.\<close>

fun PrependArgs :: "(rrange \<Rightarrow> string) \<Rightarrow> nat list \<Rightarrow> nat list \<Rightarrow> string \<Rightarrow> string outcome" where
  "PrependArgs R [] as Replace = Ok Replace"
| "PrependArgs R (p # ps) [] Replace = Crash"
| "PrependArgs R (p # ps) (a # as) Replace =
     PrependArgs R ps as (R (ParamRange p) @ '' = '' @ R (ArgRange a) @ ''; '' @ Replace)"

definition ExitLabel_of :: "nat \<Rightarrow> string" where
  "ExitLabel_of n = ''__CLPKM_EXIT_'' @ dec n"

definition RetVar_of :: "nat \<Rightarrow> string" where
  "RetVar_of n = '' __clpkm_ret_'' @ dec n"

definition ExpandCall :: "rewritten \<Rightarrow> func \<Rightarrow> CallExpr \<Rightarrow> string list \<Rightarrow> inliner \<Rightarrow> inliner outcome" where
  "ExpandCall R Callee CE Snippet s =
     (let ExitLabel = ExitLabel_of (inlNonce s); RetVar = RetVar_of (inlNonce s + 1) in
      bindO (PatchReturns (fn_void Callee) RetVar ExitLabel Snippet) (\<lambda>Replace.
      bindO (PrependArgs (R (inlEdits s)) (fn_params Callee) (ce_args CE) Replace) (\<lambda>Replace.
      let Replace = (if fn_void Callee then Replace @ ExitLabel @ '': ; ''
                     else fn_ret Callee @ RetVar @ ''; '' @ Replace @ ExitLabel @ '': '' @ RetVar @ ''; '')
      in Ok (s\<lparr>inlNonce := inlNonce s + 2,
               inlEdits := inlEdits s @ [(ce_id CE, '' ({ __label__ '' @ ExitLabel @ ''; '' @ Replace @ '' }) '')]\<rparr>))))"

section \<open>Inlining\<close>

text \<open>
  The recursion is bounded by fuel; \<open>None\<close> says that it ran out. A loop that calls \<open>GenCodeSnippet\<close>
  takes it as a parameter.
\<close>

definition bindX :: "'a outcome option \<Rightarrow> ('a \<Rightarrow> 'b outcome option) \<Rightarrow> 'b outcome option" where
  "bindX x f = (case x of None \<Rightarrow> None
     | Some (Ok a) \<Rightarrow> f a | Some (Throw e) \<Rightarrow> Some (Throw e) | Some Abort \<Rightarrow> Some Abort | Some Crash \<Rightarrow> Some Crash)"

lemma bindX_simps [simp]:
  "bindX None f = None" "bindX (Some (Ok a)) f = f a"
  by (simp_all add: bindX_def)

type_synonym inline_fun = "nat \<Rightarrow> nat list \<Rightarrow> inliner \<Rightarrow> (bool \<times> inliner) outcome option"

definition GenCodeSnippet :: "rewritten \<Rightarrow> inline_fun \<Rightarrow> inline_fun" where
  "GenCodeSnippet R Inline FuncDecl CallChain s =
     (if map_of (CC s) FuncDecl \<noteq> None then Some (Ok (True, s))
      else bindX (if map_of (CST s) FuncDecl \<noteq> None then Inline FuncDecl CallChain s else Some (Ok (True, s)))
        (\<lambda>(ok, s'). if \<not> ok then Some (Ok (False, s'))
           else Some (Ok (True, s'\<lparr>CC := (FuncDecl, MakeSnippet (R (inlEdits s')) FuncDecl (map_of (RST s') FuncDecl)) # CC s'\<rparr>))))"

fun InlineCalls :: "funcs \<Rightarrow> rewritten \<Rightarrow> inline_fun \<Rightarrow> nat list \<Rightarrow> CallExpr list \<Rightarrow> inliner \<Rightarrow> (bool \<times> inliner) outcome option" where
  "InlineCalls P R Gen CallChain [] s = Some (Ok (True, s))"
| "InlineCalls P R Gen CallChain (CE # CEs) s =
     (case ce_callee CE of None \<Rightarrow> Some Crash
      | Some Callee \<Rightarrow>
          if \<not> fn_body (P Callee) then InlineCalls P R Gen CallChain CEs s
          else bindX (Gen (fn_def (P Callee)) CallChain s) (\<lambda>(ok, s').
            if \<not> ok then Some (Ok (False, s'))
            else (case map_of (CC s') (fn_def (P Callee)) of None \<Rightarrow> Some Abort
              | Some Snippet \<Rightarrow>
                  bindX (Some (ExpandCall R (P (fn_def (P Callee))) CE Snippet s')) (InlineCalls P R Gen CallChain CEs))))"

text \<open>The functions called since \<open>FuncDecl\<close>, from the end of the chain back.\<close>

definition chain_text :: "funcs \<Rightarrow> nat list \<Rightarrow> nat \<Rightarrow> string" where
  "chain_text P CallChain f = concat (map (\<lambda>g. fn_name (P g) @ '' -> '') (rev (takeWhile (\<lambda>g. g \<noteq> f) (rev CallChain))))"

abbreviation recursion_error :: idiag where
  "recursion_error \<equiv> IError ''recursion detected''"

fun PerformInline :: "funcs \<Rightarrow> rewritten \<Rightarrow> nat \<Rightarrow> inline_fun" where
  "PerformInline P R 0 FuncDecl CallChain s = None"
| "PerformInline P R (Suc n) FuncDecl CallChain s =
     (if \<not> fn_body (P FuncDecl) then Some (Ok (True, inlReport (INote ''skipping declaration'') s))
      else if FuncDecl \<in> set CallChain
      then Some (Ok (False, inlReport (INote (''call chain: '' @ fn_name (P FuncDecl) @ '' -> '' @
               chain_text P CallChain FuncDecl @ fn_name (P FuncDecl))) (inlReport recursion_error s)))
      else (case map_of (CST s) FuncDecl of None \<Rightarrow> Some (Ok (True, s))
        | Some CEs \<Rightarrow>
            bindX (InlineCalls P R (GenCodeSnippet R (PerformInline P R n)) (CallChain @ [FuncDecl]) (rev CEs) s) (\<lambda>(ok, s').
              if \<not> ok then Some (Ok (False, s')) else Some (Ok (True, s'\<lparr>CST := table_erase FuncDecl (CST s')\<rparr>)))))"

text \<open>The loop of \<open>ExecuteAction\<close>; each turn starts with an empty chain and gets fuel \<open>m\<close>.\<close>

fun InlineAll :: "funcs \<Rightarrow> rewritten \<Rightarrow> (CallExpr list table \<Rightarrow> nat) \<Rightarrow> nat \<Rightarrow> nat \<Rightarrow> inliner \<Rightarrow> inliner outcome option" where
  "InlineAll P R first m n s =
     (if CST s = [] then Some (Ok s)
      else case n of 0 \<Rightarrow> None
        | Suc n' \<Rightarrow> bindX (PerformInline P R m (first (CST s)) [] s) (\<lambda>(ok, s').
            if ok then InlineAll P R first m n' s' else Some (Ok s')))"

declare InlineAll.simps [simp del]

definition Inliner_ExecuteAction ::
  "funcs \<Rightarrow> rewritten \<Rightarrow> (CallExpr list table \<Rightarrow> nat) \<Rightarrow> nat \<Rightarrow> nat \<Rightarrow> xtop list \<Rightarrow> inliner outcome option" where
  "Inliner_ExecuteAction P R first m n tops =
     bindX (Some (Extractor_HandleTopLevelDecl tops inliner_new)) (\<lambda>s. InlineAll P R first m n (s\<lparr>inlNonce := 0\<rparr>))"

text \<open>The source is written unless an error was reported.\<close>

fun is_ierror :: "idiag \<Rightarrow> bool" where
  "is_ierror (IError msg) = True" | "is_ierror (INote msg) = False"

definition Inliner_EndSourceFileAction :: "((nat \<times> string) list \<Rightarrow> string) \<Rightarrow> inliner \<Rightarrow> string option" where
  "Inliner_EndSourceFileAction Buffer s =
     (if \<exists>d \<in> set (inlDiags s). is_ierror d then None else Some (Buffer (inlEdits s)))"

section \<open>The call graph\<close>

type_synonym call_pairs = "(nat \<times> CallExpr) multiset"

text \<open>A call that is inlined, and the function that is pasted there.\<close>

fun target :: "funcs \<Rightarrow> CallExpr \<Rightarrow> nat option" where
  "target P CE = (case ce_callee CE of None \<Rightarrow> None | Some c \<Rightarrow> if fn_body (P c) then Some (fn_def (P c)) else None)"

definition pairs :: "CallExpr list table \<Rightarrow> call_pairs" where
  "pairs T = (\<Sum>(f, CEs) \<leftarrow> T. mset (map (Pair f) CEs))"

definition graph_of :: "funcs \<Rightarrow> call_pairs \<Rightarrow> (nat \<times> nat) set" where
  "graph_of P M = {(f, g). \<exists>CE. (f, CE) \<in># M \<and> target P CE = Some g}"

definition inlinable :: "funcs \<Rightarrow> call_pairs \<Rightarrow> nat multiset" where
  "inlinable P M = image_mset (ce_id \<circ> snd) (filter_mset (\<lambda>p. target P (snd p) \<noteq> None) M)"

lemma pairs_simps [simp]:
  "pairs [] = {#}" "pairs ((f, CEs) # T) = mset (map (Pair f) CEs) + pairs T" "pairs (T @ T') = pairs T + pairs T'"
  by (simp_all add: pairs_def)

lemma pairs_iff: "(f, CE) \<in># pairs T \<longleftrightarrow> (\<exists>CEs. (f, CEs) \<in> set T \<and> CE \<in> set CEs)"
  by (induction T) auto

lemma inlinable_simps [simp]:
  "inlinable P {#} = {#}" "inlinable P (M + N) = inlinable P M + inlinable P N"
  "inlinable P (add_mset p M) = (if target P (snd p) = None then inlinable P M else add_mset (ce_id (snd p)) (inlinable P M))"
  by (auto simp: inlinable_def)

lemma graph_of_add: "graph_of P (add_mset (f, CE) M) = (case target P CE of None \<Rightarrow> {} | Some g \<Rightarrow> {(f, g)}) \<union> graph_of P M"
  unfolding graph_of_def by (cases "target P CE") (auto simp del: target.simps)

lemma pairs_emplace: "pairs (emplace_back f CE T) = add_mset (f, CE) (pairs T)"
  by (induction f CE T rule: emplace_back.induct) auto

lemma keys_emplace: "fst ` set (emplace_back f x T) = insert f (fst ` set T)"
  by (induction f x T rule: emplace_back.induct) auto

lemma distinct_emplace: "distinct (map fst T) \<Longrightarrow> distinct (map fst (emplace_back f x T))"
proof (induction f x T rule: emplace_back.induct)
  case (2 f x g ys T)
  have "g \<notin> fst ` set (emplace_back f x T)" if "g \<noteq> f" using 2(2) that by (simp add: keys_emplace)
  then show ?case using 2 by auto
qed simp

text \<open>What every call needs: a direct callee and, if it is inlined, an argument for each parameter.\<close>

definition call_ok :: "funcs \<Rightarrow> CallExpr \<Rightarrow> bool" where
  "call_ok P CE \<longleftrightarrow> ce_callee CE \<noteq> None \<and>
     (\<forall>g. target P CE = Some g \<longrightarrow> fn_body (P g) \<and> length (fn_params (P g)) \<le> length (ce_args CE))"

definition table_ok :: "funcs \<Rightarrow> CallExpr list table \<Rightarrow> bool" where
  "table_ok P T \<longleftrightarrow> distinct (map fst T) \<and> (\<forall>(f, CEs) \<in> set T. fn_body (P f) \<and> (\<forall>CE \<in> set CEs. call_ok P CE))"

section \<open>The order of inlining\<close>

text \<open>
  The functions inlined so far, the last one first: whatever a function calls was inlined
  before it or has no calls itself.
\<close>

fun topological :: "(nat \<times> nat) set \<Rightarrow> nat set \<Rightarrow> nat list \<Rightarrow> bool" where
  "topological E K [] \<longleftrightarrow> True"
| "topological E K (f # ord) \<longleftrightarrow> topological E K ord \<and> f \<in> K \<and> f \<notin> set ord \<and> (\<forall>g. (f, g) \<in> E \<longrightarrow> g \<in> set ord \<or> g \<notin> K)"

lemma topological_edge: "topological E K ord \<Longrightarrow> f \<in> set ord \<Longrightarrow> (f, g) \<in> E \<Longrightarrow> g \<in> set ord \<or> g \<notin> K"
  by (induction ord) auto

lemma topological_acyclic:
  assumes "topological E K ord" and "Domain E \<subseteq> set ord"
  shows "acyclic E"
proof (rule acyclicI_order)
  fix a b
  assume e: "(a, b) \<in> E"
  have rank: "length (dropWhile (\<lambda>x. x \<noteq> g) ord) < length (dropWhile (\<lambda>x. x \<noteq> f) ord)"
    if "topological E K ord" "f \<in> set ord" "(f, g) \<in> E" for ord f g
    using that
  proof (induction ord)
    case (Cons h ord)
    have "g \<noteq> h" using topological_edge [of E K ord f g] Cons.prems by auto
    moreover have "length (dropWhile (\<lambda>x. x \<noteq> g) ord) < Suc (length ord)"
      by (simp add: length_dropWhile_le less_Suc_eq_le)
    ultimately show ?case using Cons by auto
  qed simp
  show "length (dropWhile (\<lambda>x. x \<noteq> b) ord) < length (dropWhile (\<lambda>x. x \<noteq> a) ord)"
    using assms(2) e by (intro rank [OF assms(1) _ e]) auto
qed

lemma successively_rtrancl: "successively (\<lambda>a b. (a, b) \<in> E) (f # fs) \<Longrightarrow> (f, last (f # fs)) \<in> E\<^sup>*"
proof (induction fs arbitrary: f)
  case (Cons g fs)
  then have "(f, g) \<in> E" "(g, last (g # fs)) \<in> E\<^sup>*" by auto
  then show ?case by (simp add: converse_rtrancl_into_rtrancl)
qed simp

lemma chain_cycle:
  assumes "successively (\<lambda>a b. (a, b) \<in> E) Ch" and "f \<in> set Ch" and "(last Ch, f) \<in> E"
  shows "\<not> acyclic E"
proof -
  obtain as bs where Ch: "Ch = as @ f # bs" using assms(2) by (auto simp: in_set_conv_decomp)
  then have "(f, last (f # bs)) \<in> E\<^sup>*" using assms(1) by (intro successively_rtrancl) (simp add: successively_append_iff)
  then have "(f, f) \<in> E\<^sup>+" using assms(3) Ch by (simp add: rtrancl_into_trancl1)
  then show ?thesis by (auto simp: acyclic_def)
qed

section \<open>Labels\<close>

text \<open>What is pasted starts with the declaration of its exit label; every other number is one.\<close>

definition labelled_text :: "nat \<Rightarrow> string \<Rightarrow> string" where
  "labelled_text n t = '' ({ __label__ '' @ ExitLabel_of (2 * n) @ ''; '' @ t"

interpretation labels: name_supply labelled_text "\<lambda>_. True"
proof
  show "m = n" if "labelled_text m v = labelled_text n w" for m n v w
    using that by (auto simp: labelled_text_def ExitLabel_of_def dest!: dec_prefix_inject)
qed

definition labelled :: "inliner \<Rightarrow> bool" where
  "labelled s \<longleftrightarrow> inlNonce s = 2 * length (inlEdits s) \<and> labels.numbered 0 (map snd (inlEdits s))"

section \<open>Snippets are well formed\<close>

lemma odd_MakeSnippet [simp]: "odd (length (MakeSnippet R f rets))"
proof -
  have "odd (length (snippet_pieces R f Front rs))" for Front rs
    by (induction rs arbitrary: Front) auto
  then show ?thesis by (simp add: MakeSnippet_def split: option.splits)
qed

lemma PatchReturns_odd: "odd (length xs) \<Longrightarrow> \<exists>t. PatchReturns void v l xs = Ok t"
  by (induction void v l xs rule: PatchReturns.induct) auto

lemma PrependArgs_enough: "length ps \<le> length as \<Longrightarrow> \<exists>t. PrependArgs R ps as r = Ok t"
  by (induction R ps as r rule: PrependArgs.induct) auto

lemma ExpandCall_returns:
  assumes "odd (length sn)" and "length (fn_params F) \<le> length (ce_args CE)" and "labelled s"
  shows "\<exists>t. ExpandCall R F CE sn s = Ok (s\<lparr>inlNonce := inlNonce s + 2, inlEdits := inlEdits s @ [(ce_id CE, t)]\<rparr>) \<and>
     labelled (s\<lparr>inlNonce := inlNonce s + 2, inlEdits := inlEdits s @ [(ce_id CE, t)]\<rparr>)"
proof -
  let ?n = "length (inlEdits s)"
  have n: "inlNonce s = 2 * ?n" and num: "labels.numbered 0 (map snd (inlEdits s))" using assms(3) by (auto simp: labelled_def)
  obtain r where r: "PatchReturns (fn_void F) (RetVar_of (inlNonce s + 1)) (ExitLabel_of (inlNonce s)) sn = Ok r"
    using PatchReturns_odd [OF assms(1)] by blast
  obtain r' where "PrependArgs (R (inlEdits s)) (fn_params F) (ce_args CE) r = Ok r'"
    using PrependArgs_enough [OF assms(2)] by blast
  then have "\<exists>t. ExpandCall R F CE sn s = Ok (s\<lparr>inlNonce := inlNonce s + 2,
      inlEdits := inlEdits s @ [(ce_id CE, '' ({ __label__ '' @ ExitLabel_of (inlNonce s) @ ''; '' @ t)]\<rparr>)"
    unfolding ExpandCall_def Let_def r by (simp del: append.simps) blast
  then obtain t where "ExpandCall R F CE sn s = Ok (s\<lparr>inlNonce := inlNonce s + 2,
      inlEdits := inlEdits s @ [(ce_id CE, labelled_text ?n t)]\<rparr>)"
    by (auto simp: labelled_text_def n)
  moreover have "labels.numbered 0 (map snd (inlEdits s @ [(ce_id CE, labelled_text ?n t)]))"
    using labels.numbered_snoc [OF num, of t] by simp
  ultimately show ?thesis using n by (auto simp: labelled_def)
qed

section \<open>The invariant\<close>

abbreviation keys :: "inliner \<Rightarrow> nat set" where
  "keys s \<equiv> fst ` set (CST s)"

definition inl_inv :: "funcs \<Rightarrow> CallExpr list table \<Rightarrow> inliner \<Rightarrow> bool" where
  "inl_inv P T s \<longleftrightarrow>
     (\<exists>ord. CST s = filter (\<lambda>(f, _). f \<notin> set ord) T \<and> topological (graph_of P (pairs T)) (fst ` set T) ord) \<and>
     (\<forall>(f, sn) \<in> set (CC s). odd (length sn) \<and> f \<notin> keys s) \<and> labelled s"

text \<open>The replaced calls and those still to replace.\<close>

definition account :: "funcs \<Rightarrow> inliner \<Rightarrow> nat multiset" where
  "account P s = mset (map fst (inlEdits s)) + inlinable P (pairs (CST s))"

text \<open>A step that succeeded, and one that met a cycle.\<close>

definition advanced_to :: "funcs \<Rightarrow> CallExpr list table \<Rightarrow> nat list \<Rightarrow> inliner \<Rightarrow> inliner \<Rightarrow> bool" where
  "advanced_to P T Ch s s' \<longleftrightarrow> inl_inv P T s' \<and> set Ch \<subseteq> keys s' \<and> keys s' \<subseteq> keys s \<and>
     length (CST s') \<le> length (CST s) \<and> inlDiags s' = inlDiags s"

definition cyclic_at :: "funcs \<Rightarrow> CallExpr list table \<Rightarrow> inliner \<Rightarrow> bool" where
  "cyclic_at P T s' \<longleftrightarrow> \<not> acyclic (graph_of P (pairs T)) \<and> recursion_error \<in> set (inlDiags s')"

text \<open>\<open>Inline\<close>, run on \<open>f\<close>, answers and does its work if the call chain leads to \<open>f\<close>.\<close>

definition sound_run :: "funcs \<Rightarrow> CallExpr list table \<Rightarrow> inline_fun \<Rightarrow> nat \<Rightarrow> nat list \<Rightarrow> inliner \<Rightarrow> bool" where
  "sound_run P T Inline f Ch s \<longleftrightarrow>
     (\<exists>s'. Inline f Ch s = Some (Ok (True, s')) \<and> advanced_to P T Ch s s' \<and> f \<notin> keys s' \<and> account P s' = account P s) \<or>
     (\<exists>s'. Inline f Ch s = Some (Ok (False, s')) \<and> cyclic_at P T s')"

definition chain_ok :: "funcs \<Rightarrow> CallExpr list table \<Rightarrow> nat list \<Rightarrow> inliner \<Rightarrow> bool" where
  "chain_ok P T Ch s \<longleftrightarrow> distinct Ch \<and> set Ch \<subseteq> keys s \<and> successively (\<lambda>a b. (a, b) \<in> graph_of P (pairs T)) Ch"

lemma inl_inv_entries:
  assumes "inl_inv P T s" and "table_ok P T"
  shows "set (CST s) \<subseteq> set T" "distinct (map fst (CST s))" "map_of (CST s) f = Some CEs \<Longrightarrow> (f, CEs) \<in> set T"
proof -
  obtain ord where ord: "CST s = filter (\<lambda>(f, _). f \<notin> set ord) T" using assms(1) by (auto simp: inl_inv_def)
  then show sub: "set (CST s) \<subseteq> set T" by auto
  show "distinct (map fst (CST s))" using assms(2) ord by (simp add: table_ok_def distinct_map_filter)
  show "(f, CEs) \<in> set T" if "map_of (CST s) f = Some CEs" using map_of_SomeD [OF that] sub by auto
qed

lemma inl_inv_cong: "inl_inv P T s \<Longrightarrow> CST s' = CST s \<Longrightarrow> CC s' = CC s \<Longrightarrow> labelled s' \<Longrightarrow> inl_inv P T s'"
  by (simp add: inl_inv_def)

lemma advanced_to_refl: "inl_inv P T s \<Longrightarrow> chain_ok P T Ch s \<Longrightarrow> advanced_to P T Ch s s"
  by (simp add: advanced_to_def chain_ok_def)

lemma advanced_to_trans: "advanced_to P T Ch s s' \<Longrightarrow> advanced_to P T Ch s' s'' \<Longrightarrow> advanced_to P T Ch s s''"
  unfolding advanced_to_def
  by (elim conjE, intro conjI) (assumption | erule (1) subset_trans | erule (1) le_trans | simp)+

lemma chain_ok_advanced: "chain_ok P T Ch s \<Longrightarrow> advanced_to P T Ch s s' \<Longrightarrow> chain_ok P T Ch s'"
  by (auto simp: chain_ok_def advanced_to_def)

lemma chain_length:
  assumes "chain_ok P T Ch s"
  shows "length Ch \<le> length (CST s)"
proof -
  have "length Ch = card (set Ch)" using assms by (simp add: chain_ok_def distinct_card)
  also have "\<dots> \<le> card (keys s)" using assms by (intro card_mono) (auto simp: chain_ok_def)
  also have "\<dots> \<le> length (CST s)" using card_image_le [of "set (CST s)" fst] card_length [of "CST s"] by simp
  finally show ?thesis .
qed

definition sound_gen :: "funcs \<Rightarrow> CallExpr list table \<Rightarrow> inline_fun \<Rightarrow> nat \<Rightarrow> nat list \<Rightarrow> inliner \<Rightarrow> bool" where
  "sound_gen P T Gen f Ch s \<longleftrightarrow>
     (\<exists>s' sn. Gen f Ch s = Some (Ok (True, s')) \<and> advanced_to P T Ch s s' \<and> f \<notin> keys s' \<and> account P s' = account P s \<and>
        map_of (CC s') f = Some sn \<and> odd (length sn)) \<or>
     (\<exists>s'. Gen f Ch s = Some (Ok (False, s')) \<and> cyclic_at P T s')"

lemma GenCodeSnippet_sound:
  assumes inv: "inl_inv P T s" and ch: "chain_ok P T Ch s"
    and run: "f \<in> keys s \<Longrightarrow> sound_run P T Inline f Ch s"
  shows "sound_gen P T (GenCodeSnippet R Inline) f Ch s"
proof (cases "map_of (CC s) f")
  case (Some sn)
  then have "(f, sn) \<in> set (CC s)" by (rule map_of_SomeD)
  then have "odd (length sn)" "f \<notin> keys s" using inv by (auto simp: inl_inv_def)
  then show ?thesis
    using Some advanced_to_refl [OF inv ch] by (auto simp: sound_gen_def GenCodeSnippet_def)
next
  case None
  let ?first = "if map_of (CST s) f \<noteq> None then Inline f Ch s else Some (Ok (True, s))"
  have "(\<exists>s'. ?first = Some (Ok (True, s')) \<and> advanced_to P T Ch s s' \<and> f \<notin> keys s' \<and> account P s' = account P s) \<or>
     (\<exists>s'. ?first = Some (Ok (False, s')) \<and> cyclic_at P T s')"
  proof (cases "f \<in> keys s")
    case True
    then have "map_of (CST s) f \<noteq> None" by (simp add: map_of_eq_None_iff)
    then show ?thesis using run [OF True] by (simp add: sound_run_def)
  next
    case False
    then have "map_of (CST s) f = None" by (simp add: map_of_eq_None_iff)
    then show ?thesis using False advanced_to_refl [OF inv ch] by simp
  qed
  then show ?thesis
  proof (elim disjE exE conjE)
    fix s'
    assume ok: "?first = Some (Ok (True, s'))" and s': "advanced_to P T Ch s s'" "f \<notin> keys s'" "account P s' = account P s"
    let ?sn = "MakeSnippet (R (inlEdits s')) f (map_of (RST s') f)"
    let ?s = "s'\<lparr>CC := (f, ?sn) # CC s'\<rparr>"
    have "GenCodeSnippet R Inline f Ch s = Some (Ok (True, ?s))" unfolding GenCodeSnippet_def ok by (simp add: None)
    moreover have "advanced_to P T Ch s ?s" "account P ?s = account P s"
      using s' by (auto simp: advanced_to_def inl_inv_def account_def labelled_def)
    ultimately show ?thesis using s'(2) by (auto simp: sound_gen_def)
  next
    fix s'
    assume ok: "?first = Some (Ok (False, s'))" and "cyclic_at P T s'"
    moreover have "GenCodeSnippet R Inline f Ch s = Some (Ok (False, s'))" unfolding GenCodeSnippet_def ok by (simp add: None)
    ultimately show ?thesis by (auto simp: sound_gen_def)
  qed
qed

lemma target_callee: "target P CE = Some g \<Longrightarrow> \<exists>c. ce_callee CE = Some c \<and> fn_body (P c) \<and> g = fn_def (P c)"
  by (auto split: option.splits if_splits)

lemma InlineCalls_sound:
  assumes gen: "\<And>s CE g. inl_inv P T s \<Longrightarrow> chain_ok P T Ch s \<Longrightarrow> length (CST s) \<le> m \<Longrightarrow> CE \<in> set CEs \<Longrightarrow>
      target P CE = Some g \<Longrightarrow> sound_gen P T Gen g Ch s"
    and "inl_inv P T s" and "chain_ok P T Ch s" and "length (CST s) \<le> m" and "\<forall>CE \<in> set CEs. call_ok P CE"
  shows "(\<exists>s'. InlineCalls P R Gen Ch CEs s = Some (Ok (True, s')) \<and> advanced_to P T Ch s s' \<and>
        (\<forall>CE \<in> set CEs. \<forall>g. target P CE = Some g \<longrightarrow> g \<notin> keys s') \<and>
        account P s' = account P s + inlinable P (mset (map (Pair h) CEs))) \<or>
     (\<exists>s'. InlineCalls P R Gen Ch CEs s = Some (Ok (False, s')) \<and> cyclic_at P T s')"
  using assms
proof (induction CEs arbitrary: s)
  case Nil
  then show ?case using advanced_to_refl by simp
next
  case (Cons CE CEs)
  obtain c where c: "ce_callee CE = Some c" using Cons.prems(5) by (auto simp: call_ok_def)
  have gen: "sound_gen P T Gen g Ch s1" if "inl_inv P T s1" "chain_ok P T Ch s1" "length (CST s1) \<le> m"
      "CE' \<in> set CEs" "target P CE' = Some g" for s1 CE' g
    using that by (intro Cons.prems(1)) auto
  have ok: "\<forall>CE \<in> set CEs. call_ok P CE" using Cons.prems(5) by simp
  have IH: "(\<exists>s'. InlineCalls P R Gen Ch CEs s1 = Some (Ok (True, s')) \<and> advanced_to P T Ch s1 s' \<and>
        (\<forall>CE \<in> set CEs. \<forall>g. target P CE = Some g \<longrightarrow> g \<notin> keys s') \<and>
        account P s' = account P s1 + inlinable P (mset (map (Pair h) CEs))) \<or>
     (\<exists>s'. InlineCalls P R Gen Ch CEs s1 = Some (Ok (False, s')) \<and> cyclic_at P T s')"
    if "inl_inv P T s1" "chain_ok P T Ch s1" "length (CST s1) \<le> m" for s1
    by (rule Cons.IH [OF _ that ok]) (rule gen)
  show ?case
  proof (cases "fn_body (P c)")
    case False
    then have t: "target P CE = None" using c by simp
    show ?thesis
      using IH [OF Cons.prems(2-4)] c False t by (auto simp del: target.simps)
  next
    case True
    let ?g = "fn_def (P c)"
    have t: "target P CE = Some ?g" using c True by simp
    have call: "length (fn_params (P ?g)) \<le> length (ce_args CE)"
      using Cons.prems(5) t by (auto simp: call_ok_def simp del: target.simps)
    have "sound_gen P T Gen ?g Ch s" using Cons.prems(2-4) t by (intro Cons.prems(1)) auto
    then show ?thesis
      unfolding sound_gen_def
    proof (elim disjE exE conjE)
      fix s1 sn
      assume s1: "Gen ?g Ch s = Some (Ok (True, s1))" "advanced_to P T Ch s s1" "?g \<notin> keys s1" "account P s1 = account P s"
        "map_of (CC s1) ?g = Some sn" "odd (length sn)"
      have "labelled s1" using s1(2) unfolding advanced_to_def inl_inv_def by blast
      then obtain tx where x: "ExpandCall R (P ?g) CE sn s1 =
          Ok (s1\<lparr>inlNonce := inlNonce s1 + 2, inlEdits := inlEdits s1 @ [(ce_id CE, tx)]\<rparr>)"
        and lab: "labelled (s1\<lparr>inlNonce := inlNonce s1 + 2, inlEdits := inlEdits s1 @ [(ce_id CE, tx)]\<rparr>)"
          (is "labelled ?s2")
        using ExpandCall_returns [OF s1(6) call] by blast
      have run: "InlineCalls P R Gen Ch (CE # CEs) s = InlineCalls P R Gen Ch CEs ?s2"
        by (simp add: c True s1(1,5) x)
      have s2: "inl_inv P T ?s2" "chain_ok P T Ch ?s2" "length (CST ?s2) \<le> m" "advanced_to P T Ch s ?s2"
        "account P ?s2 = account P s + {#ce_id CE#}"
        using s1(2,4) Cons.prems(3,4) inl_inv_cong [of P T s1 ?s2, OF _ _ _ lab]
        by (auto simp: advanced_to_def chain_ok_def account_def)
      from IH [OF s2(1-3)] show ?thesis
      proof (elim disjE exE conjE)
        fix s'
        assume s': "InlineCalls P R Gen Ch CEs ?s2 = Some (Ok (True, s'))" "advanced_to P T Ch ?s2 s'"
          "\<forall>CE \<in> set CEs. \<forall>g. target P CE = Some g \<longrightarrow> g \<notin> keys s'"
          "account P s' = account P ?s2 + inlinable P (mset (map (Pair h) CEs))"
        have "keys s' \<subseteq> keys s1" using s'(2) by (simp add: advanced_to_def)
        then have "\<forall>CE' \<in> set (CE # CEs). \<forall>g. target P CE' = Some g \<longrightarrow> g \<notin> keys s'"
          using s'(3) s1(3) t by (auto simp del: target.simps)
        then show ?thesis
          unfolding run using s'(1,4) advanced_to_trans [OF s2(4) s'(2)] s2(5) t by (simp del: target.simps)
      qed (unfold run, auto)
    next
      fix s1
      assume "Gen ?g Ch s = Some (Ok (False, s1))" "cyclic_at P T s1"
      then show ?thesis by (simp add: c True)
    qed
  qed
qed

lemma pairs_erase:
  "distinct (map fst T) \<Longrightarrow> (f, CEs) \<in> set T \<Longrightarrow> pairs T = pairs (table_erase f T) + mset (map (Pair f) CEs)"
proof (induction T)
  case (Cons e T)
  obtain g ys where e: "e = (g, ys)" by fastforce
  show ?case
  proof (cases "g = f")
    case True
    then have "f \<notin> fst ` set T" using Cons.prems(1) e by auto
    then have "\<forall>x \<in> set T. case x of (h, _) \<Rightarrow> h \<noteq> f" by force
    then have "table_erase f T = T" unfolding table_erase_def by (rule filter_True)
    moreover have "ys = CEs" using Cons.prems \<open>f \<notin> fst ` set T\<close> True e by force
    ultimately show ?thesis using True e by (simp add: table_erase_def)
  next
    case False
    then show ?thesis using Cons e by (simp add: table_erase_def)
  qed
qed simp

lemma inl_inv_erase:
  assumes inv: "inl_inv P T s" and tab: "table_ok P T" and f: "f \<in> keys s" "(f, CEs) \<in> set T"
    and callees: "\<forall>CE \<in> set CEs. \<forall>g. target P CE = Some g \<longrightarrow> g \<notin> keys s"
  shows "inl_inv P T (s\<lparr>CST := table_erase f (CST s)\<rparr>)"
    and "account P s = account P (s\<lparr>CST := table_erase f (CST s)\<rparr>) + inlinable P (mset (map (Pair f) CEs))"
proof -
  obtain ord where ord: "CST s = filter (\<lambda>(f, _). f \<notin> set ord) T" "topological (graph_of P (pairs T)) (fst ` set T) ord"
    using inv by (auto simp: inl_inv_def)
  have only: "CEs' = CEs" if "(f, CEs') \<in> set T" for CEs'
    using that f(2) tab by (auto simp: table_ok_def dest: eq_key_imp_eq_value)
  have "f \<notin> set ord" using f(1) ord(1) by auto
  moreover have "g \<in> set ord \<or> g \<notin> fst ` set T" if "(f, g) \<in> graph_of P (pairs T)" for g
  proof -
    obtain CE where "(f, CE) \<in># pairs T" "target P CE = Some g" using \<open>(f, g) \<in> _\<close> by (auto simp: graph_of_def)
    then have "g \<notin> keys s" using callees only by (auto simp: pairs_iff simp del: target.simps)
    then show ?thesis using ord(1) by force
  qed
  moreover have "f \<in> fst ` set T" using f(2) by force
  ultimately have "topological (graph_of P (pairs T)) (fst ` set T) (f # ord)" using ord(2) by simp
  moreover have "table_erase f (CST s) = filter (\<lambda>(h, _). h \<notin> set (f # ord)) T"
    by (auto simp: table_erase_def ord(1) intro: filter_cong)
  moreover have "fst ` set (table_erase f (CST s)) \<subseteq> keys s" by (auto simp: table_erase_def)
  then have "\<forall>(h, sn) \<in> set (CC s). odd (length sn) \<and> h \<notin> fst ` set (table_erase f (CST s))"
    using inv unfolding inl_inv_def by blast
  ultimately show "inl_inv P T (s\<lparr>CST := table_erase f (CST s)\<rparr>)"
    using inv unfolding inl_inv_def by (intro conjI exI [of _ "f # ord"]) (simp_all add: labelled_def)
  have "(f, CEs) \<in> set (CST s)" using f(1,2) ord(1) by auto
  moreover have "distinct (map fst (CST s))" by (rule inl_inv_entries(2) [OF inv tab])
  ultimately show "account P s = account P (s\<lparr>CST := table_erase f (CST s)\<rparr>) + inlinable P (mset (map (Pair f) CEs))"
    by (simp add: account_def pairs_erase [of "CST s" f CEs])
qed

lemma PerformInline_sound:
  assumes tab: "table_ok P T"
  shows "inl_inv P T s \<Longrightarrow> chain_ok P T Ch s \<Longrightarrow> f \<in> keys s \<Longrightarrow>
    (Ch \<noteq> [] \<longrightarrow> (last Ch, f) \<in> graph_of P (pairs T)) \<Longrightarrow> length (CST s) < n + length Ch \<Longrightarrow>
    sound_run P T (PerformInline P R n) f Ch s"
proof (induction n arbitrary: f Ch s)
  case 0
  then show ?case using chain_length by fastforce
next
  case (Suc n)
  obtain CEs where CEs: "map_of (CST s) f = Some CEs" using Suc.prems(3) by (metis map_of_eq_None_iff not_None_eq)
  have T: "(f, CEs) \<in> set T" by (rule inl_inv_entries(3) [OF Suc.prems(1) tab CEs])
  then have body: "fn_body (P f)" and ok: "\<forall>CE \<in> set (rev CEs). call_ok P CE" using tab by (auto simp: table_ok_def)
  show ?case
  proof (cases "f \<in> set Ch")
    case True
    then have "\<not> acyclic (graph_of P (pairs T))"
      using Suc.prems(2,4) by (intro chain_cycle [of _ Ch f]) (auto simp: chain_ok_def)
    then show ?thesis using True body by (simp add: sound_run_def cyclic_at_def inlReport_def)
  next
    case False
    let ?Ch = "Ch @ [f]" and ?Gen = "GenCodeSnippet R (PerformInline P R n)"
    have ch: "chain_ok P T ?Ch s"
      using Suc.prems(2-4) False by (auto simp: chain_ok_def successively_append_iff)
    have gen: "sound_gen P T ?Gen g ?Ch s1"
      if s1: "inl_inv P T s1" "chain_ok P T ?Ch s1" "length (CST s1) \<le> length (CST s)"
        and g: "CE \<in> set (rev CEs)" "target P CE = Some g" for s1 CE g
    proof (rule GenCodeSnippet_sound [OF s1(1,2)])
      have "(f, g) \<in> graph_of P (pairs T)"
        using T g by (auto simp: graph_of_def pairs_iff simp del: target.simps)
      then show "sound_run P T (PerformInline P R n) g ?Ch s1" if "g \<in> keys s1"
        using that s1 Suc.prems(5) by (intro Suc.IH) auto
    qed
    have step: "PerformInline P R (Suc n) f Ch s = bindX (InlineCalls P R ?Gen ?Ch (rev CEs) s) (\<lambda>(ok, s').
        if \<not> ok then Some (Ok (False, s')) else Some (Ok (True, s'\<lparr>CST := table_erase f (CST s')\<rparr>)))"
      using False body CEs by simp
    have "(\<exists>s'. InlineCalls P R ?Gen ?Ch (rev CEs) s = Some (Ok (True, s')) \<and> advanced_to P T ?Ch s s' \<and>
        (\<forall>CE \<in> set (rev CEs). \<forall>g. target P CE = Some g \<longrightarrow> g \<notin> keys s') \<and>
        account P s' = account P s + inlinable P (mset (map (Pair f) (rev CEs)))) \<or>
     (\<exists>s'. InlineCalls P R ?Gen ?Ch (rev CEs) s = Some (Ok (False, s')) \<and> cyclic_at P T s')"
      by (rule InlineCalls_sound [OF _ Suc.prems(1) ch order_refl ok]) (rule gen)
    then show ?thesis
    proof (elim disjE exE conjE)
      fix s' :: inliner
      let ?s = "s'\<lparr>CST := table_erase f (CST s')\<rparr>"
      assume run: "InlineCalls P R ?Gen ?Ch (rev CEs) s = Some (Ok (True, s'))" and adv: "advanced_to P T ?Ch s s'"
        and callees: "\<forall>CE \<in> set (rev CEs). \<forall>g. target P CE = Some g \<longrightarrow> g \<notin> keys s'"
        and acc: "account P s' = account P s + inlinable P (mset (map (Pair f) (rev CEs)))"
      have "f \<in> keys s'" "inl_inv P T s'" using adv by (auto simp: advanced_to_def)
      note er = inl_inv_erase [OF this(2) tab this(1) T callees [unfolded set_rev]]
      have keys: "keys ?s = keys s' - {f}" by (auto simp: table_erase_def)
      have "length (table_erase f (CST s')) \<le> length (CST s')" by (simp add: table_erase_def)
      moreover have "set Ch \<subseteq> keys s' - {f}" "keys s' - {f} \<subseteq> keys s" using adv False unfolding advanced_to_def by auto
      ultimately have "advanced_to P T Ch s ?s" using er(1) adv keys by (simp add: advanced_to_def)
      moreover have "account P ?s = account P s" using er(2) acc by simp
      moreover have "f \<notin> keys ?s" using keys by simp
      ultimately show ?thesis unfolding sound_run_def step run by simp
    next
      fix s'
      assume run: "InlineCalls P R ?Gen ?Ch (rev CEs) s = Some (Ok (False, s'))" and "cyclic_at P T s'"
      then show ?thesis unfolding sound_run_def step run by simp
    qed
  qed
qed

lemma inl_done:
  assumes "inl_inv P T s" and "CST s = []"
  shows "acyclic (graph_of P (pairs T))"
proof -
  obtain ord where ord: "CST s = filter (\<lambda>(f, _). f \<notin> set ord) T" "topological (graph_of P (pairs T)) (fst ` set T) ord"
    using assms(1) by (auto simp: inl_inv_def)
  then have "filter (\<lambda>(f, _). f \<notin> set ord) T = []" using assms(2) by simp
  then have "fst ` set T \<subseteq> set ord" by (auto simp: filter_empty_conv)
  moreover have "Domain (graph_of P (pairs T)) \<subseteq> fst ` set T" by (force simp: graph_of_def pairs_iff)
  ultimately have "Domain (graph_of P (pairs T)) \<subseteq> set ord" by (rule subset_trans [rotated])
  with ord(2) show ?thesis by (rule topological_acyclic)
qed

text \<open>The loop over all functions; \<open>n\<close> turns are enough.\<close>

lemma InlineAll_sound:
  assumes tab: "table_ok P T" and first: "\<forall>T'. T' \<noteq> [] \<longrightarrow> first T' \<in> fst ` set T'" and m: "length T < m"
  shows "inl_inv P T s \<Longrightarrow> length (CST s) \<le> n \<Longrightarrow>
    \<exists>s'. InlineAll P R first m n s = Some (Ok s') \<and>
      (CST s' = [] \<and> acyclic (graph_of P (pairs T)) \<and> account P s' = account P s \<and> inlDiags s' = inlDiags s \<and> labelled s' \<or>
       cyclic_at P T s')"
proof (induction n arbitrary: s)
  case 0
  then show ?case using inl_done [OF 0(1)] by (simp add: InlineAll.simps inl_inv_def)
next
  case (Suc n)
  show ?case
  proof (cases "CST s = []")
    case True
    then show ?thesis using inl_done [OF Suc.prems(1)] Suc.prems(1) by (simp add: InlineAll.simps inl_inv_def)
  next
    case False
    let ?f = "first (CST s)"
    have f: "?f \<in> keys s" using first False by simp
    have "length (CST s) \<le> length T" using Suc.prems(1) by (auto simp: inl_inv_def)
    then have "sound_run P T (PerformInline P R m) ?f [] s"
      using m f by (intro PerformInline_sound [OF tab Suc.prems(1)]) (auto simp: chain_ok_def)
    moreover have step: "InlineAll P R first m (Suc n) s = bindX (PerformInline P R m ?f [] s) (\<lambda>(ok, s').
        if ok then InlineAll P R first m n s' else Some (Ok s'))"
      using False by (subst InlineAll.simps) simp
    ultimately show ?thesis
      unfolding sound_run_def
    proof (elim disjE exE conjE)
      fix s1
      assume s1: "PerformInline P R m ?f [] s = Some (Ok (True, s1))" "advanced_to P T [] s s1" "?f \<notin> keys s1"
        "account P s1 = account P s"
      have "card (keys s1) < card (keys s)"
        using s1(2,3) f by (intro psubset_card_mono) (auto simp: advanced_to_def)
      moreover have "card (keys s) = length (CST s)" "card (keys s1) = length (CST s1)"
        using distinct_card [OF inl_inv_entries(2) [OF Suc.prems(1) tab]] distinct_card [OF inl_inv_entries(2) [of P T s1, OF _ tab]] s1(2)
        by (simp_all add: advanced_to_def)
      ultimately have "length (CST s1) \<le> n" using Suc.prems(2) by simp
      from Suc.IH [OF _ this] show ?thesis using s1 unfolding step by (simp add: advanced_to_def)
    qed (simp add: step)
  qed
qed

section \<open>What is collected\<close>

fun calls_of :: "xast \<Rightarrow> CallExpr list" and calls_of_all :: "xast list \<Rightarrow> CallExpr list" where
  "calls_of (XCall CE xs) = CE # calls_of_all xs"
| "calls_of (XReturn r xs) = calls_of_all xs"
| "calls_of XGoto = []"
| "calls_of (XNode xs) = calls_of_all xs"
| "calls_of_all [] = []"
| "calls_of_all (x # xs) = calls_of x @ calls_of_all xs"

fun has_goto :: "xast \<Rightarrow> bool" and has_goto_any :: "xast list \<Rightarrow> bool" where
  "has_goto (XCall CE xs) = has_goto_any xs"
| "has_goto (XReturn r xs) = has_goto_any xs"
| "has_goto XGoto = True"
| "has_goto (XNode xs) = has_goto_any xs"
| "has_goto_any [] = False"
| "has_goto_any (x # xs) = (has_goto x \<or> has_goto_any xs)"

text \<open>Outside functions there are no calls and no \<open>return\<close> statements.\<close>

fun plain :: "xast \<Rightarrow> bool" and plain_all :: "xast list \<Rightarrow> bool" where
  "plain (XCall CE xs) = False"
| "plain (XReturn r xs) = False"
| "plain XGoto = False"
| "plain (XNode xs) = plain_all xs"
| "plain_all [] = True"
| "plain_all (x # xs) = (plain x \<and> plain_all xs)"

lemma collect_plain:
  "plain x \<Longrightarrow> collect F x s = Ok (True, s)" "plain_all xs \<Longrightarrow> collect_all F xs s = Ok (True, s)"
  by (induction F x s and F xs s rule: collect_collect_all.induct) auto

definition collected :: "nat \<Rightarrow> CallExpr list \<Rightarrow> inliner \<Rightarrow> inliner \<Rightarrow> bool" where
  "collected f CEs s s' \<longleftrightarrow> pairs (CST s') = pairs (CST s) + mset (map (Pair f) CEs) \<and>
     keys s' = (if CEs = [] then {} else {f}) \<union> keys s \<and> (distinct (map fst (CST s)) \<longrightarrow> distinct (map fst (CST s'))) \<and>
     CC s' = CC s \<and> inlEdits s' = inlEdits s \<and> inlDiags s' = inlDiags s"

lemma collected_trans: "collected f xs s s' \<Longrightarrow> collected f ys s' s'' \<Longrightarrow> collected f (xs @ ys) s s''"
  by (auto simp: collected_def split: if_splits)

lemma collect_function:
  "\<not> has_goto x \<Longrightarrow> \<exists>s'. collect (Some f) x s = Ok (True, s') \<and> collected f (calls_of x) s s'"
  "\<not> has_goto_any xs \<Longrightarrow> \<exists>s'. collect_all (Some f) xs s = Ok (True, s') \<and> collected f (calls_of_all xs) s s'"
proof (induction "Some f" x s and "Some f" xs s rule: collect_collect_all.induct)
  case (1 CE xs s)
  let ?s = "s\<lparr>CST := emplace_back f CE (CST s)\<rparr>"
  have "collected f [CE] s ?s" by (auto simp: collected_def pairs_emplace keys_emplace distinct_emplace)
  moreover obtain s' where "collect_all (Some f) xs ?s = Ok (True, s')" "collected f (calls_of_all xs) ?s s'"
    using 1 by (auto simp: Extractor_VisitCallExpr_def)
  ultimately show ?case using collected_trans [of f "[CE]"] by (auto simp: Extractor_VisitCallExpr_def)
next
  case (2 r xs s)
  let ?s = "s\<lparr>RST := emplace_back f r (RST s)\<rparr>"
  obtain s' where "collect_all (Some f) xs ?s = Ok (True, s')" "collected f (calls_of_all xs) ?s s'"
    using 2 by (auto simp: Extractor_VisitReturnStmt_def)
  then show ?case by (simp add: Extractor_VisitReturnStmt_def collected_def)
next
  case (6 x xs s)
  then obtain s1 where s1: "collect (Some f) x s = Ok (True, s1)" "collected f (calls_of x) s s1" by auto
  obtain s2 where "collect_all (Some f) xs s1 = Ok (True, s2)" "collected f (calls_of_all xs) s1 s2"
    using 6(2) [OF TrueI, of s1] 6(3) s1(1) by auto
  then show ?case using s1 collected_trans by (auto simp del: collect.simps)
qed (simp_all add: collected_def)

fun top_pairs :: "xtop \<Rightarrow> call_pairs" where
  "top_pairs (XFunc f xs) = mset (map (Pair f) (calls_of_all xs))"
| "top_pairs (XDecl x) = {#}"

definition program_pairs :: "xtop list \<Rightarrow> call_pairs" where
  "program_pairs tops = (\<Sum>d \<leftarrow> tops. top_pairs d)"

text \<open>
  What the inliner relies on: no \<open>goto\<close>, calls and \<open>return\<close> statements only in functions with
  bodies, calls as \<open>call_ok\<close> says.
\<close>

fun sound_xtop :: "funcs \<Rightarrow> xtop \<Rightarrow> bool" where
  "sound_xtop P (XFunc f xs) \<longleftrightarrow> \<not> has_goto_any xs \<and> (calls_of_all xs \<noteq> [] \<longrightarrow> fn_body (P f)) \<and>
     (\<forall>CE \<in> set (calls_of_all xs). call_ok P CE)"
| "sound_xtop P (XDecl x) \<longleftrightarrow> plain x"

definition extracted :: "funcs \<Rightarrow> call_pairs \<Rightarrow> inliner \<Rightarrow> inliner \<Rightarrow> bool" where
  "extracted P M s s' \<longleftrightarrow> pairs (CST s') = pairs (CST s) + M \<and> keys s' = fst ` set_mset M \<union> keys s \<and> (table_ok P (CST s) \<longrightarrow> table_ok P (CST s')) \<and>
     CC s' = CC s \<and> inlEdits s' = inlEdits s \<and> inlDiags s' = inlDiags s"

lemma table_ok_pairs:
  "table_ok P T \<longleftrightarrow> distinct (map fst T) \<and> (\<forall>f \<in> fst ` set T. fn_body (P f)) \<and> (\<forall>(f, CE) \<in># pairs T. call_ok P CE)"
  by (fastforce simp: table_ok_def pairs_iff)

lemma extract_top:
  assumes "sound_xtop P d"
  shows "\<exists>s'. Extractor_TraverseDecl d s = Ok s' \<and> extracted P (top_pairs d) s s'"
proof (cases d)
  case (XFunc f xs)
  obtain s' where s': "collect_all (Some f) xs s = Ok (True, s')" "collected f (calls_of_all xs) s s'"
    using collect_function(2) [of xs f s] assms XFunc by auto
  have "\<forall>CE \<in> set (calls_of_all xs). call_ok P CE" "calls_of_all xs \<noteq> [] \<longrightarrow> fn_body (P f)" using assms XFunc by auto
  then have "table_ok P (CST s')" if "table_ok P (CST s)"
    using that s'(2) by (auto simp: table_ok_pairs collected_def split: if_splits)
  moreover have "fst ` set_mset (mset (map (Pair f) (calls_of_all xs))) = (if calls_of_all xs = [] then {} else {f})"
    by (cases "calls_of_all xs") auto
  ultimately show ?thesis using XFunc s' by (simp add: extracted_def collected_def)
next
  case (XDecl x)
  then show ?thesis using assms collect_plain(1) [of x None s] by (simp add: extracted_def)
qed

lemma extract_program:
  "\<forall>d \<in> set tops. sound_xtop P d \<Longrightarrow>
     \<exists>s'. Extractor_HandleTopLevelDecl tops s = Ok s' \<and> extracted P (program_pairs tops) s s'"
proof (induction tops arbitrary: s)
  case (Cons d ds)
  obtain s1 where s1: "Extractor_TraverseDecl d s = Ok s1" "extracted P (top_pairs d) s s1"
    using extract_top [of P d s] Cons.prems by auto
  obtain s2 where "Extractor_HandleTopLevelDecl ds s1 = Ok s2" "extracted P (program_pairs ds) s1 s2"
    using Cons.IH [of s1] Cons.prems by auto
  moreover from this s1 have "keys s2 = fst ` set_mset (program_pairs (d # ds)) \<union> keys s"
    by (simp add: extracted_def program_pairs_def image_Un Un_ac)
  ultimately show ?case using s1 by (simp add: extracted_def program_pairs_def add.assoc)
qed (simp add: extracted_def program_pairs_def)

section \<open>Property\<close>

text \<open>
  C38. The inliner is exact. A program without \<open>goto\<close> is either free of recursion: then every
  call of a function with a body is replaced, each exactly once and by a text with a label of
  its own, nothing is reported and the result is written. Or its call graph has a cycle: then recursion is reported and nothing is
  written. In both cases it ends, however the hash map is ordered: the recursion is never
  deeper than there are functions with calls, and one turn of the loop per function is enough.
\<close>

theorem inliner_exact:
  assumes "\<forall>d \<in> set tops. sound_xtop P d" and "\<forall>T. T \<noteq> [] \<longrightarrow> first T \<in> fst ` set T"
    and "card (fst ` set_mset (program_pairs tops)) < m" and "card (fst ` set_mset (program_pairs tops)) \<le> n"
  shows "\<exists>s'. Inliner_ExecuteAction P R first m n tops = Some (Ok s') \<and>
     (if acyclic (graph_of P (program_pairs tops))
      then mset (map fst (inlEdits s')) = inlinable P (program_pairs tops) \<and> distinct (map snd (inlEdits s')) \<and>
        inlDiags s' = [] \<and> Inliner_EndSourceFileAction Buffer s' = Some (Buffer (inlEdits s'))
      else recursion_error \<in> set (inlDiags s') \<and> Inliner_EndSourceFileAction Buffer s' = None)"
proof -
  obtain s0 where s0: "Extractor_HandleTopLevelDecl tops inliner_new = Ok s0"
    "extracted P (program_pairs tops) inliner_new s0"
    using extract_program [OF assms(1)] by blast
  let ?s = "s0\<lparr>inlNonce := 0\<rparr>"
  have T: "pairs (CST s0) = program_pairs tops" "table_ok P (CST s0)" "CC s0 = []" "inlEdits s0 = []" "inlDiags s0 = []"
    using s0(2) by (auto simp: extracted_def inliner_new_def table_ok_def)
  have "keys s0 = fst ` set_mset (program_pairs tops)" using s0(2) by (simp add: extracted_def inliner_new_def)
  then have len: "length (CST s0) = card (fst ` set_mset (program_pairs tops))"
    using T(2) distinct_card [of "map fst (CST s0)"] by (simp add: table_ok_def)
  have "inl_inv P (CST s0) ?s"
    using T(3,4) by (auto simp: inl_inv_def labelled_def intro!: exI [of _ "[]"])
  from InlineAll_sound [OF T(2) assms(2) _ this, of m n R] len assms(3,4)
  obtain s' where s': "InlineAll P R first m n ?s = Some (Ok s')"
    "CST s' = [] \<and> acyclic (graph_of P (program_pairs tops)) \<and> account P s' = account P ?s \<and> inlDiags s' = inlDiags ?s \<and> labelled s' \<or>
       cyclic_at P (CST s0) s'"
    using T(1) by auto
  have run: "Inliner_ExecuteAction P R first m n tops = Some (Ok s')" by (simp add: Inliner_ExecuteAction_def s0(1) s'(1))
  show ?thesis
  proof (cases "acyclic (graph_of P (program_pairs tops))")
    case True
    then have c: "CST s' = []" "account P s' = account P ?s" "inlDiags s' = []" "labelled s'"
      using s'(2) T by (auto simp: cyclic_at_def)
    then have "mset (map fst (inlEdits s')) = inlinable P (program_pairs tops)" using T by (simp add: account_def)
    moreover have "distinct (map snd (inlEdits s'))" using c(4) labels.numbered_distinct by (auto simp: labelled_def)
    ultimately show ?thesis using run True c by (simp add: Inliner_EndSourceFileAction_def)
  next
    case False
    then have "recursion_error \<in> set (inlDiags s')" using s'(2) by (auto simp: cyclic_at_def)
    moreover from this have "\<exists>d \<in> set (inlDiags s'). is_ierror d" by force
    ultimately show ?thesis using run False by (simp add: Inliner_EndSourceFileAction_def)
  qed
qed

text \<open>Two functions, one calling the other twice; and the same where the other calls back.\<close>

definition demo_funcs :: funcs where
  "demo_funcs f = \<lparr>fn_name = ''f'', fn_body = f < 2, fn_def = f, fn_void = False, fn_ret = ''int'', fn_params = [7]\<rparr>"

definition demo_call :: "nat \<Rightarrow> nat \<Rightarrow> CallExpr" where
  "demo_call i g = \<lparr>ce_id = i, ce_callee = Some g, ce_args = [9]\<rparr>"

definition demo_tops :: "nat \<Rightarrow> xtop list" where
  "demo_tops back = [XDecl (XNode []),
     XFunc 0 [XReturn 1 [XCall (demo_call 10 1) [XCall (demo_call 11 1) []]]],
     XFunc 1 [XReturn 2 [XCall (demo_call 12 back) []]]]"

definition demo_first :: "CallExpr list table \<Rightarrow> nat" where
  "demo_first T = fst (hd T)"

lemma demo_tops_sound: "\<forall>d \<in> set (demo_tops b). sound_xtop demo_funcs d"
  by (simp add: demo_tops_def call_ok_def demo_call_def demo_funcs_def)

lemma demo_first_member: "\<forall>T. T \<noteq> [] \<longrightarrow> demo_first T \<in> fst ` set T"
  by (auto simp: demo_first_def neq_Nil_conv)

lemma demo_program_pairs:
  "program_pairs (demo_tops b) = {#(0, demo_call 10 1), (0, demo_call 11 1), (1, demo_call 12 b)#}"
  by (simp add: program_pairs_def demo_tops_def)

lemma demo_graph: "graph_of demo_funcs (program_pairs (demo_tops b)) = {(0, 1)} \<union> (if b < 2 then {(1, b)} else {})"
  unfolding demo_program_pairs graph_of_add by (simp add: graph_of_def demo_call_def demo_funcs_def)

lemma demo_inlinable: "inlinable demo_funcs (program_pairs (demo_tops 5)) = {#10, 11#}"
  by (simp add: demo_program_pairs demo_call_def demo_funcs_def)

lemma demo_card: "card (fst ` set_mset (program_pairs (demo_tops b))) = 2"
  by (simp add: demo_program_pairs)

lemma demo_acyclic: "acyclic (graph_of demo_funcs (program_pairs (demo_tops 5)))"
  unfolding demo_graph by (rule acyclicI_order [of _ "\<lambda>x. 1 - x"]) simp

lemma demo_cyclic: "\<not> acyclic (graph_of demo_funcs (program_pairs (demo_tops 0)))"
proof -
  have "(0, 0) \<in> (graph_of demo_funcs (program_pairs (demo_tops 0)))\<^sup>+"
    unfolding demo_graph by (rule trancl_into_trancl [OF r_into_trancl, of 0 1]) simp_all
  then show ?thesis unfolding acyclic_def by blast
qed

lemma inliner_exact_witness:
  "(\<exists>s'. Inliner_ExecuteAction demo_funcs (\<lambda>_ _. ''x'') demo_first 3 2 (demo_tops 5) = Some (Ok s') \<and>
     mset (map fst (inlEdits s')) = {#10, 11#} \<and> distinct (map snd (inlEdits s')) \<and> inlDiags s' = [] \<and>
     Inliner_EndSourceFileAction (\<lambda>_. ''out'') s' = Some ''out'') \<and>
   (\<exists>s'. Inliner_ExecuteAction demo_funcs (\<lambda>_ _. ''x'') demo_first 3 2 (demo_tops 0) = Some (Ok s') \<and>
     recursion_error \<in> set (inlDiags s') \<and> Inliner_EndSourceFileAction (\<lambda>_. ''out'') s' = None)"
proof -
  note exact = inliner_exact [OF demo_tops_sound demo_first_member, of _ 3 2 "\<lambda>_ _. ''x''" "\<lambda>_. ''out''", unfolded demo_card]
  have "(2 :: nat) < 3" "(2 :: nat) \<le> 2" by simp_all
  note exact = exact [OF this]
  show ?thesis
    using exact [of 5, unfolded if_P [OF demo_acyclic] demo_inlinable] exact [of 0, unfolded if_not_P [OF demo_cyclic]]
    by (rule conjI)
qed

end
