(* ===== verification/Rename.thy ===== *)
theory Rename
  imports Names
begin

text \<open>
  The generator of rename lists, \<open>rename-lst-gen/Main.cpp\<close>: it gives every variable of the
  main file a name of its own, so that the inliner can paste one function into another.

  A declaration is what \<open>RecursiveASTVisitor\<close> shows: whether it is in the main file, the
  variable it declares, if it declares one, and the declarations below it. The list is a
  list of offsets and names; \<open>rename_text\<close> gives the lines written.
\<close>

section \<open>Declarations\<close>

text \<open>A location in a file, or in a macro, with the start of its immediate expansion.\<close>

datatype loc = FileLoc u32 | MacroLoc loc

record var_decl =
  rv_loc :: loc
  rv_name :: "string option"

datatype rdecl = RDecl bool "var_decl option" "rdecl list"

fun ExpandStartLoc :: "loc \<Rightarrow> loc" where
  "ExpandStartLoc (MacroLoc L) = L"
| "ExpandStartLoc (FileLoc p) = FileLoc p"

section \<open>The visitor\<close>

record lst_gen =
  lgNonce :: u32
  Outs :: "(u32 \<times> string) list"
  lgWarnings :: nat

definition LstGenVisitor_new :: lst_gen where
  "LstGenVisitor_new = \<lparr>lgNonce = 0, Outs = [], lgWarnings = 0\<rparr>"

definition new_name :: "u32 \<Rightarrow> string \<Rightarrow> string" where
  "new_name n v = ''__R_'' @ dec (unat n) @ ''_'' @ v"

text \<open>\<open>StartPos\<close> is where the main file starts. A variable without a name has no identifier.\<close>

definition LstGen_VisitVarDecl :: "u32 \<Rightarrow> var_decl \<Rightarrow> lst_gen \<Rightarrow> lst_gen outcome" where
  "LstGen_VisitVarDecl StartPos VD s =
     (case ExpandStartLoc (rv_loc VD) of
        MacroLoc L \<Rightarrow> Ok (s\<lparr>lgWarnings := lgWarnings s + 1\<rparr>)
      | FileLoc ThisPos \<Rightarrow>
          (case rv_name VD of None \<Rightarrow> Crash
           | Some VarName \<Rightarrow>
               (let n = lgNonce s + 1
                in Ok (s\<lparr>lgNonce := n, Outs := Outs s @ [(ThisPos - StartPos, new_name n VarName)]\<rparr>))))"

fun LstGen_TraverseDecl :: "u32 \<Rightarrow> rdecl \<Rightarrow> lst_gen \<Rightarrow> lst_gen outcome"
  and LstGen_HandleTopLevelDecl :: "u32 \<Rightarrow> rdecl list \<Rightarrow> lst_gen \<Rightarrow> lst_gen outcome" where
  "LstGen_TraverseDecl StartPos (RDecl main VD ds) s =
     (if main
      then bindO (case VD of None \<Rightarrow> Ok s | Some V \<Rightarrow> LstGen_VisitVarDecl StartPos V s) (LstGen_HandleTopLevelDecl StartPos ds)
      else Ok s)"
| "LstGen_HandleTopLevelDecl StartPos [] s = Ok s"
| "LstGen_HandleTopLevelDecl StartPos (D # Ds) s =
     bindO (LstGen_TraverseDecl StartPos D s) (LstGen_HandleTopLevelDecl StartPos Ds)"

definition rename_text :: "(u32 \<times> string) list \<Rightarrow> string" where
  "rename_text rs = concat (map (\<lambda>(off, n).
     ''-   Offset: '' @ dec (unat off) @ [char_of (10 :: nat)] @ ''    NewName: '' @ n @ [char_of (10 :: nat)]) rs)"

section \<open>What is renamed\<close>

fun main_vars :: "rdecl \<Rightarrow> var_decl list" and main_vars_all :: "rdecl list \<Rightarrow> var_decl list" where
  "main_vars (RDecl main VD ds) = (if main then (case VD of None \<Rightarrow> [] | Some V \<Rightarrow> [V]) @ main_vars_all ds else [])"
| "main_vars_all [] = []"
| "main_vars_all (D # Ds) = main_vars D @ main_vars_all Ds"

text \<open>Where a variable is renamed: not at all if it is declared inside a macro.\<close>

fun rename_at :: "var_decl \<Rightarrow> u32 list" where
  "rename_at VD = (case ExpandStartLoc (rv_loc VD) of FileLoc p \<Rightarrow> [p] | MacroLoc L \<Rightarrow> [])"

definition nameable :: "var_decl \<Rightarrow> bool" where
  "nameable VD \<longleftrightarrow> rename_at VD \<noteq> [] \<longrightarrow> rv_name VD \<noteq> None"

text \<open>The names carry the numbers \<open>1, 2, \<dots>\<close> in the order of the list.\<close>

definition numbered :: "u32 \<Rightarrow> (u32 \<times> string) list \<Rightarrow> bool" where
  "numbered n rs \<longleftrightarrow> (\<forall>i < length rs. \<exists>v. snd (rs ! i) = new_name (n + of_nat (Suc i)) v)"

lemma numbered_Nil [simp]: "numbered n []"
  by (simp add: numbered_def)

lemma numbered_append:
  "numbered n (xs @ ys) \<longleftrightarrow> numbered n xs \<and> numbered (n + of_nat (length xs)) ys"
proof
  assume l: "numbered n (xs @ ys)"
  have "numbered n xs"
    unfolding numbered_def
  proof (intro allI impI)
    fix i
    assume "i < length xs"
    then show "\<exists>v. snd (xs ! i) = new_name (n + of_nat (Suc i)) v"
      using l [unfolded numbered_def, rule_format, of i] by (simp add: nth_append)
  qed
  moreover have "numbered (n + of_nat (length xs)) ys"
    unfolding numbered_def
  proof (intro allI impI)
    fix i
    assume "i < length ys"
    then show "\<exists>v. snd (ys ! i) = new_name (n + of_nat (length xs) + of_nat (Suc i)) v"
      using l [unfolded numbered_def, rule_format, of "length xs + i"] by (simp add: nth_append algebra_simps)
  qed
  ultimately show "numbered n xs \<and> numbered (n + of_nat (length xs)) ys" ..
next
  assume r: "numbered n xs \<and> numbered (n + of_nat (length xs)) ys"
  show "numbered n (xs @ ys)"
    unfolding numbered_def
  proof (intro allI impI)
    fix i
    assume i: "i < length (xs @ ys)"
    show "\<exists>v. snd ((xs @ ys) ! i) = new_name (n + of_nat (Suc i)) v"
    proof (cases "i < length xs")
      case True
      then show ?thesis using r by (simp add: numbered_def nth_append)
    next
      case False
      then have "i - length xs < length ys" "of_nat i = (of_nat (length xs) + of_nat (i - length xs) :: u32)"
        using i by (simp_all flip: of_nat_add)
      then show ?thesis
        using r [unfolded numbered_def, THEN conjunct2, rule_format, of "i - length xs"] False
        by (simp add: nth_append algebra_simps)
    qed
  qed
qed

text \<open>A traversal returns, and lists the variables in order.\<close>

definition listed :: "u32 \<Rightarrow> var_decl list \<Rightarrow> lst_gen \<Rightarrow> lst_gen \<Rightarrow> bool" where
  "listed StartPos Vs s s' \<longleftrightarrow> (\<exists>rs. Outs s' = Outs s @ rs \<and> numbered (lgNonce s) rs \<and>
     map fst rs = map (\<lambda>p. p - StartPos) (concat (map rename_at Vs)) \<and> lgNonce s' = lgNonce s + of_nat (length rs))"

lemma listed_Nil [simp]: "listed StartPos [] s s"
  by (simp add: listed_def)

lemma listed_trans:
  assumes "listed StartPos Vs s s'" and "listed StartPos Vs' s' s''"
  shows "listed StartPos (Vs @ Vs') s s''"
proof -
  obtain rs rs' where "Outs s' = Outs s @ rs" "numbered (lgNonce s) rs"
    "map fst rs = map (\<lambda>p. p - StartPos) (concat (map rename_at Vs))" "lgNonce s' = lgNonce s + of_nat (length rs)"
    "Outs s'' = Outs s' @ rs'" "numbered (lgNonce s') rs'"
    "map fst rs' = map (\<lambda>p. p - StartPos) (concat (map rename_at Vs'))" "lgNonce s'' = lgNonce s' + of_nat (length rs')"
    using assms by (auto simp: listed_def)
  then show ?thesis unfolding listed_def by (intro exI [of _ "rs @ rs'"]) (simp add: numbered_append)
qed

lemma VisitVarDecl_listed:
  assumes "nameable V"
  shows "\<exists>s'. LstGen_VisitVarDecl StartPos V s = Ok s' \<and> listed StartPos [V] s s'"
proof (cases "ExpandStartLoc (rv_loc V)")
  case (FileLoc p)
  then obtain v where "rv_name V = Some v" using assms by (auto simp: nameable_def)
  then show ?thesis
    using FileLoc by (auto simp: LstGen_VisitVarDecl_def Let_def listed_def numbered_def)
next
  case (MacroLoc L)
  then show ?thesis by (simp add: LstGen_VisitVarDecl_def listed_def)
qed

lemma traverse_listed:
  "\<forall>V \<in> set (main_vars D). nameable V \<Longrightarrow> \<exists>s'. LstGen_TraverseDecl StartPos D s = Ok s' \<and> listed StartPos (main_vars D) s s'"
  "\<forall>V \<in> set (main_vars_all Ds). nameable V \<Longrightarrow>
     \<exists>s'. LstGen_HandleTopLevelDecl StartPos Ds s = Ok s' \<and> listed StartPos (main_vars_all Ds) s s'"
proof (induction D and Ds arbitrary: s and s rule: main_vars_main_vars_all.induct)
  case (1 main VD ds)
  show ?case
  proof (cases "main")
    case True
    have "\<exists>s1. (case VD of None \<Rightarrow> Ok s | Some V \<Rightarrow> LstGen_VisitVarDecl StartPos V s) = Ok s1 \<and>
        listed StartPos (case VD of None \<Rightarrow> [] | Some V \<Rightarrow> [V]) s s1"
      using 1(2) True VisitVarDecl_listed by (cases VD) auto
    then obtain s1 where s1: "(case VD of None \<Rightarrow> Ok s | Some V \<Rightarrow> LstGen_VisitVarDecl StartPos V s) = Ok s1"
      "listed StartPos (case VD of None \<Rightarrow> [] | Some V \<Rightarrow> [V]) s s1" by blast
    obtain s2 where "LstGen_HandleTopLevelDecl StartPos ds s1 = Ok s2" "listed StartPos (main_vars_all ds) s1 s2"
      using 1 True by fastforce
    then show ?thesis using s1 True listed_trans by auto
  qed simp
next
  case (3 D Ds)
  obtain s1 where "LstGen_TraverseDecl StartPos D s = Ok s1" "listed StartPos (main_vars D) s s1"
    using 3(1) [of s] 3(3) by auto
  moreover obtain s2 where "LstGen_HandleTopLevelDecl StartPos Ds s1 = Ok s2" "listed StartPos (main_vars_all Ds) s1 s2"
    using 3(2) [of s1] 3(3) by auto
  ultimately show ?case using listed_trans by (auto simp del: LstGen_TraverseDecl.simps)
qed simp

lemma new_name_inject: "new_name m v = new_name n w \<Longrightarrow> m = n"
  by (auto simp: new_name_def word_unat_eq_iff dest!: dec_prefix_inject)

interpretation renames: name_supply "\<lambda>n. new_name (of_nat n)" "\<lambda>n. n < 2 ^ 32"
proof
  show "m = n" if "m < 2 ^ 32" "n < 2 ^ 32" "new_name (of_nat m) v = new_name (of_nat n) w" for m n v w
    using that new_name_inject [OF that(3)] by (simp add: word_of_nat_eq_iff take_bit_nat_eq_self)
qed

lemma numbered_renames:
  assumes "numbered 0 rs" and "length rs < 2 ^ 32"
  shows "renames.numbered 1 (map snd rs)"
  using assms unfolding numbered_def renames.numbered_def by auto

section \<open>Property\<close>

text \<open>
  C39. Every variable of the main file that is declared outside of macros is renamed exactly
  once, in order, and no two get the same name, as long as there are fewer than \<open>2 ^ 32\<close> and
  they have names: the generator does not crash then.
\<close>

theorem renames_distinct:
  assumes "\<forall>V \<in> set (main_vars_all Ds). nameable V" and "length (concat (map rename_at (main_vars_all Ds))) < 2 ^ 32"
  shows "\<exists>s'. LstGen_HandleTopLevelDecl StartPos Ds LstGenVisitor_new = Ok s' \<and>
     map fst (Outs s') = map (\<lambda>p. p - StartPos) (concat (map rename_at (main_vars_all Ds))) \<and>
     distinct (map snd (Outs s'))"
proof -
  obtain s' rs where "LstGen_HandleTopLevelDecl StartPos Ds LstGenVisitor_new = Ok s'" "Outs s' = rs" "numbered 0 rs"
    and fst: "map fst rs = map (\<lambda>p. p - StartPos) (concat (map rename_at (main_vars_all Ds)))"
    using traverse_listed(2) [OF assms(1), of StartPos LstGenVisitor_new] by (auto simp: listed_def LstGenVisitor_new_def)
  moreover have "length rs < 2 ^ 32" using assms(2) fst by (metis length_map)
  ultimately show ?thesis using renames.numbered_distinct [OF numbered_renames] by blast
qed

lemma renames_distinct_witness:
  "\<exists>s'. LstGen_HandleTopLevelDecl 100
     [RDecl True None [RDecl True (Some \<lparr>rv_loc = FileLoc 107, rv_name = Some ''x''\<rparr>) []],
      RDecl False (Some \<lparr>rv_loc = FileLoc 3, rv_name = Some ''y''\<rparr>) [],
      RDecl True (Some \<lparr>rv_loc = MacroLoc (FileLoc 120), rv_name = Some ''x''\<rparr>) []] LstGenVisitor_new = Ok s' \<and>
     map fst (Outs s') = [7, 20] \<and> distinct (map snd (Outs s'))"
  using renames_distinct [of "[RDecl True None [RDecl True (Some \<lparr>rv_loc = FileLoc 107, rv_name = Some ''x''\<rparr>) []],
      RDecl False (Some \<lparr>rv_loc = FileLoc 3, rv_name = Some ''y''\<rparr>) [],
      RDecl True (Some \<lparr>rv_loc = MacroLoc (FileLoc 120), rv_name = Some ''x''\<rparr>) []]" 100]
  by (simp add: nameable_def)

end
