(* ===== verification/Registry.thy ===== *)
theory Registry
  imports TaskKind
begin

text \<open>
  The contract between the scheduling daemon and the processes it serves, as a locale: a
  process publishes the bitmap of the task kinds it runs, a process that leaves the bus is
  retired, and the daemon announces one global bitmap. The lemmas proved here hold for any
  provider of the contract; \<open>Daemon\<close> interprets it on the daemon's own state.
\<close>

datatype 'p registry_op = Publish 'p task_bitmap | Retire 'p

text \<open>The bitmaps a process published, in order.\<close>

fun published :: "'p \<Rightarrow> 'p registry_op list \<Rightarrow> task_bitmap list" where
  "published p [] = []"
| "published p (Publish q m # ops) = (if q = p then [m] else []) @ published p ops"
| "published p (Retire q # ops) = published p ops"

locale task_registry =
  fixes view :: "'s \<Rightarrow> 'p \<Rightarrow> task_bitmap"
    and global :: "'s \<Rightarrow> task_bitmap"
    and publish :: "'p \<Rightarrow> task_bitmap \<Rightarrow> 's \<Rightarrow> 's"
    and retire :: "'p \<Rightarrow> 's \<Rightarrow> 's"
    and valid :: "task_bitmap \<Rightarrow> bool"
    and invar :: "'s \<Rightarrow> bool"
  assumes view_publish: "invar s \<Longrightarrow> valid m \<Longrightarrow> view (publish p m s) = (view s)(p := m)"
    and publish_invalid: "invar s \<Longrightarrow> \<not> valid m \<Longrightarrow> publish p m s = s"
    and view_retire: "invar s \<Longrightarrow> view (retire p s) = (view s)(p := 0)"
    and invar_publish: "invar s \<Longrightarrow> invar (publish p m s)"
    and invar_retire: "invar s \<Longrightarrow> invar (retire p s)"
    and finite_view: "invar s \<Longrightarrow> finite {p. bit (view s p) k}"
    and global_bit: "invar s \<Longrightarrow> card {p. bit (view s p) k} < 2 ^ 32 \<Longrightarrow>
          bit (global s) k \<longleftrightarrow> (\<exists>p. bit (view s p) k)"
begin

lemmas registry_simps = view_publish view_retire invar_publish invar_retire publish_invalid

fun apply_op :: "'p registry_op \<Rightarrow> 's \<Rightarrow> 's" where
  "apply_op (Publish p m) s = publish p m s"
| "apply_op (Retire p) s = retire p s"

text \<open>The bitmap a process is left with after a history of operations.\<close>

fun last_view :: "'p registry_op list \<Rightarrow> ('p \<Rightarrow> task_bitmap) \<Rightarrow> 'p \<Rightarrow> task_bitmap" where
  "last_view [] v = v"
| "last_view (Publish p m # ops) v = last_view ops (if valid m then v(p := m) else v)"
| "last_view (Retire p # ops) v = last_view ops (v(p := 0))"

lemma invar_run: "invar s \<Longrightarrow> invar (fold apply_op ops s)"
proof (induction ops arbitrary: s)
  case (Cons a ops)
  then show ?case by (cases a) (auto simp: registry_simps)
qed simp

lemma view_run: "invar s \<Longrightarrow> view (fold apply_op ops s) = last_view ops (view s)"
proof (induction ops arbitrary: s)
  case (Cons a ops)
  then show ?case by (cases a) (auto simp: registry_simps fun_upd_def)
qed simp

text \<open>A process that stays on the bus is left with the last valid bitmap it published.\<close>

lemma last_view_published:
  "Retire p \<notin> set ops \<Longrightarrow> \<forall>m \<in> set (published p ops). valid m \<Longrightarrow>
     last_view ops v p = last (v p # published p ops)"
proof (induction ops arbitrary: v)
  case (Cons a ops)
  then show ?case by (cases a) auto
qed simp

text \<open>After any history, a global bit says exactly that some process asked for the kind.\<close>

lemma global_run:
  assumes "invar s" and "card {p. bit (last_view ops (view s) p) k} < 2 ^ 32"
  shows "bit (global (fold apply_op ops s)) k \<longleftrightarrow> (\<exists>p. bit (last_view ops (view s) p) k)"
  using assms global_bit [of "fold apply_op ops s" k]
  by (simp add: invar_run view_run)

lemma global_zero_if_idle:
  assumes "invar s" and "\<And>p. view s p = 0"
  shows "global s = 0"
  using assms by (intro bit_word_eqI) (simp add: global_bit)

lemma publish_keeps_others:
  assumes "invar s" and "card {r. bit (view (publish p m s) r) k} < 2 ^ 32"
    and "valid m" and "q \<noteq> p" and "bit (view s q) k"
  shows "bit (global (publish p m s)) k"
proof -
  have "bit (view (publish p m s) q) k" using assms by (simp add: registry_simps)
  then show ?thesis
    using global_bit [OF invar_publish [OF assms(1)] assms(2)] by blast
qed

end

end
