(* ===== verification/Daemon.thy ===== *)
theory Daemon
  imports Registry
begin

text \<open>
  Model of the scheduling daemon, \<open>daemon/Main.cpp\<close>: the configuration, the task
  manager (one bitmap per high priority process, one counter per task kind, the global
  bitmap), the D-Bus handlers, start-up and the main loop. \<open>task_inv\<close> ties the counters
  and the global bitmap to the per-process bitmaps; every handler keeps it. The theory ends
  with the interpretation of the registry contract.

  What \<open>sd-bus\<close> and \<open>yaml-cpp\<close> return is an input of the definitions: a message read
  either fails with a negative number or yields its fields, a configuration field is
  missing, has a value or does not convert.
\<close>

section \<open>Configuration\<close>

record gbl_config =
  CompilerPath :: string
  Threshold :: u64

datatype 'a yaml_field = Missing | Value 'a | Bad_Conversion
datatype yaml_file = Unreadable | Doc "string yaml_field" "u64 yaml_field"

text \<open>The flag is False when the C++ function leaves by an exception.\<close>

fun LoadConfig :: "yaml_file \<Rightarrow> gbl_config \<Rightarrow> gbl_config \<times> bool" where
  "LoadConfig Unreadable c = (c, False)"
| "LoadConfig (Doc compiler threshold) c =
     (case compiler of
        Bad_Conversion \<Rightarrow> (c, False)
      | _ \<Rightarrow>
        (let c = (case compiler of Value p \<Rightarrow> c\<lparr>CompilerPath := p\<rparr> | _ \<Rightarrow> c)
         in case threshold of
              Bad_Conversion \<Rightarrow> (c, False)
            | Value n \<Rightarrow> (c\<lparr>Threshold := n\<rparr>, True)
            | Missing \<Rightarrow> (c, True)))"

definition ReloadConfig :: "yaml_file \<Rightarrow> gbl_config \<Rightarrow> gbl_config" where
  "ReloadConfig f c = fst (LoadConfig f c)"

section \<open>Task management\<close>

record task_mgr =
  IsOnTerminate :: bool
  ProcBitmap :: "string \<rightharpoonup> task_bitmap"
  GlobalBitmap :: task_bitmap
  CountOfEachTaskKind :: "u32 list"

definition init_task :: task_mgr where
  "init_task = \<lparr>IsOnTerminate = False, ProcBitmap = Map.empty, GlobalBitmap = 0,
     CountOfEachTaskKind = replicate NumOfTaskKind 0\<rparr>"

definition OnTerminate :: "task_mgr \<Rightarrow> task_mgr" where
  "OnTerminate t = t\<lparr>IsOnTerminate := True\<rparr>"

text \<open>
  \<open>UpdateProcBitmap\<close> receives the process's entry by reference; the model takes its old
  value and returns its new one.
\<close>

definition UpdateProcBitmap ::
  "task_bitmap \<Rightarrow> task_bitmap \<Rightarrow> task_mgr \<Rightarrow> task_bitmap \<times> task_mgr" where
  "UpdateProcBitmap ProcMap NewMap t =
     (let OldMap = ProcMap;
          ProcMap = NewMap;
          (NewGblMap, Counts) =
            fold (\<lambda>Kind (g, cs).
                    case UpdateGlobalBitmap g (cs ! Kind) Kind OldMap NewMap of
                      (g, c) \<Rightarrow> (g, cs[Kind := c]))
              [0..<NumOfTaskKind] (GlobalBitmap t, CountOfEachTaskKind t)
      in (ProcMap, t\<lparr>GlobalBitmap := NewGblMap, CountOfEachTaskKind := Counts\<rparr>))"

section \<open>Bus handlers\<close>

datatype 'a bus_read = ReadFail int | ReadOk 'a

datatype bus_reply = ReplyConfig string u64 task_bitmap | ReplyBool bool | HandlerRet int

definition GetConfig :: "unit bus_read \<Rightarrow> gbl_config \<Rightarrow> task_mgr \<Rightarrow> bus_reply" where
  "GetConfig Msg c t = ReplyConfig (CompilerPath c) (Threshold c) (GlobalBitmap t)"

definition TaskMask :: task_bitmap where
  "TaskMask = push_bit NumOfTaskKind 1 - 1"

fun SetHighPrioTaskBitmap ::
  "string \<Rightarrow> task_bitmap bus_read \<Rightarrow> task_mgr \<Rightarrow> task_mgr \<times> bus_reply" where
  "SetHighPrioTaskBitmap Sender (ReadFail e) t = (t, HandlerRet e)"
| "SetHighPrioTaskBitmap Sender (ReadOk Bitmap) t =
     (if Bitmap AND NOT TaskMask \<noteq> 0 then (t, ReplyBool False)
      else
        let entry = (case ProcBitmap t Sender of None \<Rightarrow> 0 | Some m \<Rightarrow> m);
            (entry, t) = UpdateProcBitmap entry Bitmap t
        in (t\<lparr>ProcBitmap := (ProcBitmap t)(Sender \<mapsto> entry)\<rparr>, ReplyBool True))"

fun NameOwnerChangeWatcher ::
  "(string \<times> string \<times> string) bus_read \<Rightarrow> task_mgr \<Rightarrow> task_mgr \<times> bus_reply" where
  "NameOwnerChangeWatcher (ReadFail e) t = (t, HandlerRet e)"
| "NameOwnerChangeWatcher (ReadOk (Name, OldOwner, NewOwner)) t =
     (if NewOwner = []
      then case ProcBitmap t Name of
             None \<Rightarrow> (t, HandlerRet 1)
           | Some m \<Rightarrow>
               (let (m', t) = UpdateProcBitmap m 0 t
                in (t\<lparr>ProcBitmap := (ProcBitmap t)(Name := None)\<rparr>, HandlerRet 1))
      else (t, HandlerRet 1))"

section \<open>The main loop\<close>

record daemon =
  cfg :: gbl_config
  task :: task_mgr
  LastBitmap :: task_bitmap
  Signals :: "task_bitmap list"

datatype request =
    Req_GetConfig "unit bus_read"
  | Req_SetBitmap string "task_bitmap bus_read"
  | Req_NameOwner "(string \<times> string \<times> string) bus_read"
  | Req_Other

fun dispatch :: "request \<Rightarrow> daemon \<Rightarrow> daemon" where
  "dispatch (Req_GetConfig m) d = d"
| "dispatch (Req_SetBitmap s m) d = d\<lparr>task := fst (SetHighPrioTaskBitmap s m (task d))\<rparr>"
| "dispatch (Req_NameOwner m) d = d\<lparr>task := fst (NameOwnerChangeWatcher m (task d))\<rparr>"
| "dispatch Req_Other d = d"

text \<open>
  One turn of the loop, driven by what the bus calls return: \<open>sd_bus_process\<close> fails, has
  processed a message (a positive number), or has nothing left to do, in which case the
  results of \<open>sd_bus_emit_signal\<close> (called only on a change), \<open>sd_bus_flush\<close> and
  \<open>sd_bus_wait\<close> follow. The result is the new state, \<open>Ret\<close>, and whether the loop goes on.
\<close>

datatype bus_turn = ProcessFail int | Processed int request | Quiet int int int

definition EINTR :: int where "EINTR = 4"

fun main_iter :: "daemon \<Rightarrow> bus_turn \<Rightarrow> daemon \<times> int \<times> bool" where
  "main_iter d (ProcessFail e) = (d, e, False)"
| "main_iter d (Processed r req) = (dispatch req d, r, True)"
| "main_iter d (Quiet emit flush wait) =
     (let NewBitmap = GlobalBitmap (task d);
          changed = (LastBitmap d \<noteq> NewBitmap);
          d = d\<lparr>LastBitmap := NewBitmap\<rparr>
      in if changed \<and> emit < 0 then (d, emit, False)
         else
           let d = (if changed then d\<lparr>Signals := Signals d @ [NewBitmap]\<rparr> else d)
           in if flush < 0 then (d, flush, False)
              else if wait < 0 \<and> wait \<noteq> - EINTR then (d, wait, False)
              else (d, 0, True))"

text \<open>Between two turns a signal may arrive: SIGTERM or SIGHUP.\<close>

datatype main_input = Bus bus_turn | SigTerm | SigHup yaml_file

fun main_loop :: "main_input list \<Rightarrow> daemon \<Rightarrow> int \<Rightarrow> daemon \<times> int" where
  "main_loop [] d ret = (d, ret)"
| "main_loop (i # is) d ret =
     (if IsOnTerminate (task d) then (d, ret)
      else case i of
             SigTerm \<Rightarrow> main_loop is (d\<lparr>task := OnTerminate (task d)\<rparr>) ret
           | SigHup f \<Rightarrow> main_loop is (d\<lparr>cfg := ReloadConfig f (cfg d)\<rparr>) ret
           | Bus b \<Rightarrow> (case main_iter d b of
               (d, ret, go) \<Rightarrow> if go then main_loop is d ret else (d, ret)))"

section \<open>Start-up\<close>

text \<open>
  What the environment answers during start-up: the configuration file, the five calls of
  \<open>signal\<close>, the bus connection, \<open>daemon(3)\<close>'s errno, and the three bus registrations.
\<close>

record startup_env =
  config_file :: yaml_file
  signals_ok :: bool
  open_ret :: int
  daemon_errno :: int
  vtable_ret :: int
  match_ret :: int
  name_ret :: int

datatype run_mode = DAEMON | TERMINAL

fun bus_checks :: "int list \<Rightarrow> bool" where
  "bus_checks [] = True"
| "bus_checks (r # rs) = (if r < 0 then False else bus_checks rs)"

definition main_startup :: "string list \<Rightarrow> startup_env \<Rightarrow> int + run_mode \<times> daemon" where
  "main_startup ArgVar e =
     (if length ArgVar \<noteq> 4 then Inl (- 1)
      else case LoadConfig (config_file e) \<lparr>CompilerPath = [], Threshold = 0\<rparr> of (c, loaded) \<Rightarrow>
      if \<not> loaded then Inl (- 1)
      else if \<not> signals_ok e then Inl (- 1)
      else if ArgVar ! 2 \<noteq> ''system'' \<and> ArgVar ! 2 \<noteq> ''user'' then Inl (- 1)
      else if ArgVar ! 1 = ''daemon'' \<and> daemon_errno e \<noteq> 0 then Inl (daemon_errno e)
      else if ArgVar ! 1 \<noteq> ''daemon'' \<and> ArgVar ! 1 \<noteq> ''terminal'' then Inl (- 1)
      else if \<not> bus_checks [open_ret e, vtable_ret e, match_ret e, name_ret e] then Inl (- 1)
      else Inr (if ArgVar ! 1 = ''daemon'' then DAEMON else TERMINAL,
                \<lparr>cfg = c, task = init_task, LastBitmap = 0, Signals = []\<rparr>))"

section \<open>The counters and the global bitmap\<close>

definition runners :: "task_mgr \<Rightarrow> nat \<Rightarrow> string set" where
  "runners t k = {p. \<exists>m. ProcBitmap t p = Some m \<and> bit m k}"

definition task_inv :: "task_mgr \<Rightarrow> bool" where
  "task_inv t \<longleftrightarrow> finite (dom (ProcBitmap t)) \<and> length (CountOfEachTaskKind t) = 2
     \<and> (\<forall>k < 2. CountOfEachTaskKind t ! k = of_nat (card (runners t k)))
     \<and> (\<forall>k. bit (GlobalBitmap t) k \<longleftrightarrow> k < 2 \<and> CountOfEachTaskKind t ! k \<noteq> 0)
     \<and> (\<forall>p m k. ProcBitmap t p = Some m \<longrightarrow> bit m k \<longrightarrow> k < 2)"

lemma TaskMask_eq: "TaskMask = mask 2"
  by (simp add: TaskMask_def mask_eq_exp_minus_1)

lemma valid_bits: "m AND NOT TaskMask = 0 \<longleftrightarrow> (\<forall>k. bit m k \<longrightarrow> k < 2)"
proof
  assume z: "m AND NOT TaskMask = 0"
  show "\<forall>k. bit m k \<longrightarrow> k < 2"
  proof (intro allI impI)
    fix k assume "bit m k"
    moreover have "\<not> bit (m AND NOT TaskMask) k" using z by simp
    ultimately show "k < 2"
      by (auto simp: TaskMask_eq bit_and_iff bit_not_iff bit_mask_iff dest: bit_imp_le_length)
  qed
next
  assume "\<forall>k. bit m k \<longrightarrow> k < 2"
  then show "m AND NOT TaskMask = 0"
    by (intro bit_word_eqI) (auto simp: TaskMask_eq bit_and_iff bit_not_iff bit_mask_iff)
qed

text \<open>The loop over the task kinds, unrolled and summed up.\<close>

lemma UpdateProcBitmap_unroll:
  assumes "CountOfEachTaskKind t = [a, b]"
  shows "UpdateProcBitmap old new t =
     (let a' = a - of_bool (bit old 0) + of_bool (bit new 0);
          b' = b - of_bool (bit old 1) + of_bool (bit new 1)
      in (new, t\<lparr>GlobalBitmap := AssignBits (AssignBits (GlobalBitmap t) a' 1) b' 2,
                 CountOfEachTaskKind := [a', b']\<rparr>))"
proof -
  have up: "[0..<2] = [0, 1 :: nat]" by (simp add: upt_rec)
  show ?thesis
    by (simp add: UpdateProcBitmap_def up assms UpdateGlobalBitmap_eq Let_def)
qed

lemma UpdateProcBitmap_effect:
  assumes "length (CountOfEachTaskKind t) = 2" and "UpdateProcBitmap old new t = (m, t')"
  shows "m = new" and "ProcBitmap t' = ProcBitmap t" and "IsOnTerminate t' = IsOnTerminate t"
    and "length (CountOfEachTaskKind t') = 2"
    and "k < 2 \<Longrightarrow> CountOfEachTaskKind t' ! k =
           CountOfEachTaskKind t ! k - of_bool (bit old k) + of_bool (bit new k)"
    and "bit (GlobalBitmap t') k \<longleftrightarrow>
           (if k < 2 then CountOfEachTaskKind t' ! k \<noteq> 0 else bit (GlobalBitmap t) k)"
proof -
  obtain a b where ab: "CountOfEachTaskKind t = [a, b]"
    using assms(1) by (auto simp: list_eq_2)
  note step = assms(2) [unfolded UpdateProcBitmap_unroll [OF ab] Let_def]
  show "m = new" "ProcBitmap t' = ProcBitmap t" "IsOnTerminate t' = IsOnTerminate t"
    "length (CountOfEachTaskKind t') = 2"
    using step by auto
  show "k < 2 \<Longrightarrow> CountOfEachTaskKind t' ! k =
           CountOfEachTaskKind t ! k - of_bool (bit old k) + of_bool (bit new k)"
    using step by (auto simp: ab less_2_iff)
  show "bit (GlobalBitmap t') k \<longleftrightarrow>
           (if k < 2 then CountOfEachTaskKind t' ! k \<noteq> 0 else bit (GlobalBitmap t) k)"
    using step by (auto simp: less_2_iff word_facts)
qed

lemma runners_upd:
  "runners (t\<lparr>ProcBitmap := (ProcBitmap t)(p \<mapsto> m)\<rparr>) k =
     (if bit m k then insert p (runners t k) else runners t k - {p})"
  by (auto simp: runners_def)

lemma runners_drop:
  "runners (t\<lparr>ProcBitmap := (ProcBitmap t)(p := None)\<rparr>) k = runners t k - {p}"
  by (auto simp: runners_def)

lemma finite_runners: "finite (dom (ProcBitmap t)) \<Longrightarrow> finite (runners t k)"
  by (rule finite_subset [of _ "dom (ProcBitmap t)"]) (auto simp: runners_def)

lemma runners_cong: "ProcBitmap t = ProcBitmap t' \<Longrightarrow> runners t k = runners t' k"
  by (simp add: runners_def)

lemma task_inv_init: "task_inv init_task"
  by (auto simp: task_inv_def init_task_def runners_def)

text \<open>
  Replacing the bitmap of one process: \<open>f\<close> is the new process table, \<open>old\<close> and \<open>new\<close> the
  bits of process \<open>p\<close> before and after.
\<close>

lemma task_inv_update:
  assumes inv: "task_inv t"
    and up: "UpdateProcBitmap old new t = (m, t')"
    and old: "\<And>k. bit old k \<longleftrightarrow> p \<in> runners t k"
    and f: "\<And>k. runners (t'\<lparr>ProcBitmap := f\<rparr>) k =
              (if bit new k then insert p (runners t k) else runners t k - {p})"
    and dom: "finite (dom f)"
    and bits: "\<And>q m k. f q = Some m \<Longrightarrow> bit m k \<Longrightarrow> k < 2"
  shows "task_inv (t'\<lparr>ProcBitmap := f\<rparr>)"
proof -
  have len: "length (CountOfEachTaskKind t) = 2" and fin: "finite (dom (ProcBitmap t))"
    and cnt: "\<And>k. k < 2 \<Longrightarrow> CountOfEachTaskKind t ! k = of_nat (card (runners t k))"
    and glob: "\<And>k. bit (GlobalBitmap t) k \<longleftrightarrow> k < 2 \<and> CountOfEachTaskKind t ! k \<noteq> 0"
    using inv by (auto simp: task_inv_def)
  note eff = UpdateProcBitmap_effect [OF len up]
  have "CountOfEachTaskKind t' ! k = of_nat (card (runners (t'\<lparr>ProcBitmap := f\<rparr>) k))"
    if "k < 2" for k
    using eff(5) [OF that] cnt [OF that] old [of k]
      of_nat_card_move [OF finite_runners [OF fin], of "bit new k" p, where 'a = u32]
    by (simp add: f)
  then show ?thesis
    using eff glob dom bits by (auto simp: task_inv_def)
qed

lemma SetHighPrioTaskBitmap_cases:
  obtains (rejected) x where "SetHighPrioTaskBitmap s r t = (t, x)" and "\<nexists>b. r = ReadOk b \<and> b AND NOT TaskMask = 0"
  | (accepted) b m t' where "r = ReadOk b" and "b AND NOT TaskMask = 0"
      and "UpdateProcBitmap (case ProcBitmap t s of None \<Rightarrow> 0 | Some m \<Rightarrow> m) b t = (m, t')"
      and "SetHighPrioTaskBitmap s r t =
             (t'\<lparr>ProcBitmap := (ProcBitmap t')(s \<mapsto> m)\<rparr>, ReplyBool True)"
proof (cases "\<exists>b. r = ReadOk b \<and> b AND NOT TaskMask = 0")
  case True
  then obtain b where b: "r = ReadOk b" "b AND NOT TaskMask = 0" by blast
  obtain m t' where
    "UpdateProcBitmap (case ProcBitmap t s of None \<Rightarrow> 0 | Some m \<Rightarrow> m) b t = (m, t')"
    by fastforce
  with b show ?thesis by (intro accepted [OF b]) (auto simp: Let_def)
next
  case False
  then show ?thesis by (cases r) (auto intro: rejected)
qed

lemma SetHighPrioTaskBitmap_inv:
  assumes "task_inv t"
  shows "task_inv (fst (SetHighPrioTaskBitmap s r t))"
proof (cases rule: SetHighPrioTaskBitmap_cases [of s r t])
  case (accepted b m t')
  have len: "length (CountOfEachTaskKind t) = 2" using assms by (simp add: task_inv_def)
  note eff = UpdateProcBitmap_effect [OF len accepted(3)]
  have "task_inv (t'\<lparr>ProcBitmap := (ProcBitmap t')(s \<mapsto> m)\<rparr>)"
  proof (rule task_inv_update [OF assms accepted(3), where p = s])
    show "bit (case ProcBitmap t s of None \<Rightarrow> 0 | Some m \<Rightarrow> m) k \<longleftrightarrow> s \<in> runners t k" for k
      by (auto simp: runners_def split: option.splits)
    show "runners (t'\<lparr>ProcBitmap := (ProcBitmap t')(s \<mapsto> m)\<rparr>) k =
        (if bit b k then insert s (runners t k) else runners t k - {s})" for k
      unfolding runners_upd using eff(1) runners_cong [OF eff(2)] by simp
    show "finite (dom ((ProcBitmap t')(s \<mapsto> m)))"
      using assms eff(2) by (simp add: task_inv_def)
    show "\<And>q m' k. ((ProcBitmap t')(s \<mapsto> m)) q = Some m' \<Longrightarrow> bit m' k \<Longrightarrow> k < 2"
      using assms eff(1,2) accepted(2) by (auto simp: task_inv_def valid_bits split: if_splits)
  qed
  then show ?thesis using accepted(4) by simp
qed (use assms in auto)

lemma NameOwnerChangeWatcher_cases:
  obtains (ignored) x where "NameOwnerChangeWatcher r t = (t, x)"
      and "\<nexists>n old m. r = ReadOk (n, old, []) \<and> ProcBitmap t n = Some m"
  | (released) n old m m' t' where "r = ReadOk (n, old, [])" and "ProcBitmap t n = Some m"
      and "UpdateProcBitmap m 0 t = (m', t')"
      and "NameOwnerChangeWatcher r t =
             (t'\<lparr>ProcBitmap := (ProcBitmap t')(n := None)\<rparr>, HandlerRet 1)"
proof (cases "\<exists>n old m. r = ReadOk (n, old, []) \<and> ProcBitmap t n = Some m")
  case True
  then obtain n old m where r: "r = ReadOk (n, old, [])" "ProcBitmap t n = Some m" by blast
  obtain m' t' where "UpdateProcBitmap m 0 t = (m', t')" by fastforce
  with r show ?thesis by (intro released [OF r]) (auto simp: Let_def)
next
  case False
  then show ?thesis by (cases r) (auto intro: ignored split: option.splits if_splits)
qed

lemma NameOwnerChangeWatcher_inv:
  assumes "task_inv t"
  shows "task_inv (fst (NameOwnerChangeWatcher r t))"
proof (cases rule: NameOwnerChangeWatcher_cases [of r t])
  case (released n old m m' t')
  have len: "length (CountOfEachTaskKind t) = 2" using assms by (simp add: task_inv_def)
  note eff = UpdateProcBitmap_effect [OF len released(3)]
  have "task_inv (t'\<lparr>ProcBitmap := (ProcBitmap t')(n := None)\<rparr>)"
  proof (rule task_inv_update [OF assms released(3), where p = n])
    show "bit m k \<longleftrightarrow> n \<in> runners t k" for k
      using released(2) by (simp add: runners_def)
    show "runners (t'\<lparr>ProcBitmap := (ProcBitmap t')(n := None)\<rparr>) k =
        (if bit (0 :: u32) k then insert n (runners t k) else runners t k - {n})" for k
      unfolding runners_drop using runners_cong [OF eff(2)] by simp
    show "finite (dom ((ProcBitmap t')(n := None)))"
      using assms eff(2) by (simp add: task_inv_def)
    show "\<And>q m k. ((ProcBitmap t')(n := None)) q = Some m \<Longrightarrow> bit m k \<Longrightarrow> k < 2"
      using assms eff(2) by (auto simp: task_inv_def split: if_splits)
  qed
  then show ?thesis using released(4) by simp
qed (use assms in auto)

lemma task_inv_terminate: "task_inv (OnTerminate t) \<longleftrightarrow> task_inv t"
  by (simp add: task_inv_def OnTerminate_def runners_def)

lemma dispatch_inv: "task_inv (task d) \<Longrightarrow> task_inv (task (dispatch req d))"
  by (cases req) (simp_all add: SetHighPrioTaskBitmap_inv NameOwnerChangeWatcher_inv
      del: SetHighPrioTaskBitmap.simps NameOwnerChangeWatcher.simps)

lemma main_iter_inv:
  "task_inv (task d) \<Longrightarrow> main_iter d b = (d', r, go) \<Longrightarrow> task_inv (task d')"
  by (cases b) (auto simp: Let_def dispatch_inv split: if_splits)

lemma main_loop_inv:
  "task_inv (task d) \<Longrightarrow> main_loop is d ret = (d', r) \<Longrightarrow> task_inv (task d')"
proof (induction "is" d ret rule: main_loop.induct)
  case (2 i "is" d ret)
  then show ?case
    by (auto simp: task_inv_terminate dest: main_iter_inv
        split: if_splits main_input.splits prod.splits)
qed simp

lemma task_inv_global:
  assumes "task_inv t" and "card (runners t k) < 2 ^ 32"
  shows "bit (GlobalBitmap t) k \<longleftrightarrow> runners t k \<noteq> {}"
proof (cases "k < 2")
  case True
  have "finite (runners t k)" using assms(1) by (auto simp: task_inv_def intro: finite_runners)
  then show ?thesis
    using True assms by (simp add: task_inv_def of_nat_eq_0_small)
next
  case False
  then show ?thesis using assms(1) by (auto simp: task_inv_def runners_def)
qed

section \<open>The daemon provides the registry contract\<close>

definition bitmap_of :: "task_mgr \<Rightarrow> string \<Rightarrow> task_bitmap" where
  "bitmap_of t p = (case ProcBitmap t p of None \<Rightarrow> 0 | Some m \<Rightarrow> m)"

definition set_bitmap :: "string \<Rightarrow> task_bitmap \<Rightarrow> task_mgr \<Rightarrow> task_mgr" where
  "set_bitmap p m t = fst (SetHighPrioTaskBitmap p (ReadOk m) t)"

definition owner_gone :: "string \<Rightarrow> task_mgr \<Rightarrow> task_mgr" where
  "owner_gone p t = fst (NameOwnerChangeWatcher (ReadOk (p, p, [])) t)"

definition valid_bitmap :: "task_bitmap \<Rightarrow> bool" where
  "valid_bitmap m \<longleftrightarrow> m AND NOT TaskMask = 0"

lemma runners_bitmap_of: "{p. bit (bitmap_of t p) k} = runners t k"
  by (auto simp: bitmap_of_def runners_def split: option.splits)

interpretation reg: task_registry bitmap_of GlobalBitmap set_bitmap owner_gone valid_bitmap task_inv
proof
  fix t p m k
  assume inv: "task_inv t"
  then have len: "length (CountOfEachTaskKind t) = 2" by (simp add: task_inv_def)
  show "bitmap_of (set_bitmap p m t) = (bitmap_of t)(p := m)" if "valid_bitmap m"
    using that UpdateProcBitmap_effect(1,2) [OF len]
    by (cases rule: SetHighPrioTaskBitmap_cases [of p "ReadOk m" t])
       (auto simp: set_bitmap_def bitmap_of_def valid_bitmap_def fun_eq_iff
         simp del: SetHighPrioTaskBitmap.simps)
  show "set_bitmap p m t = t" if "\<not> valid_bitmap m"
    using that by (simp add: set_bitmap_def valid_bitmap_def)
  show "bitmap_of (owner_gone p t) = (bitmap_of t)(p := 0)"
    using UpdateProcBitmap_effect(2) [OF len]
    by (cases rule: NameOwnerChangeWatcher_cases [of "ReadOk (p, p, [])" t])
       (auto simp: owner_gone_def bitmap_of_def fun_eq_iff split: option.splits
         simp del: NameOwnerChangeWatcher.simps)
  show "task_inv (set_bitmap p m t)"
    unfolding set_bitmap_def using inv by (rule SetHighPrioTaskBitmap_inv)
  show "task_inv (owner_gone p t)"
    unfolding owner_gone_def using inv by (rule NameOwnerChangeWatcher_inv)
  show "finite {p. bit (bitmap_of t p) k}"
    using inv by (auto simp: runners_bitmap_of task_inv_def intro: finite_runners)
  show "bit (GlobalBitmap t) k \<longleftrightarrow> (\<exists>p. bit (bitmap_of t p) k)"
    if "card {p. bit (bitmap_of t p) k} < 2 ^ 32"
    using task_inv_global [OF inv] that runners_bitmap_of [of t k] by auto
qed

section \<open>What the daemon announces\<close>

definition init_daemon :: "gbl_config \<Rightarrow> daemon" where
  "init_daemon c = \<lparr>cfg = c, task = init_task, LastBitmap = 0, Signals = []\<rparr>"

text \<open>What the bus has been told last; before the first signal, no kind is taken.\<close>

definition told :: "daemon \<Rightarrow> task_bitmap" where
  "told d = last (0 # Signals d)"

definition signals_inv :: "daemon \<Rightarrow> bool" where
  "signals_inv d \<longleftrightarrow> distinct_adj (0 # Signals d) \<and> told d = LastBitmap d"

lemma signals_inv_init: "signals_inv (init_daemon c)"
  by (simp add: signals_inv_def init_daemon_def told_def)

lemma distinct_adj_snoc:
  "distinct_adj (xs @ [y]) \<longleftrightarrow> distinct_adj xs \<and> (xs = [] \<or> last xs \<noteq> y)"
  by (auto simp: distinct_adj_append_iff)

lemma distinct_adj_signal:
  "distinct_adj (0 # xs @ [y]) \<longleftrightarrow> distinct_adj (0 # xs) \<and> last (0 # xs) \<noteq> y"
  using distinct_adj_snoc [of "0 # xs" y] by simp

lemma dispatch_frame:
  "Signals (dispatch req d) = Signals d" "LastBitmap (dispatch req d) = LastBitmap d"
  "cfg (dispatch req d) = cfg d"
  by (cases req; simp del: SetHighPrioTaskBitmap.simps NameOwnerChangeWatcher.simps)+

lemma main_iter_distinct:
  "signals_inv d \<Longrightarrow> main_iter d b = (d', r, go) \<Longrightarrow>
     distinct_adj (0 # Signals d') \<and> (go \<longrightarrow> signals_inv d')"
  by (cases b) (auto simp: signals_inv_def told_def Let_def dispatch_frame distinct_adj_signal
      split: if_splits)

lemma main_loop_distinct:
  "signals_inv d \<Longrightarrow> main_loop is d ret = (d', r) \<Longrightarrow> distinct_adj (0 # Signals d')"
proof (induction "is" d ret rule: main_loop.induct)
  case (1 d ret)
  then show ?case by (simp add: signals_inv_def)
next
  case (2 i "is" d ret)
  have frame: "signals_inv (d\<lparr>task := t\<rparr>) \<longleftrightarrow> signals_inv d"
      "signals_inv (d\<lparr>cfg := c\<rparr>) \<longleftrightarrow> signals_inv d" for t c
    by (simp_all add: signals_inv_def told_def)
  show ?case
  proof (cases "IsOnTerminate (task d)")
    case True
    then show ?thesis using 2 by (simp add: signals_inv_def)
  next
    case False
    then show ?thesis
      using 2 by (cases i) (auto simp: frame split: prod.splits if_splits dest: main_iter_distinct)
  qed
qed

lemma startup_state:
  "main_startup argv e = Inr (mode, d) \<Longrightarrow>
     length argv = 4 \<and> task_inv (task d) \<and> signals_inv d \<and>
     (mode = DAEMON \<longleftrightarrow> argv ! 1 = ''daemon'')"
  by (auto simp: main_startup_def task_inv_init signals_inv_def told_def
      split: if_splits prod.splits)

lemma reload_failure_is_partial:
  "LoadConfig (Doc (Value p) Bad_Conversion) c = (c\<lparr>CompilerPath := p\<rparr>, False)"
  by simp

section \<open>Properties\<close>

text \<open>
  C15. Whatever the main loop has processed, bit \<open>k\<close> of the global bitmap is set exactly
  when some process that is still on the bus has bit \<open>k\<close> in its own bitmap, as long as fewer
  than \<open>2^32\<close> processes run that kind (the counters are 32 bits wide).
\<close>

theorem daemon_global_exact:
  assumes "main_loop is (init_daemon c) 0 = (d, r)" and "card (runners (task d) k) < 2 ^ 32"
  shows "bit (GlobalBitmap (task d)) k \<longleftrightarrow>
     (\<exists>p m. ProcBitmap (task d) p = Some m \<and> bit m k)"
proof -
  have "task_inv (task (init_daemon c))" by (simp add: init_daemon_def task_inv_init)
  then have "task_inv (task d)" using assms(1) by (rule main_loop_inv)
  from task_inv_global [OF this assms(2)] show ?thesis by (auto simp: runners_def)
qed

lemma daemon_global_exact_witness:
  "\<exists>d r. main_loop [Bus (Processed 1 (Req_SetBitmap ''a'' (ReadOk 2))),
            Bus (Processed 1 (Req_SetBitmap ''b'' (ReadOk 3))),
            Bus (Processed 1 (Req_NameOwner (ReadOk (''b'', ''b'', []))))]
            (init_daemon \<lparr>CompilerPath = ''cc'', Threshold = 9\<rparr>) 0 = (d, r)
       \<and> card (runners (task d) 1) < 2 ^ 32 \<and> bit (GlobalBitmap (task d)) 1"
proof -
  let ?is = "[Bus (Processed 1 (Req_SetBitmap ''a'' (ReadOk 2))),
      Bus (Processed 1 (Req_SetBitmap ''b'' (ReadOk 3))),
      Bus (Processed 1 (Req_NameOwner (ReadOk (''b'', ''b'', []))))]"
  obtain d r where run: "main_loop ?is (init_daemon \<lparr>CompilerPath = ''cc'', Threshold = 9\<rparr>) 0 = (d, r)"
    by fastforce
  then have proc: "ProcBitmap (task d) = [''a'' \<mapsto> 2]"
    by (auto simp: init_daemon_def init_task_def TaskMask_eq mask_eq_exp_minus_1
        UpdateProcBitmap_def Let_def split: prod.splits)
  have "runners (task d) 1 \<subseteq> {''a''}" by (auto simp: runners_def proc split: if_splits)
  then have "card (runners (task d) 1) < 2 ^ 32"
    using card_mono [of "{''a''}" "runners (task d) 1"] by simp
  moreover have "bit (GlobalBitmap (task d)) 1"
    using daemon_global_exact [OF run calculation] by (simp add: proc word_facts)
  ultimately show ?thesis using run by blast
qed

text \<open>
  C16. For every history of accepted and rejected bitmap requests and departures, the global
  bitmap is the disjunction of the bitmaps the processes are left with: the last valid
  request of each, or zero when it left the bus since.
\<close>

theorem daemon_history:
  assumes "card {p. bit (reg.last_view ops (\<lambda>_. 0) p) k} < 2 ^ 32"
  shows "bit (GlobalBitmap (fold reg.apply_op ops init_task)) k \<longleftrightarrow>
     (\<exists>p. bit (reg.last_view ops (\<lambda>_. 0) p) k)"
proof -
  have "bitmap_of init_task = (\<lambda>_. 0)" by (simp add: fun_eq_iff bitmap_of_def init_task_def)
  then show ?thesis using assms reg.global_run [OF task_inv_init, of ops k] by simp
qed

lemma daemon_history_witness:
  "bit (GlobalBitmap (fold reg.apply_op
      [Publish ''a'' 3, Publish ''b'' 4, Retire ''a'', Publish ''c'' 1] init_task)) 0"
proof -
  let ?ops = "[Publish ''a'' 3, Publish ''b'' 4, Retire ''a'', Publish ''c'' 1]"
  have view: "reg.last_view ?ops (\<lambda>_. 0) = (\<lambda>_. 0)(''c'' := 1)"
    by (auto simp: valid_bitmap_def TaskMask_eq mask_eq_exp_minus_1)
  have "{p. bit (reg.last_view ?ops (\<lambda>_. 0) p) 0} = {''c''}"
    unfolding view by auto
  then have "card {p. bit (reg.last_view ?ops (\<lambda>_. 0) p) 0} < 2 ^ 32" by simp
  then have "bit (GlobalBitmap (fold reg.apply_op ?ops init_task)) 0 \<longleftrightarrow>
      (\<exists>p. bit (reg.last_view ?ops (\<lambda>_. 0) p) 0)"
    by (rule daemon_history)
  then show ?thesis unfolding view by auto
qed



text \<open>
  C18. A bitmap request is granted exactly when it names no bit beyond the task kinds; a
  denied request leaves the daemon's state as it was.
\<close>

theorem set_bitmap_verdict:
  "\<exists>t'. SetHighPrioTaskBitmap s (ReadOk b) t = (t', ReplyBool (\<forall>k. bit b k \<longrightarrow> k < NumOfTaskKind))
     \<and> ((\<exists>k. bit b k \<and> \<not> k < NumOfTaskKind) \<longrightarrow> t' = t)"
  by (cases "b AND NOT TaskMask = 0") (auto simp: valid_bits Let_def split: prod.splits)

lemma set_bitmap_verdict_witness:
  "\<exists>t'. SetHighPrioTaskBitmap ''x'' (ReadOk 4) init_task = (t', ReplyBool False) \<and> t' = init_task"
proof -
  have bad: "bit (4 :: u32) 2 \<and> \<not> (2::nat) < NumOfTaskKind" by simp
  then have no: "(\<forall>k. bit (4 :: u32) k \<longrightarrow> k < NumOfTaskKind) = False" by blast
  show ?thesis using set_bitmap_verdict [of "''x''" 4 init_task, unfolded no] bad by blast
qed

end
