(* ===== verification/SchedHigh.thy ===== *)
theory SchedHigh
  imports Daemon
begin

text \<open>
  Model of the schedule service of a high priority process,
  \<open>runtime/ScheduleService.cpp\<close>: \<open>SchedStart\<close> and \<open>SchedEnd\<close> count the running tasks
  of each kind and arm one timer per kind, and the worker thread reports the bitmap of busy
  kinds to the daemon. A kind is reported busy at once; it is reported idle only when its
  timer, armed for one second at the end of its last task, has gone off.

  The functions run under the service's mutex, so each is one atomic step; between
  \<open>ppoll\<close> and taking the mutex the worker is interrupted by other threads, and time passes
  everywhere. Time is in nanoseconds. A timer is the moment it goes off, \<open>None\<close> when it is
  disarmed or its expiration was read.
\<close>

section \<open>The code\<close>

record high =
  Count :: "u32 list"
  TimerFd :: "nat option list"
  Bitmap :: task_bitmap
  OldBitmap :: task_bitmap
  now :: nat
  idle_since :: "nat list"

text \<open>
  \<open>OldBitmap\<close> is a local variable of the worker. \<open>idle_since\<close> is not in the code: it
  records when a kind's last task ended, for the statements below.
\<close>

definition init_high :: high where
  "init_high = \<lparr>Count = [0, 0], TimerFd = [None, None], Bitmap = 0, OldBitmap = 0, now = 0,
     idle_since = [0, 0]\<rparr>"

definition GenOneTimeTimerSpec :: "nat \<Rightarrow> nat \<Rightarrow> nat" where
  "GenOneTimeTimerSpec Sec NanoSec = Sec * 10 ^ 9 + NanoSec"

definition timerfd_settime :: "nat \<Rightarrow> nat \<Rightarrow> high \<Rightarrow> high" where
  "timerfd_settime Kind Spec h = h\<lparr>TimerFd := (TimerFd h)[Kind := Some (now h + Spec)]\<rparr>"

text \<open>\<open>Ret\<close> is what \<open>timerfd_settime\<close> returns, if it is called.\<close>

definition SchedStart_high :: "task_kind \<Rightarrow> int \<Rightarrow> high \<Rightarrow> high outcome" where
  "SchedStart_high K Ret h =
     (let Kind = kind_nat K; Mask = push_bit Kind 1
      in if length (Count h) \<le> Kind then Crash
         else
           let OldCount = Count h ! Kind;
               h = h\<lparr>Count := (Count h)[Kind := OldCount + 1],
                     Bitmap := AssignBits (Bitmap h) (1 :: u32) Mask\<rparr>
           in if OldCount \<noteq> 0 then Ok h
              else if Ret = 0 then Ok (timerfd_settime Kind (GenOneTimeTimerSpec 0 1) h)
              else Abort)"

definition SchedEnd_high :: "task_kind \<Rightarrow> int \<Rightarrow> high \<Rightarrow> high outcome" where
  "SchedEnd_high K Ret h =
     (let Kind = kind_nat K; Mask = push_bit Kind 1
      in if length (Count h) \<le> Kind then Crash
         else
           let NewCount = Count h ! Kind - 1;
               h = h\<lparr>Count := (Count h)[Kind := NewCount],
                     Bitmap := AssignBits (Bitmap h) NewCount Mask,
                     idle_since := (if NewCount = 0 then (idle_since h)[Kind := now h] else idle_since h)\<rparr>
           in if NewCount \<noteq> 0 then Ok h
              else if Ret = 0 then Ok (timerfd_settime Kind (GenOneTimeTimerSpec 1 0) h)
              else Abort)"

text \<open>
  What \<open>ppoll\<close> says of a timer: readable, or one of the three error conditions. What
  \<open>read\<close> then does: it gets data, or fails with an error number.
\<close>

record revent =
  POLLIN :: bool
  POLLBAD :: bool

datatype read_result = ReadData | ReadErrno int

definition EAGAIN :: int where "EAGAIN = 11"

fun StageKinds ::
  "(revent \<times> read_result) list \<Rightarrow> task_bitmap \<Rightarrow> task_bitmap \<Rightarrow> task_bitmap \<Rightarrow> task_bitmap outcome" where
  "StageKinds [] ClearedBitmap Mask MapToSet = Ok MapToSet"
| "StageKinds ((RetEvent, Read) # es) ClearedBitmap Mask MapToSet =
     (if POLLBAD RetEvent then Abort
      else if POLLIN RetEvent \<and> Read = ReadData
      then StageKinds es ClearedBitmap (push_bit 1 Mask) MapToSet
      else if POLLIN RetEvent \<and> Read \<noteq> ReadErrno EAGAIN then Abort
      else StageKinds es ClearedBitmap (push_bit 1 Mask)
             (if ClearedBitmap AND Mask \<noteq> 0 then MapToSet XOR Mask else MapToSet))"

definition was_read :: "revent \<times> read_result \<Rightarrow> bool" where
  "was_read e \<longleftrightarrow> POLLIN (fst e) \<and> snd e = ReadData"

text \<open>One turn of the worker under the mutex; the bitmap to report, if there is one.\<close>

definition HighPrioTurn ::
  "(revent \<times> read_result) list \<Rightarrow> high \<Rightarrow> (high \<times> task_bitmap option) outcome" where
  "HighPrioTurn es h =
     (let ClearedBitmap = OldBitmap h AND (Bitmap h XOR - 1)
      in bindO (StageKinds es ClearedBitmap 1 (Bitmap h)) (\<lambda>MapToSet.
           let h = h\<lparr>TimerFd := map2 (\<lambda>e d. if was_read e then None else d) es (TimerFd h)\<rparr>
           in Ok (if MapToSet = OldBitmap h then (h, None)
                  else (h\<lparr>OldBitmap := MapToSet\<rparr>, Some MapToSet))))"

text \<open>The report: the result of the method call, then its answer.\<close>

definition Report :: "int \<Rightarrow> bool bus_read \<Rightarrow> unit outcome" where
  "Report Ret Msg =
     (if Ret < 0 then Abort
      else case Msg of ReadFail e \<Rightarrow> Abort | ReadOk IsGranted \<Rightarrow> if IsGranted then Ok () else Abort)"

section \<open>The process as a state machine\<close>

datatype worker = Polling | Woken "revent list" | Reporting task_bitmap

record proc =
  srv :: high
  pc :: worker
  sent :: "task_bitmap list"

definition init_proc :: proc where
  "init_proc = \<lparr>srv = init_high, pc = Polling, sent = []\<rparr>"

definition readable :: "high \<Rightarrow> nat \<Rightarrow> bool" where
  "readable h k \<longleftrightarrow> (\<exists>d. TimerFd h ! k = Some d \<and> d \<le> now h)"

text \<open>
  A turn begins at one moment and ends at a later one: a timer that goes off in between may
  be read or missed.
\<close>

definition read_result_ok :: "high \<Rightarrow> high \<Rightarrow> nat \<Rightarrow> read_result \<Rightarrow> bool" where
  "read_result_ok h h' k r \<longleftrightarrow>
     r = ReadData \<and> readable h' k \<or> r = ReadErrno EAGAIN \<and> \<not> readable h k"

inductive hstep :: "proc \<Rightarrow> proc \<Rightarrow> bool" where
  tick: "now (srv p) \<le> t \<Longrightarrow> hstep p (p\<lparr>srv := (srv p)\<lparr>now := t\<rparr>\<rparr>)"
| start: "Count (srv p) ! kind_nat K \<noteq> - 1 \<Longrightarrow> SchedStart_high K 0 (srv p) = Ok h \<Longrightarrow>
     hstep p (p\<lparr>srv := h\<rparr>)"
| finish: "Count (srv p) ! kind_nat K \<noteq> 0 \<Longrightarrow> SchedEnd_high K 0 (srv p) = Ok h \<Longrightarrow>
     hstep p (p\<lparr>srv := h\<rparr>)"
| poll: "pc p = Polling \<Longrightarrow> length es = NumOfTaskKind \<Longrightarrow>
     \<forall>k < NumOfTaskKind. POLLIN (es ! k) \<longrightarrow> readable (srv p) k \<Longrightarrow>
     hstep p (p\<lparr>pc := Woken es\<rparr>)"
| turn: "pc p = Woken es \<Longrightarrow> length rs = NumOfTaskKind \<Longrightarrow> now (srv p) \<le> t \<Longrightarrow>
     h = (srv p)\<lparr>now := t\<rparr> \<Longrightarrow>
     \<forall>k < NumOfTaskKind. POLLIN (es ! k) \<longrightarrow> read_result_ok (srv p) h k (rs ! k) \<Longrightarrow>
     HighPrioTurn (zip es rs) h = Ok (h', m) \<Longrightarrow>
     hstep p (p\<lparr>srv := h', pc := (case m of None \<Rightarrow> Polling | Some b \<Rightarrow> Reporting b)\<rparr>)"
| report: "pc p = Reporting b \<Longrightarrow> hstep p (p\<lparr>pc := Polling, sent := sent p @ [b]\<rparr>)"

section \<open>What the functions do to the bits\<close>

lemma list_2_cases: "length es = 2 \<Longrightarrow> es = [es ! 0, es ! 1]"
  by (auto simp: list_eq_2)

lemma and_bit_iff:
  "(C :: u32) AND 1 = 0 \<longleftrightarrow> \<not> bit C 0" "C AND 2 = 0 \<longleftrightarrow> \<not> bit C 1"
  using and_exp_eq_0_iff_not_bit [of C 0] and_exp_eq_0_iff_not_bit [of C 1] by simp_all

text \<open>
  The staged bitmap has every busy kind, and of the kinds that became idle those whose
  timer was not read.
\<close>

lemma StageKinds_bits:
  assumes "length es = 2" and "StageKinds es (Old AND (B XOR - 1)) 1 B = Ok M"
  shows "bit M k \<longleftrightarrow> bit B k \<or> k < 2 \<and> bit Old k \<and> \<not> was_read (es ! k)"
proof -
  obtain e0 r0 e1 r1 where es: "es = [(e0, r0), (e1, r1)]"
    using assms(1) by (auto simp: list_eq_2)
  show ?thesis
    using assms(2) unfolding es
    by (cases "k < 2")
      (auto simp: and_bit_iff word_facts bit_simps was_read_def less_2_iff split: if_splits
        dest: bit_imp_le_length)
qed

lemma StageKinds_no_abort:
  assumes "\<forall>x \<in> set es. \<not> POLLBAD (fst x) \<and> (POLLIN (fst x) \<longrightarrow> snd x \<in> {ReadData, ReadErrno EAGAIN})"
  shows "\<exists>M. StageKinds es C Mask B = Ok M"
  using assms by (induction es C Mask B rule: StageKinds.induct) auto

lemma HighPrioTurn_effect:
  assumes "length es = 2" and "HighPrioTurn es h = Ok (h', m)"
  shows "Count h' = Count h" "Bitmap h' = Bitmap h" "now h' = now h" "idle_since h' = idle_since h"
    and "length (TimerFd h) = 2 \<Longrightarrow> length (TimerFd h') = 2"
    and "length (TimerFd h) = 2 \<Longrightarrow> k < 2 \<Longrightarrow>
          TimerFd h' ! k = (if was_read (es ! k) then None else TimerFd h ! k)"
    and "bit (OldBitmap h') k \<longleftrightarrow>
          bit (Bitmap h) k \<or> k < 2 \<and> bit (OldBitmap h) k \<and> \<not> was_read (es ! k)"
    and "m = (if OldBitmap h' = OldBitmap h then None else Some (OldBitmap h'))"
proof -
  obtain M where M: "StageKinds es (OldBitmap h AND (Bitmap h XOR - 1)) 1 (Bitmap h) = Ok M"
      and h': "h' = h\<lparr>TimerFd := map2 (\<lambda>e d. if was_read e then None else d) es (TimerFd h), OldBitmap := M\<rparr>"
      and m: "m = (if M = OldBitmap h then None else Some M)"
    using assms(2) by (auto simp: HighPrioTurn_def Let_def split: if_splits)
  show "Count h' = Count h" "Bitmap h' = Bitmap h" "now h' = now h" "idle_since h' = idle_since h"
    "length (TimerFd h) = 2 \<Longrightarrow> length (TimerFd h') = 2"
    "length (TimerFd h) = 2 \<Longrightarrow> k < 2 \<Longrightarrow>
       TimerFd h' ! k = (if was_read (es ! k) then None else TimerFd h ! k)"
    "m = (if OldBitmap h' = OldBitmap h then None else Some (OldBitmap h'))"
    using assms(1) by (simp_all add: h' m)
  show "bit (OldBitmap h') k \<longleftrightarrow>
          bit (Bitmap h) k \<or> k < 2 \<and> bit (OldBitmap h) k \<and> \<not> was_read (es ! k)"
    using StageKinds_bits [OF assms(1) M] by (simp add: h')
qed

section \<open>The invariant\<close>

text \<open>
  A busy kind the daemon does not know of has a timer that goes off within a nanosecond; an
  idle kind the daemon takes for busy has one that goes off a second after it became idle.
\<close>

definition kind_inv :: "high \<Rightarrow> nat \<Rightarrow> bool" where
  "kind_inv h k \<longleftrightarrow> (bit (Bitmap h) k \<longleftrightarrow> Count h ! k \<noteq> 0) \<and>
     (bit (Bitmap h) k \<and> \<not> bit (OldBitmap h) k \<longrightarrow> (\<exists>d. TimerFd h ! k = Some d \<and> d \<le> now h + 1)) \<and>
     (\<not> bit (Bitmap h) k \<and> bit (OldBitmap h) k \<longrightarrow> TimerFd h ! k = Some (idle_since h ! k + 10 ^ 9))"

definition high_inv :: "high \<Rightarrow> bool" where
  "high_inv h \<longleftrightarrow> length (Count h) = 2 \<and> length (TimerFd h) = 2 \<and> length (idle_since h) = 2 \<and>
     (\<forall>k. bit (Bitmap h) k \<or> bit (OldBitmap h) k \<longrightarrow> k < 2) \<and> (\<forall>k < 2. kind_inv h k)"

text \<open>What was sent, and what is about to be: the old bitmap last, no report twice in a row.\<close>

definition unsent :: "worker \<Rightarrow> task_bitmap list" where
  "unsent w = (case w of Reporting b \<Rightarrow> [b] | _ \<Rightarrow> [])"

definition sent_inv :: "proc \<Rightarrow> bool" where
  "sent_inv p \<longleftrightarrow> last (0 # sent p @ unsent (pc p)) = OldBitmap (srv p) \<and>
     distinct_adj (0 # sent p @ unsent (pc p)) \<and>
     (\<forall>b \<in> set (sent p @ unsent (pc p)). \<forall>k. bit b k \<longrightarrow> k < 2) \<and>
     (\<forall>es. pc p = Woken es \<longrightarrow> length es = 2)"

definition proc_inv :: "proc \<Rightarrow> bool" where
  "proc_inv p \<longleftrightarrow> high_inv (srv p) \<and> sent_inv p"

lemma proc_inv_init: "proc_inv init_proc"
  by (auto simp: proc_inv_def high_inv_def kind_inv_def sent_inv_def unsent_def init_proc_def init_high_def less_2_iff)

text \<open>What the two calls leave: the new counter, its bit, and the timer if the counter crossed 0.\<close>

lemma SchedStart_high_effect:
  assumes "SchedStart_high K 0 h = Ok h'"
  defines "j \<equiv> kind_nat K"
  shows "j < length (Count h)"
    and "h' = h\<lparr>Count := (Count h)[j := Count h ! j + 1], Bitmap := AssignBits (Bitmap h) (1 :: u32) (push_bit j 1),
           TimerFd := (if Count h ! j = 0 then (TimerFd h)[j := Some (now h + 1)] else TimerFd h)\<rparr>"
  using assms unfolding SchedStart_high_def Let_def timerfd_settime_def GenOneTimeTimerSpec_def j_def
  by (auto split: if_split_asm)

lemma SchedEnd_high_effect:
  assumes "SchedEnd_high K 0 h = Ok h'"
  defines "j \<equiv> kind_nat K"
  defines "c \<equiv> Count h ! j - 1"
  shows "j < length (Count h)"
    and "h' = h\<lparr>Count := (Count h)[j := c], Bitmap := AssignBits (Bitmap h) c (push_bit j 1),
           TimerFd := (if c = 0 then (TimerFd h)[j := Some (now h + 10 ^ 9)] else TimerFd h),
           idle_since := (if c = 0 then (idle_since h)[j := now h] else idle_since h)\<rparr>"
  using assms unfolding SchedEnd_high_def Let_def timerfd_settime_def GenOneTimeTimerSpec_def j_def c_def
  by (auto split: if_split_asm)

lemma SchedStart_high_inv:
  assumes inv: "high_inv h" and "Count h ! kind_nat K \<noteq> - 1" and st: "SchedStart_high K 0 h = Ok h'"
  shows "high_inv h' \<and> OldBitmap h' = OldBitmap h"
proof -
  have one: "Count h ! kind_nat K + 1 \<noteq> 0" using assms(2) by (metis eq_neg_iff_add_eq_0)
  have "kind_nat K < 2" using SchedStart_high_effect(1) [OF st] inv by (simp add: high_inv_def)
  then show ?thesis
    using inv one unfolding SchedStart_high_effect(2) [OF st]
    by (auto simp: high_inv_def kind_inv_def word_facts nth_list_update)
qed

lemma SchedEnd_high_inv:
  assumes inv: "high_inv h" and "Count h ! kind_nat K \<noteq> 0" and st: "SchedEnd_high K 0 h = Ok h'"
  shows "high_inv h' \<and> OldBitmap h' = OldBitmap h"
proof -
  have "kind_nat K < 2" using SchedEnd_high_effect(1) [OF st] inv by (simp add: high_inv_def)
  then show ?thesis
    using inv assms(2) unfolding SchedEnd_high_effect(2) [OF st]
    by (auto simp: high_inv_def kind_inv_def word_facts nth_list_update)
qed

lemma HighPrioTurn_inv:
  assumes inv: "high_inv h" and "length es = 2" and "HighPrioTurn es h = Ok (h', m)"
  shows "high_inv h'"
proof -
  note eff = HighPrioTurn_effect [OF assms(2,3)]
  have "kind_inv h' k" if "k < 2" for k
    using inv that eff by (auto simp: high_inv_def kind_inv_def)
  then show ?thesis using inv eff by (auto simp: high_inv_def)
qed

lemma high_inv_later: "high_inv h \<Longrightarrow> now h \<le> t \<Longrightarrow> high_inv (h\<lparr>now := t\<rparr>)"
  by (force simp: high_inv_def kind_inv_def)

lemma hstep_inv: "hstep p p' \<Longrightarrow> proc_inv p \<Longrightarrow> proc_inv p'"
proof (induction rule: hstep.induct)
  case (tick p t)
  then show ?case using high_inv_later [of "srv p" t] by (simp add: proc_inv_def sent_inv_def)
next
  case (start p K h)
  then show ?case using SchedStart_high_inv [of "srv p" K h] by (simp add: proc_inv_def sent_inv_def)
next
  case (finish p K h)
  then show ?case using SchedEnd_high_inv [of "srv p" K h] by (simp add: proc_inv_def sent_inv_def)
next
  case (poll p es)
  then show ?case by (simp add: proc_inv_def sent_inv_def unsent_def)
next
  case (turn p es rs t h h' m)
  let ?S = "0 # sent p"
  have h: "high_inv h" and len: "length (zip es rs) = 2"
    using turn high_inv_later [of "srv p" t] by (simp_all add: proc_inv_def sent_inv_def)
  note eff = HighPrioTurn_effect [OF len turn(6)]
  have inv': "high_inv h'" using HighPrioTurn_inv [OF h len turn(6)] .
  have S: "last ?S = OldBitmap (srv p)" "distinct_adj ?S" "\<forall>b \<in> set (sent p). \<forall>k. bit b k \<longrightarrow> k < 2"
    using turn(1,7) by (simp_all add: proc_inv_def sent_inv_def unsent_def)
  have old: "OldBitmap h = OldBitmap (srv p)" by (simp add: turn(4))
  show ?case
  proof (cases "OldBitmap h' = OldBitmap h")
    case True
    then show ?thesis using inv' S old eff(8) by (simp add: proc_inv_def sent_inv_def unsent_def)
  next
    case False
    then have "distinct_adj (?S @ [OldBitmap h'])"
      using S(1,2) old by (subst distinct_adj_append_iff) auto
    moreover have "bit (OldBitmap h') k \<Longrightarrow> k < 2" for k using inv' by (simp add: high_inv_def)
    ultimately show ?thesis
      using False inv' S(3) eff(8) by (auto simp: proc_inv_def sent_inv_def unsent_def)
  qed
next
  case (report p b)
  then show ?case by (auto simp: proc_inv_def sent_inv_def unsent_def)
qed

lemma reachable_inv: "hstep\<^sup>*\<^sup>* init_proc p \<Longrightarrow> proc_inv p"
  by (induction rule: rtranclp_induct) (auto intro: proc_inv_init hstep_inv)

text \<open>Only a turn of the worker changes the reported bitmap.\<close>

lemma turn_of_step:
  assumes "hstep p p'" and "proc_inv p" and "OldBitmap (srv p') \<noteq> OldBitmap (srv p)"
  obtains es rs t m where "pc p = Woken es" "length rs = 2" "now (srv p) \<le> t" "length es = 2"
    "\<forall>k < 2. POLLIN (es ! k) \<longrightarrow> read_result_ok (srv p) ((srv p)\<lparr>now := t\<rparr>) k (rs ! k)"
    "HighPrioTurn (zip es rs) ((srv p)\<lparr>now := t\<rparr>) = Ok (srv p', m)"
  using assms(1)
proof (cases rule: hstep.cases)
  case (start K h)
  then show ?thesis using assms SchedStart_high_inv [of "srv p" K h] by (simp add: proc_inv_def)
next
  case (finish K h)
  then show ?thesis using assms SchedEnd_high_inv [of "srv p" K h] by (simp add: proc_inv_def)
next
  case (turn es rs t h h' m)
  then show ?thesis using that [of es rs t m] assms(2) by (simp add: proc_inv_def sent_inv_def)
qed (use assms(3) in simp_all)

section \<open>A run\<close>

text \<open>A computing task starts, its timer goes off, the worker wakes up and reports.\<close>

definition demo_events :: "revent list" where
  "demo_events = [\<lparr>POLLIN = True, POLLBAD = False\<rparr>, \<lparr>POLLIN = False, POLLBAD = False\<rparr>]"

definition demo_reads :: "read_result list" where
  "demo_reads = [ReadData, ReadErrno EAGAIN]"

definition demo_started :: high where
  "demo_started = init_high\<lparr>Count := [1, 0], Bitmap := 1, TimerFd := [Some 1, None]\<rparr>"

definition demo_woken :: proc where
  "demo_woken = \<lparr>srv = demo_started\<lparr>now := 1\<rparr>, pc = Woken demo_events, sent = []\<rparr>"

definition demo_reported :: high where
  "demo_reported = demo_started\<lparr>now := 1, TimerFd := [None, None], OldBitmap := 1\<rparr>"

lemmas demo_defs = demo_events_def demo_reads_def demo_started_def demo_woken_def demo_reported_def
  init_proc_def init_high_def

lemma AssignBits_demo: "AssignBits 0 (1 :: u32) 1 = 1"
  by (rule bit_word_eqI) (auto simp: word_facts)

lemma demo_woken_reachable: "hstep\<^sup>*\<^sup>* init_proc demo_woken"
proof -
  have "hstep init_proc (init_proc\<lparr>srv := demo_started\<rparr>)"
    by (rule hstep.start [where K = COMPUTING])
      (simp_all add: SchedStart_high_def Let_def demo_defs timerfd_settime_def GenOneTimeTimerSpec_def AssignBits_demo)
  then have "hstep\<^sup>*\<^sup>* init_proc (init_proc\<lparr>srv := demo_started\<rparr>)" by (rule r_into_rtranclp)
  also have "hstep \<dots> (init_proc\<lparr>srv := demo_started\<lparr>now := 1\<rparr>\<rparr>)"
    using hstep.tick [of "init_proc\<lparr>srv := demo_started\<rparr>" 1] by (simp add: demo_defs)
  also have "hstep \<dots> demo_woken"
    using hstep.poll [of "init_proc\<lparr>srv := demo_started\<lparr>now := 1\<rparr>\<rparr>" demo_events]
    by (simp add: demo_defs readable_def less_2_iff)
  finally show ?thesis .
qed

lemma demo_turn: "HighPrioTurn (zip demo_events demo_reads) (srv demo_woken) = Ok (demo_reported, Some 1)"
  by (simp add: HighPrioTurn_def demo_defs was_read_def)

lemma demo_report: "hstep demo_woken (demo_woken\<lparr>srv := demo_reported, pc := Reporting 1\<rparr>)"
  using hstep.turn [of demo_woken demo_events demo_reads 1 "srv demo_woken" demo_reported "Some 1"]
  by (simp add: demo_turn) (auto simp: demo_defs less_2_iff read_result_ok_def readable_def)

section \<open>Properties\<close>

text \<open>
  C7. The worker reports a kind as busy only while a task of that kind runs, and withdraws it
  only when none has run for a whole second: whenever a step of a reachable process changes
  the reported bitmap, each bit it sets belongs to a kind with a positive counter, and each
  bit it clears to a kind whose counter is 0 and whose last task ended at least \<open>10 ^ 9\<close>
  nanoseconds before.
\<close>

theorem high_reports_soundly:
  assumes "hstep\<^sup>*\<^sup>* init_proc p" and "hstep p p'"
  shows "(bit (OldBitmap (srv p')) k \<and> \<not> bit (OldBitmap (srv p)) k \<longrightarrow> Count (srv p) ! k \<noteq> 0) \<and>
    (bit (OldBitmap (srv p)) k \<and> \<not> bit (OldBitmap (srv p')) k \<longrightarrow>
       Count (srv p) ! k = 0 \<and> idle_since (srv p) ! k + 10 ^ 9 \<le> now (srv p'))"
proof (cases "OldBitmap (srv p') = OldBitmap (srv p)")
  case False
  have inv: "proc_inv p" using assms(1) by (rule reachable_inv)
  then obtain es rs t m where t: "length (zip es rs) = 2" "length rs = 2" "length es = 2"
      "\<forall>k < 2. POLLIN (es ! k) \<longrightarrow> read_result_ok (srv p) ((srv p)\<lparr>now := t\<rparr>) k (rs ! k)"
      "HighPrioTurn (zip es rs) ((srv p)\<lparr>now := t\<rparr>) = Ok (srv p', m)"
    using turn_of_step [OF assms(2) _ False] by (metis length_zip min.idem)
  note eff = HighPrioTurn_effect [OF t(1,5)]
  have "high_inv (srv p)" using inv by (simp add: proc_inv_def)
  then have k: "bit (Bitmap (srv p)) k \<or> bit (OldBitmap (srv p)) k \<Longrightarrow> k < 2 \<and> kind_inv (srv p) k"
    by (auto simp: high_inv_def)
  have "d \<le> t" if "k < 2" "was_read (zip es rs ! k)" "TimerFd (srv p) ! k = Some d" for d
    using that t(2,3,4) by (auto simp: was_read_def read_result_ok_def readable_def)
  then show ?thesis using k eff(3) eff(7) [of k] by (auto simp: kind_inv_def)
qed simp

text \<open>
  C9. Nothing is forgotten: in every reachable process a kind whose state differs from what
  was reported has a timer pending that wakes the worker, due within a nanosecond if the kind
  is busy, and a second after its last task if it is idle. So once no timer is pending, the
  reported bitmap says exactly which kinds are busy.
\<close>

theorem high_change_pending:
  assumes "hstep\<^sup>*\<^sup>* init_proc p" and "k < NumOfTaskKind"
    and "bit (OldBitmap (srv p)) k \<noteq> (Count (srv p) ! k \<noteq> 0)"
  shows "\<exists>d. TimerFd (srv p) ! k = Some d \<and>
    (if Count (srv p) ! k \<noteq> 0 then d \<le> now (srv p) + 1 else d = idle_since (srv p) ! k + 10 ^ 9)"
proof -
  have "kind_inv (srv p) k" using reachable_inv [OF assms(1)] assms(2) by (simp add: proc_inv_def high_inv_def)
  then show ?thesis using assms(3) by (auto simp: kind_inv_def)
qed

lemma high_change_pending_witness:
  "\<exists>d. TimerFd (srv demo_woken) ! 0 = Some d \<and> d \<le> 2"
  using high_change_pending [OF demo_woken_reachable, of 0] by (simp add: demo_defs)

lemma high_reports_soundly_witness:
  "hstep\<^sup>*\<^sup>* init_proc demo_woken \<and> bit (1 :: task_bitmap) 0 \<and> Count (srv demo_woken) ! 0 \<noteq> 0"
  using high_reports_soundly [OF demo_woken_reachable demo_report, of 0] demo_woken_reachable
  by (simp add: demo_reported_def) (simp add: demo_defs)

text \<open>
  C10. A turn in which the worker saw every timer that had gone off reports exactly the
  specified bitmap: the busy kinds, and the reported ones that have been idle for less than
  a second.
\<close>

theorem high_turn_exact:
  assumes "hstep\<^sup>*\<^sup>* init_proc p" and "k < NumOfTaskKind" and "length es = NumOfTaskKind"
    and "\<forall>k < NumOfTaskKind. was_read (es ! k) \<longleftrightarrow> readable (srv p) k"
    and "HighPrioTurn es (srv p) = Ok (h', m)"
  shows "bit (OldBitmap h') k \<longleftrightarrow> Count (srv p) ! k \<noteq> 0 \<or>
     bit (OldBitmap (srv p)) k \<and> now (srv p) < idle_since (srv p) ! k + 10 ^ 9"
proof -
  have len: "length es = 2" using assms(3) by simp
  have "kind_inv (srv p) k" using reachable_inv [OF assms(1)] assms(2) by (simp add: proc_inv_def high_inv_def)
  then show ?thesis
    using assms(2,4) HighPrioTurn_effect(7) [OF len assms(5), of k] by (auto simp: kind_inv_def readable_def)
qed

lemma high_turn_exact_witness: "bit (OldBitmap demo_reported) 0"
  using high_turn_exact [OF demo_woken_reachable _ _ _ demo_turn, of 0]
  by (simp add: demo_defs was_read_def readable_def all_less_2)

text \<open>
  C13. The reports of a process are well-formed: none repeats the one before, none names a
  bit beyond the task kinds, and unless one is on its way the last one is the bitmap the
  worker compares with.
\<close>

theorem high_reports_wellformed:
  assumes "hstep\<^sup>*\<^sup>* init_proc p"
  shows "distinct_adj (0 # sent p) \<and> (\<forall>b \<in> set (sent p). b AND NOT TaskMask = 0) \<and>
     (unsent (pc p) = [] \<longrightarrow> last (0 # sent p) = OldBitmap (srv p))"
proof -
  have "distinct_adj ((0 # sent p) @ unsent (pc p))" "last (0 # sent p @ unsent (pc p)) = OldBitmap (srv p)"
      "\<forall>b \<in> set (sent p). \<forall>k. bit b k \<longrightarrow> k < 2"
    using reachable_inv [OF assms] by (auto simp: proc_inv_def sent_inv_def)
  then show ?thesis using distinct_adj_appendD1 [of "0 # sent p"] by (auto simp: valid_bits)
qed

lemma high_reports_wellformed_witness:
  "OldBitmap (srv demo_woken) = 0 \<and> sent demo_woken = []"
  using high_reports_wellformed [OF demo_woken_reachable] by (simp add: demo_defs unsent_def)

end
