(* ===== verification/SchedLow.thy ===== *)
theory SchedLow
  imports Daemon
begin

text \<open>
  Model of the schedule service of a low priority process,
  \<open>runtime/ScheduleService.cpp\<close>: \<open>SchedStart\<close> blocks a thread on a condition variable
  while some high priority process runs tasks of its kind, and the worker thread follows the
  daemon's announcements and wakes the threads whose kind was cleared.

  The threads and the worker interleave. The mutex is free except while the worker handles
  messages; a thread that finds its kind busy goes to sleep and releases the mutex in one
  step, as \<open>std::condition_variable::wait\<close> does, and may wake up spuriously.
\<close>

section \<open>The code\<close>

definition RunLevelChangeWatcher :: "task_bitmap bus_read \<Rightarrow> task_bitmap \<Rightarrow> task_bitmap outcome" where
  "RunLevelChangeWatcher Msg Bitmap = (case Msg of ReadFail e \<Rightarrow> Abort | ReadOk b \<Rightarrow> Ok b)"

definition DaemonNameOwnerChangeWatcher :: "(string \<times> string \<times> string) bus_read \<Rightarrow> unit outcome" where
  "DaemonNameOwnerChangeWatcher Msg =
     (case Msg of
        ReadFail e \<Rightarrow> Abort
      | ReadOk (Name, OldOwner, NewOwner) \<Rightarrow> if NewOwner = [] then Abort else Ok ())"

text \<open>The condition \<open>SchedStart\<close> waits for.\<close>

definition SchedStart_low :: "task_kind \<Rightarrow> task_bitmap \<Rightarrow> bool" where
  "SchedStart_low K Bitmap \<longleftrightarrow> push_bit (kind_nat K) 1 AND NOT Bitmap \<noteq> 0"

text \<open>
  A message of the bus: an announcement, a change of the daemon's owner, or one that no
  match asks for. The result of \<open>sd_bus_process\<close> is negative if it failed.
\<close>

datatype bus_message = RunLevelChanged "task_bitmap bus_read"
  | NameOwnerChanged "(string \<times> string \<times> string) bus_read" | Unmatched

definition ProcessBus :: "int \<Rightarrow> bus_message \<Rightarrow> task_bitmap \<Rightarrow> task_bitmap outcome" where
  "ProcessBus Ret Msg Bitmap =
     (if Ret < 0 then Abort
      else case Msg of
        RunLevelChanged m \<Rightarrow> RunLevelChangeWatcher m Bitmap
      | NameOwnerChanged m \<Rightarrow> bindO (DaemonNameOwnerChangeWatcher m) (\<lambda>_. Ok Bitmap)
      | Unmatched \<Rightarrow> Ok Bitmap)"

text \<open>The kinds whose condition variables are notified.\<close>

fun NotifyKinds :: "nat list \<Rightarrow> task_bitmap \<Rightarrow> task_bitmap \<Rightarrow> nat list" where
  "NotifyKinds [] ClearedBitmap Mask = []"
| "NotifyKinds (Kind # Kinds) ClearedBitmap Mask =
     (if ClearedBitmap AND Mask \<noteq> 0 then [Kind] else []) @
     NotifyKinds Kinds ClearedBitmap (push_bit 1 Mask)"

definition LowPrioTurn :: "task_bitmap \<Rightarrow> task_bitmap \<Rightarrow> nat list \<times> task_bitmap" where
  "LowPrioTurn OldBitmap Bitmap =
     (let ClearedBitmap = OldBitmap AND (Bitmap XOR - 1)
      in (NotifyKinds [0..<NumOfTaskKind] ClearedBitmap 1, Bitmap))"

section \<open>Threads and the worker\<close>

text \<open>
  A thread is outside the service, about to test its kind's bit, asleep on the condition
  variable, or running a task. The worker holds the mutex while it handles messages, then
  notifies, then waits in \<open>ppoll\<close>.
\<close>

datatype thread = Outside | Testing task_kind | Asleep task_kind | Running task_kind

datatype low_worker = Handling | Notifying "nat list" | Sleeping

record low =
  RunLevel :: task_bitmap
  OldLevel :: task_bitmap
  lpc :: low_worker
  threads :: "nat \<Rightarrow> thread"

definition init_low :: "task_bitmap \<Rightarrow> low" where
  "init_low b = \<lparr>RunLevel = b, OldLevel = b, lpc = Sleeping, threads = (\<lambda>_. Outside)\<rparr>"

definition notify_all :: "nat \<Rightarrow> (nat \<Rightarrow> thread) \<Rightarrow> nat \<Rightarrow> thread" where
  "notify_all k T t =
     (case T t of Asleep K \<Rightarrow> if kind_nat K = k then Testing K else Asleep K | s \<Rightarrow> s)"

text \<open>The steps of the worker, then those of the threads.\<close>

inductive wstep :: "low \<Rightarrow> low \<Rightarrow> bool" where
  handle: "lpc l = Handling \<Longrightarrow> ProcessBus Ret Msg (RunLevel l) = Ok b \<Longrightarrow> wstep l (l\<lparr>RunLevel := b\<rparr>)"
| quiet: "lpc l = Handling \<Longrightarrow> LowPrioTurn (OldLevel l) (RunLevel l) = (ks, old) \<Longrightarrow>
     wstep l (l\<lparr>OldLevel := old, lpc := Notifying ks\<rparr>)"
| notify: "lpc l = Notifying (k # ks) \<Longrightarrow>
     wstep l (l\<lparr>threads := notify_all k (threads l), lpc := Notifying ks\<rparr>)"
| ppoll: "lpc l = Notifying [] \<Longrightarrow> wstep l (l\<lparr>lpc := Sleeping\<rparr>)"
| wake: "lpc l = Sleeping \<Longrightarrow> wstep l (l\<lparr>lpc := Handling\<rparr>)"

inductive tstep :: "nat \<Rightarrow> low \<Rightarrow> low \<Rightarrow> bool" for t :: nat where
  arrive: "threads l t = Outside \<Longrightarrow> K < NUM_OF_TASK_KIND \<Longrightarrow>
     tstep t l (l\<lparr>threads := (threads l)(t := Testing K)\<rparr>)"
| test: "threads l t = Testing K \<Longrightarrow> lpc l \<noteq> Handling \<Longrightarrow>
     tstep t l (l\<lparr>threads := (threads l)(t := (if SchedStart_low K (RunLevel l) then Running K else Asleep K))\<rparr>)"
| spurious: "threads l t = Asleep K \<Longrightarrow> tstep t l (l\<lparr>threads := (threads l)(t := Testing K)\<rparr>)"
| leave_service: "threads l t = Running K \<Longrightarrow> tstep t l (l\<lparr>threads := (threads l)(t := Outside)\<rparr>)"

definition lstep :: "low \<Rightarrow> low \<Rightarrow> bool" where
  "lstep l l' \<longleftrightarrow> wstep l l' \<or> (\<exists>t. tstep t l l')"

lemma lstep_thread: "tstep t l l' \<Longrightarrow> lstep l l'"
  by (auto simp: lstep_def)

section \<open>Lemmas\<close>

lemma and_power_iff: "(C :: u32) AND 2 ^ k = 0 \<longleftrightarrow> \<not> bit C k"
  by (rule and_exp_eq_0_iff_not_bit)

lemma NotifyKinds_step:
  "i < n \<Longrightarrow> NotifyKinds [i..<n] C (2 ^ i) =
     (if bit C i then [i] else []) @ NotifyKinds [Suc i..<n] C (2 ^ Suc i)"
  by (simp only: upt_conv_Cons NotifyKinds.simps and_power_iff if_not_P not_not push_bit_eq_mult
      power_one_right power_Suc mult.commute)

lemma set_NotifyKinds: "set (NotifyKinds [i..<n] C (2 ^ i)) = {k. i \<le> k \<and> k < n \<and> bit C k}"
proof (induction "n - i" arbitrary: i)
  case (Suc d)
  then have lt: "i < n" and IH: "set (NotifyKinds [Suc i..<n] C (2 ^ Suc i)) = {k. Suc i \<le> k \<and> k < n \<and> bit C k}"
    using Suc.hyps(1) [of "Suc i"] by simp_all
  show ?case unfolding NotifyKinds_step [OF lt] set_append IH using lt by (auto simp: le_less)
qed simp

lemma LowPrioTurn_eq:
  "set (fst (LowPrioTurn old b)) = {k. k < 2 \<and> bit old k \<and> \<not> bit b k}" "snd (LowPrioTurn old b) = b"
proof -
  have "bit (old AND (b XOR - 1)) k \<longleftrightarrow> bit old k \<and> \<not> bit b k" for k
    by (auto simp: bit_simps dest: bit_imp_le_length)
  then show "set (fst (LowPrioTurn old b)) = {k. k < 2 \<and> bit old k \<and> \<not> bit b k}"
    using set_NotifyKinds [of 0 NumOfTaskKind "old AND (b XOR - 1)"]
    unfolding LowPrioTurn_def Let_def by (simp only: power_0 fst_conv) auto
qed (simp add: LowPrioTurn_def Let_def)

lemma SchedStart_low_iff: "SchedStart_low K b \<longleftrightarrow> \<not> bit b (kind_nat K)"
  using and_power_iff [of "NOT b" "kind_nat K"]
  by (cases K) (auto simp: SchedStart_low_def push_bit_of_1 and.commute bit_not_iff)

text \<open>
  A sleeping thread is kept by its kind's bit, or about to be notified: while messages are
  handled the bit was set before, and while kinds are notified it is set or the kind is
  still to come.
\<close>

fun kept :: "low_worker \<Rightarrow> task_bitmap \<Rightarrow> task_bitmap \<Rightarrow> nat \<Rightarrow> bool" where
  "kept Handling b old k \<longleftrightarrow> bit old k"
| "kept (Notifying ks) b old k \<longleftrightarrow> bit b k \<or> k \<in> set ks"
| "kept Sleeping b old k \<longleftrightarrow> bit b k"

definition low_inv :: "low \<Rightarrow> bool" where
  "low_inv l \<longleftrightarrow> (lpc l \<noteq> Handling \<longrightarrow> OldLevel l = RunLevel l) \<and>
     (\<forall>t K. threads l t = Testing K \<longrightarrow> kind_nat K < 2) \<and>
     (\<forall>t K. threads l t = Asleep K \<longrightarrow> kind_nat K < 2 \<and> kept (lpc l) (RunLevel l) (OldLevel l) (kind_nat K))"

lemma low_inv_init: "low_inv (init_low b)"
  by (simp add: low_inv_def init_low_def)

lemma wstep_inv: "wstep l l' \<Longrightarrow> low_inv l \<Longrightarrow> low_inv l'"
proof (induction rule: wstep.induct)
  case (quiet l ks old)
  then show ?case
    using LowPrioTurn_eq [of "OldLevel l" "RunLevel l"] by (auto simp: low_inv_def)
next
  case (notify l k ks)
  then show ?case
    by (auto simp: low_inv_def notify_all_def split: thread.splits if_splits)
qed (auto simp: low_inv_def)

lemma tstep_inv: "tstep t l l' \<Longrightarrow> low_inv l \<Longrightarrow> low_inv l'"
proof (induction rule: tstep.induct)
  case (test l K)
  then show ?case
    by (cases "lpc l") (auto simp: low_inv_def SchedStart_low_iff split: if_splits)
qed (auto simp: low_inv_def kind_nat_less_iff split: if_splits)

lemma low_reachable_inv: "lstep\<^sup>*\<^sup>* (init_low b) l \<Longrightarrow> low_inv l"
  by (induction rule: rtranclp_induct) (auto simp: lstep_def intro: low_inv_init wstep_inv tstep_inv)

section \<open>Properties\<close>

text \<open>
  C8. No wake-up is lost: in every reachable state in which the worker waits for messages, a
  thread asleep in \<open>SchedStart\<close> sleeps on a kind that is announced as busy.
\<close>

theorem low_no_lost_wakeup:
  assumes "lstep\<^sup>*\<^sup>* (init_low b) l" and "lpc l = Sleeping" and "threads l t = Asleep K"
  shows "bit (RunLevel l) (kind_nat K)"
  using low_reachable_inv [OF assms(1)] assms(2,3) by (auto simp: low_inv_def)

lemma low_no_lost_wakeup_witness:
  "\<exists>l. lstep\<^sup>*\<^sup>* (init_low 2) l \<and> threads l 7 = Asleep MEMCPY \<and> bit (RunLevel l) 1"
proof -
  let ?l = "(init_low 2)\<lparr>threads := (\<lambda>_. Outside)(7 := Testing MEMCPY)\<rparr>"
  let ?m = "(init_low 2)\<lparr>threads := (\<lambda>_. Outside)(7 := Asleep MEMCPY)\<rparr>"
  have "tstep 7 (init_low 2) ?l"
    using tstep.arrive [of "init_low 2" 7 MEMCPY] by (simp add: init_low_def kind_nat_less_iff)
  then have "lstep\<^sup>*\<^sup>* (init_low 2) ?l" by (intro r_into_rtranclp lstep_thread)
  also have "tstep 7 ?l ?m"
    using tstep.test [of ?l 7 MEMCPY] by (simp add: init_low_def SchedStart_low_iff bit_u32_2)
  then have "lstep ?l ?m" by (rule lstep_thread)
  finally have "lstep\<^sup>*\<^sup>* (init_low 2) ?m" .
  then show ?thesis
    using low_no_lost_wakeup [of 2 ?m 7 MEMCPY] by (intro exI [of _ ?m]) (simp add: init_low_def)
qed

text \<open>
  The gate is exact: a step puts a thread to sleep, or lets it run a task, only by
  testing the announced bitmap under the mutex, and the bit of its kind decides which.
\<close>

theorem low_gate_exact:
  assumes "lstep l l'" and "threads l' t \<noteq> threads l t"
    and "threads l' t = Running K \<or> threads l' t = Asleep K"
  shows "threads l t = Testing K \<and> lpc l \<noteq> Handling \<and>
     threads l' t = (if bit (RunLevel l) (kind_nat K) then Asleep K else Running K)"
proof -
  have no_w: "\<not> wstep l l'"
    using assms(2,3) by (auto simp: notify_all_def elim!: wstep.cases split: thread.splits if_splits)
  then obtain u where "tstep u l l'" using assms(1) by (auto simp: lstep_def)
  then show ?thesis
    using assms(2,3) by cases (auto simp: SchedStart_low_iff split: if_splits)
qed

lemma low_gate_exact_witness:
  "\<exists>l. lstep l (l\<lparr>threads := (threads l)(7 := Running COMPUTING)\<rparr>) \<and> \<not> bit (RunLevel l) 0"
proof -
  let ?l = "(init_low 2)\<lparr>threads := (\<lambda>_. Outside)(7 := Testing COMPUTING)\<rparr>"
  have "tstep 7 ?l (?l\<lparr>threads := (threads ?l)(7 := Running COMPUTING)\<rparr>)"
    using tstep.test [of ?l 7 COMPUTING] by (simp add: init_low_def SchedStart_low_iff bit_u32_2)
  then have st: "lstep ?l (?l\<lparr>threads := (threads ?l)(7 := Running COMPUTING)\<rparr>)" by (rule lstep_thread)
  then show ?thesis
    using low_gate_exact [OF st, of 7 COMPUTING] by (intro exI [of _ ?l]) (auto split: if_splits)
qed

lemma notify_run:
  "lpc l = Notifying ks \<Longrightarrow> \<exists>l'. (wstep ^^ (length ks + 1)) l l' \<and> lpc l' = Sleeping \<and> RunLevel l' = RunLevel l"
proof (induction ks arbitrary: l)
  case Nil
  then show ?case using wstep.ppoll [of l] by (intro exI [of _ "l\<lparr>lpc := Sleeping\<rparr>"]) auto
next
  case (Cons k ks)
  let ?m = "l\<lparr>threads := notify_all k (threads l), lpc := Notifying ks\<rparr>"
  have "wstep l ?m" using Cons.prems by (rule wstep.notify)
  moreover obtain l' where "(wstep ^^ (length ks + 1)) ?m l'" "lpc l' = Sleeping" "RunLevel l' = RunLevel l"
    using Cons.IH [of ?m] by auto
  ultimately have "(wstep ^^ Suc (length ks + 1)) l l'" by (blast intro: relpowp_Suc_I2)
  then show ?case using \<open>lpc l' = Sleeping\<close> \<open>RunLevel l' = RunLevel l\<close> by (intro exI [of _ l']) simp
qed

lemma NotifyKinds_length: "length (NotifyKinds ks C m) \<le> length ks"
proof (induction ks arbitrary: m)
  case (Cons k ks)
  have "length (NotifyKinds ks C (push_bit 1 m)) \<le> length ks" by (rule Cons.IH)
  then show ?case unfolding NotifyKinds.simps by (simp del: push_bit_eq_mult add: le_SucI)
qed simp

text \<open>
  C11. Threads are released: whatever reachable state the worker handles messages in, once no
  more messages come it gets back to waiting in at most \<open>NumOfTaskKind + 2\<close> steps of its own,
  and then every thread that still sleeps sleeps on a kind announced as busy.
\<close>

theorem low_releases:
  assumes "lstep\<^sup>*\<^sup>* (init_low b) l" and "lpc l = Handling"
  shows "\<exists>n l'. n \<le> NumOfTaskKind + 2 \<and> (wstep ^^ n) l l' \<and> lpc l' = Sleeping \<and> RunLevel l' = RunLevel l \<and>
     (\<forall>t K. threads l' t = Asleep K \<longrightarrow> bit (RunLevel l) (kind_nat K))"
proof -
  obtain ks old where turn: "LowPrioTurn (OldLevel l) (RunLevel l) = (ks, old)" by fastforce
  have len: "length ks \<le> NumOfTaskKind"
    using turn NotifyKinds_length [of "[0..<NumOfTaskKind]"] by (auto simp: LowPrioTurn_def Let_def)
  let ?m = "l\<lparr>OldLevel := old, lpc := Notifying ks\<rparr>"
  have "wstep l ?m" using assms(2) turn by (rule wstep.quiet)
  moreover obtain l' where l': "(wstep ^^ (length ks + 1)) ?m l'" "lpc l' = Sleeping" "RunLevel l' = RunLevel l"
    using notify_run [of ?m ks] by auto
  ultimately have run: "(wstep ^^ Suc (length ks + 1)) l l'" by (blast intro: relpowp_Suc_I2)
  then have "wstep\<^sup>*\<^sup>* l l'" by (rule relpowp_imp_rtranclp)
  then have "lstep\<^sup>*\<^sup>* l l'" by (rule rtranclp_mono [THEN predicate2D, rotated]) (auto simp: lstep_def)
  then have "low_inv l'" using assms(1) by (auto intro: low_reachable_inv rtranclp_trans)
  then have "\<forall>t K. threads l' t = Asleep K \<longrightarrow> bit (RunLevel l) (kind_nat K)"
    using l'(2,3) by (auto simp: low_inv_def)
  then show ?thesis using run l' len by (intro exI [of _ "Suc (length ks + 1)"] exI [of _ l']) simp
qed

lemma low_releases_witness:
  "\<exists>n l'. n \<le> 4 \<and> (wstep ^^ n) ((init_low 2)\<lparr>lpc := Handling\<rparr>) l' \<and> lpc l' = Sleeping"
proof -
  have "wstep (init_low 2) ((init_low 2)\<lparr>lpc := Handling\<rparr>)" by (rule wstep.wake) (simp add: init_low_def)
  then have "lstep\<^sup>*\<^sup>* (init_low 2) ((init_low 2)\<lparr>lpc := Handling\<rparr>)" by (auto simp: lstep_def)
  from low_releases [OF this] show ?thesis by auto
qed

end
