(* ===== verification/Ledger.thy ===== *)
theory Ledger
  imports Vendor
begin

text \<open>
  Reference accounting. Every call that gives the caller a reference (creations, retains,
  enqueues that return an event) is matched with the release that gives it back, and
  \<open>owed t a\<close> is the number of references created in the trace \<open>t\<close> minus the releases \<open>a\<close>
  made: what the program still has to release. A small program logic tracks it through the
  combinators of \<open>Vendor\<close>, so the proofs on the runtime's functions are one rule per call.
\<close>

section \<open>Reference balance\<close>

fun returns_ref :: "api \<Rightarrow> reply \<Rightarrow> api list" where
  "returns_ref (CreateCommandQueue c d p) r = guard_of ReleaseCommandQueue (obj r)"
| "returns_ref (CreateProgramWithSource c s) r = guard_of ReleaseProgram (obj r)"
| "returns_ref (CreateKernel p n) r = guard_of ReleaseKernel (obj r)"
| "returns_ref (RetainKernel k) r = guard_of ReleaseKernel k"
| "returns_ref (CreateBuffer c n) r = guard_of ReleaseMemObject (obj r)"
| "returns_ref (CreateUserEvent c) r = guard_of ReleaseEvent (obj r)"
| "returns_ref (RetainEvent e) r = guard_of ReleaseEvent e"
| "returns_ref (Enqueue c q ws want) r = (if want then guard_of ReleaseEvent (obj r) else [])"
| "returns_ref (SchedStart k) r = [SchedEnd k]"
| "returns_ref _ r = []"

text \<open>Releases return no reference.\<close>

fun is_release :: "api \<Rightarrow> bool" where
  "is_release (ReleaseCommandQueue q) = True"
| "is_release (ReleaseProgram p) = True"
| "is_release (ReleaseKernel k) = True"
| "is_release (ReleaseMemObject m) = True"
| "is_release (ReleaseEvent e) = True"
| "is_release (SchedEnd k) = True"
| "is_release _ = False"

definition gain :: "api \<Rightarrow> reply \<Rightarrow> api \<Rightarrow> int" where
  "gain a r b = (if ret r = CL_SUCCESS then int (count_list (returns_ref a r) b) else 0)
     - (if is_release a \<and> a = b then 1 else 0)"

definition owed :: "trace \<Rightarrow> api \<Rightarrow> int" where
  "owed t b = (\<Sum>(a, r) \<leftarrow> t. gain a r b)"

lemma owed_Nil [simp]: "owed [] b = 0"
  by (simp add: owed_def)

lemma owed_append [simp]: "owed (t @ u) b = owed t b + owed u b"
  by (simp add: owed_def)

lemma owed_Cons [simp]: "owed ((a, r) # t) b = gain a r b + owed t b"
  by (simp add: owed_def)

text \<open>The number of pending finalisers of one kind.\<close>

definition pending :: "api list \<Rightarrow> api \<Rightarrow> int" where
  "pending g b = int (count_list g b)"

lemma pending_simps [simp]:
  "pending [] b = 0" "pending (a # g) b = (if a = b then 1 else 0) + pending g b"
  by (simp_all add: pending_def)

lemma pending_append [simp]: "pending (g @ h) b = pending g b + pending h b"
  by (simp add: pending_def)

lemma pending_remove1:
  "pending (remove1 a g) b = pending g b - (if a = b \<and> a \<in> set g then 1 else 0)"
  by (induction g) (auto simp: pending_def)

lemma gain_release: "is_release a \<Longrightarrow> gain a r b = - (if a = b then 1 else 0)"
  by (cases a) (simp_all add: gain_def)

lemma gain_other:
  "\<not> is_release a \<Longrightarrow> gain a r b = (if ret r = CL_SUCCESS then pending (returns_ref a r) b else 0)"
  by (simp add: gain_def pending_def)

lemma owed_replies [simp]:
  "\<forall>a \<in> set as. is_release a \<Longrightarrow> owed (replies v as t) b = - pending as b"
  by (induction as arbitrary: t) (auto simp: gain_release replies.simps)

section \<open>A program logic\<close>

text \<open>
  \<open>wp Z m Q E w\<close>: run from \<open>w\<close>, if \<open>m\<close> returns then \<open>Q\<close> holds of the result and the
  state, and if it throws then \<open>E\<close> does. \<open>Z\<close> is what is claimed of a run that aborts or
  crashes: nothing (\<open>True\<close>), or that there is none (\<open>False\<close>). The rules, collected in
  \<open>vc\<close>, execute a program symbolically; the vendor's replies stay arbitrary.
\<close>

definition wp :: "bool \<Rightarrow> ('w, 'a) prog \<Rightarrow> ('a \<Rightarrow> 'w \<Rightarrow> bool) \<Rightarrow> (cl_int \<Rightarrow> 'w \<Rightarrow> bool) \<Rightarrow> 'w \<Rightarrow> bool" where
  "wp Z m Q E w =
     (case m w of (Ok x, w') \<Rightarrow> Q x w' | (Throw e, w') \<Rightarrow> E e w' | _ \<Rightarrow> Z)"

named_theorems vc \<open>rules of the program logic\<close>

lemma wp_weaken:
  "wp Z m Q' E' w \<Longrightarrow> (\<And>x w. Q' x w \<Longrightarrow> Q x w) \<Longrightarrow> (\<And>e w. E' e w \<Longrightarrow> E e w) \<Longrightarrow> wp Z m Q E w"
  by (auto simp: wp_def split: prod.splits outcome.splits)

lemma wpD_Ok: "wp Z m Q E w \<Longrightarrow> m w = (Ok x, w') \<Longrightarrow> Q x w'"
  by (simp add: wp_def)

lemma wpD_Throw: "wp Z m Q E w \<Longrightarrow> m w = (Throw e, w') \<Longrightarrow> E e w'"
  by (simp add: wp_def)

lemma wpD_total: "wp False m Q E w \<Longrightarrow> fst (m w) \<noteq> Abort \<and> fst (m w) \<noteq> Crash"
  by (auto simp: wp_def split: prod.splits outcome.splits)

lemma wp_return [vc]: "Q x w \<Longrightarrow> wp Z (return x) Q E w"
  by (simp add: wp_def return_def)

lemma wp_throw [vc]: "E e w \<Longrightarrow> wp Z (throw e) Q E w"
  by (simp add: wp_def throw_def)

lemma wp_abort [vc]: "Z \<Longrightarrow> wp Z abort Q E w"
  by (simp add: wp_def abort_def)

lemma wp_crash [vc]: "Z \<Longrightarrow> wp Z crash Q E w"
  by (simp add: wp_def crash_def)

lemma wp_andThen [vc]: "wp Z m (\<lambda>x. wp Z (f x) Q E) E w \<Longrightarrow> wp Z (andThen m f) Q E w"
  by (auto simp: wp_def andThen_def split: prod.splits outcome.splits)

lemma wp_get [vc]: "Q (f w) w \<Longrightarrow> wp Z (get f) Q E w"
  by (simp add: wp_def get_def)

lemma wp_modify [vc]: "Q () (f w) \<Longrightarrow> wp Z (modify f) Q E w"
  by (simp add: wp_def modify_def)

lemma wp_call_eq:
  "(\<And>r. r = v (calls w) a \<Longrightarrow> Q r (w\<lparr>calls := calls w @ [(a, r)]\<rparr>)) \<Longrightarrow> wp Z (call v a) Q E w"
  by (simp add: wp_def call_def Let_def)

lemma wp_call [vc]: "(\<And>r. Q r (w\<lparr>calls := calls w @ [(a, r)]\<rparr>)) \<Longrightarrow> wp Z (call v a) Q E w"
  by (rule wp_call_eq)

lemma wp_OCL_ASSERT [vc]:
  "(e = CL_SUCCESS \<Longrightarrow> Q () w) \<Longrightarrow> (e \<noteq> CL_SUCCESS \<Longrightarrow> E e w) \<Longrightarrow> wp Z (OCL_ASSERT e) Q E w"
  by (simp add: OCL_ASSERT_def wp_return wp_throw)

lemma wp_INTER_ASSERT [vc]:
  "(b \<Longrightarrow> Q () w) \<Longrightarrow> (\<not> b \<Longrightarrow> Z) \<Longrightarrow> wp Z (INTER_ASSERT b) Q E w"
  by (simp add: INTER_ASSERT_def wp_return wp_abort)

lemma wp_call_ok [vc]:
  "(\<And>r. ret r = CL_SUCCESS \<Longrightarrow> Q r (w\<lparr>calls := calls w @ [(a, r)]\<rparr>)) \<Longrightarrow>
   (\<And>r. ret r \<noteq> CL_SUCCESS \<Longrightarrow> E (ret r) (w\<lparr>calls := calls w @ [(a, r)]\<rparr>)) \<Longrightarrow>
   wp Z (call_ok v a) Q E w"
  unfolding call_ok_def by (intro vc) auto

lemma wp_own [vc]: "Q () (w\<lparr>guards := a # guards w\<rparr>) \<Longrightarrow> wp Z (own a) Q E w"
  by (simp add: own_def wp_modify)

lemma wp_disown [vc]: "Q () (w\<lparr>guards := remove1 a (guards w)\<rparr>) \<Longrightarrow> wp Z (disown a) Q E w"
  by (simp add: disown_def wp_modify)

lemma wp_own_obj [vc]:
  "Q () (w\<lparr>guards := guard_of Release h @ guards w\<rparr>) \<Longrightarrow> wp Z (own_obj Release h) Q E w"
  by (simp add: own_obj_def wp_modify)

lemma wp_disown_obj [vc]:
  "Q () (w\<lparr>guards := unguard Release h (guards w)\<rparr>) \<Longrightarrow>
   wp Z (disown_obj Release h) Q E w"
  by (simp add: disown_obj_def wp_modify)

lemma wp_if [vc]:
  "(b \<Longrightarrow> wp Z m Q E w) \<Longrightarrow> (\<not> b \<Longrightarrow> wp Z n Q E w) \<Longrightarrow> wp Z (if b then m else n) Q E w"
  by simp

lemma wp_case_option [vc]:
  "(x = None \<Longrightarrow> wp Z m Q E w) \<Longrightarrow> (\<And>y. x = Some y \<Longrightarrow> wp Z (f y) Q E w) \<Longrightarrow>
   wp Z (case x of None \<Rightarrow> m | Some y \<Rightarrow> f y) Q E w"
  by (cases x) simp_all

lemma wp_case_prod [vc]:
  "wp Z (f (fst p) (snd p)) Q E w \<Longrightarrow> wp Z (case p of (a, b) \<Rightarrow> f a b) Q E w"
  by (simp add: case_prod_beta)

lemma wp_catch [vc]: "wp Z m Q (\<lambda>e. wp Z (h e) Q E) w \<Longrightarrow> wp Z (catch m h) Q E w"
  by (auto simp: wp_def catch_def split: prod.splits outcome.splits)

text \<open>Leaving a scope runs its finalisers.\<close>

definition leave :: "vendor \<Rightarrow> api list \<Rightarrow> 'e world_scheme \<Rightarrow> 'e world_scheme" where
  "leave v g w = w\<lparr>calls := run_calls v (guards w) (calls w), guards := g\<rparr>"

lemma wp_scoped [vc]:
  "wp Z m (\<lambda>x w'. Q x (leave v (guards w) w')) (\<lambda>e w'. E e (leave v (guards w) w'))
     (w\<lparr>guards := []\<rparr>) \<Longrightarrow> wp Z (scoped v m) Q E w"
  by (auto simp: wp_def scoped_def leave_def split: prod.splits outcome.splits)

lemma leave_simps [simp]:
  "guards (leave v g w) = g"
  "calls (leave v g w) = run_calls v (guards w) (calls w)"
  by (simp_all add: leave_def)

lemma owed_leave:
  "\<forall>a \<in> set (guards w). is_release a \<Longrightarrow>
     owed (calls (leave v g w)) b = owed (calls w) b - pending (guards w) b"
  by simp

end
