(* ===== verification/Runtime.thy ===== *)
theory Runtime
  imports Ledger Header Profile
begin

text \<open>
  The state of the runtime library: the tables of \<open>runtime/RuntimeKeeper.hpp\<close> (queues,
  programs, kernels) and the launches in
  flight (\<open>CallbackData\<close> of \<open>runtime/Callback.hpp\<close>).

  The C++ tables hand out references and pointers that other objects keep. Such a pointer is
  modelled by the handle under which its target was filed together with the serial number the
  target got when it was filed, so a pointer whose target was erased resolves to nothing even
  if the vendor reuses the handle. Locks are not modelled: one call runs at a time.
\<close>

section \<open>Records\<close>

record QueueInfo =
  q_Context :: handle
  q_Device :: handle
  ShadowQueue :: handle
  ShallReorder :: bool
  TaskBlocker :: handle

record ProgramInfo =
  p_Context :: handle
  ShadowProgram :: handle
  BuildLog :: string
  KernelProfileList :: "KernelProfile list"
  p_serial :: nat

text \<open>\<open>Profile\<close> points into the profile list of an entry of the program table.\<close>

record profile_ptr =
  pp_program :: handle
  pp_serial :: nat
  pp_index :: nat

type_synonym karg = "u64 \<times> handle"

record KernelInfo =
  k_Context :: handle
  k_Program :: handle
  Profile :: profile_ptr
  Args :: "karg list"
  Pool :: "handle list"
  RefCount :: nat
  k_serial :: nat

record CallbackData =
  cb_Queue :: handle
  cb_Kernel :: handle
  KInfo :: "handle \<times> nat"
  WorkDim :: nat
  GWO :: "nat list"
  GWS :: "nat list"
  LWS :: "nat list"
  WorkGrpSize :: nat
  DeviceHeader :: handle
  LocalBuffer :: handle
  PrivateBuffer :: handle
  HostMetadata :: "cl_int list"
  HeaderOffset :: nat
  PrevWork :: "handle \<times> handle"
  Final :: handle
  Counter :: u32
  cb_Bucket :: bucket

datatype priority = LOW | HIGH

record runtime = world +
  LogLevel :: nat
  prio :: priority
  CRThreshold :: u64
  QT :: "handle \<rightharpoonup> QueueInfo"
  PT :: "handle \<rightharpoonup> ProgramInfo"
  KT :: "handle \<rightharpoonup> KernelInfo"
  works :: "nat \<rightharpoonup> CallbackData"
  serial :: nat
  map_ptr :: nat

section \<open>Status codes\<close>

definition CL_OUT_OF_HOST_MEMORY :: cl_int where "CL_OUT_OF_HOST_MEMORY = - 6"
definition CL_BUILD_PROGRAM_FAILURE :: cl_int where "CL_BUILD_PROGRAM_FAILURE = - 11"
definition CL_INVALID_CONTEXT :: cl_int where "CL_INVALID_CONTEXT = - 34"
definition CL_INVALID_COMMAND_QUEUE :: cl_int where "CL_INVALID_COMMAND_QUEUE = - 36"
definition CL_INVALID_PROGRAM :: cl_int where "CL_INVALID_PROGRAM = - 44"
definition CL_INVALID_PROGRAM_EXECUTABLE :: cl_int where "CL_INVALID_PROGRAM_EXECUTABLE = - 45"
definition CL_INVALID_KERNEL_NAME :: cl_int where "CL_INVALID_KERNEL_NAME = - 46"
definition CL_INVALID_KERNEL :: cl_int where "CL_INVALID_KERNEL = - 48"
definition CL_INVALID_ARG_INDEX :: cl_int where "CL_INVALID_ARG_INDEX = - 49"
definition CL_INVALID_ARG_VALUE :: cl_int where "CL_INVALID_ARG_VALUE = - 50"
definition CL_INVALID_WORK_DIMENSION :: cl_int where "CL_INVALID_WORK_DIMENSION = - 53"
definition CL_INVALID_WORK_GROUP_SIZE :: cl_int where "CL_INVALID_WORK_GROUP_SIZE = - 54"
definition CL_INVALID_EVENT_WAIT_LIST :: cl_int where "CL_INVALID_EVENT_WAIT_LIST = - 57"
definition CL_INVALID_GLOBAL_WORK_SIZE :: cl_int where "CL_INVALID_GLOBAL_WORK_SIZE = - 63"

lemmas cl_codes = CL_OUT_OF_HOST_MEMORY_def CL_BUILD_PROGRAM_FAILURE_def CL_INVALID_CONTEXT_def
  CL_INVALID_COMMAND_QUEUE_def CL_INVALID_PROGRAM_def CL_INVALID_PROGRAM_EXECUTABLE_def
  CL_INVALID_KERNEL_NAME_def CL_INVALID_KERNEL_def CL_INVALID_ARG_INDEX_def
  CL_INVALID_ARG_VALUE_def CL_INVALID_WORK_DIMENSION_def CL_INVALID_WORK_GROUP_SIZE_def
  CL_INVALID_EVENT_WAIT_LIST_def CL_INVALID_GLOBAL_WORK_SIZE_def

section \<open>Pointers\<close>

definition deref_profile :: "runtime \<Rightarrow> profile_ptr \<Rightarrow> KernelProfile option" where
  "deref_profile w p =
     (case PT w (pp_program p) of
        None \<Rightarrow> None
      | Some pi \<Rightarrow>
          if p_serial pi = pp_serial p \<and> pp_index p < length (KernelProfileList pi)
          then Some (KernelProfileList pi ! pp_index p) else None)"

definition deref_kinfo :: "runtime \<Rightarrow> handle \<times> nat \<Rightarrow> KernelInfo option" where
  "deref_kinfo w p =
     (case KT w (fst p) of
        None \<Rightarrow> None
      | Some ki \<Rightarrow> if k_serial ki = snd p then Some ki else None)"

lemma deref_guards [simp]:
  "deref_kinfo (w\<lparr>guards := g\<rparr>) p = deref_kinfo w p"
  "deref_profile (w\<lparr>guards := g\<rparr>) pp = deref_profile w pp"
  by (simp_all add: deref_kinfo_def deref_profile_def)

type_synonym 'a rt = "(runtime, 'a) prog"

definition next_serial :: "nat rt" where
  "next_serial w = (Ok (serial w), w\<lparr>serial := Suc (serial w)\<rparr>)"

definition shouldLog :: "runtime \<Rightarrow> nat \<Rightarrow> bool" where
  "shouldLog w Level \<longleftrightarrow> Level \<le> LogLevel w"

definition LOG_ERROR :: nat where "LOG_ERROR = 1"
definition LOG_INFO :: nat where "LOG_INFO = 2"
definition LOG_DEBUG :: nat where "LOG_DEBUG = 3"

definition deref :: "(runtime \<Rightarrow> 'a option) \<Rightarrow> 'a rt" where
  "deref f w = (case f w of None \<Rightarrow> (Crash, w) | Some x \<Rightarrow> (Ok x, w))"

lemma wp_deref [vc]:
  "(f w = None \<Longrightarrow> Z) \<Longrightarrow> (\<And>x. f w = Some x \<Longrightarrow> Q x w) \<Longrightarrow> wp Z (deref f) Q E w"
  by (auto simp: wp_def deref_def split: option.splits)

lemma wp_next_serial [vc]:
  "Q (serial w) (w\<lparr>serial := Suc (serial w)\<rparr>) \<Longrightarrow> wp Z next_serial Q E w"
  by (simp add: wp_def next_serial_def)

section \<open>References the tables hold\<close>

text \<open>
  The resource guards inside a table entry, in the order the destructor of the entry
  releases them.
\<close>

definition queue_refs :: "QueueInfo \<Rightarrow> api list" where
  "queue_refs qi = guard_of ReleaseEvent (TaskBlocker qi)
     @ guard_of ReleaseCommandQueue (ShadowQueue qi)"

definition program_refs :: "ProgramInfo \<Rightarrow> api list" where
  "program_refs pi = guard_of ReleaseProgram (ShadowProgram pi)"

definition kernel_refs :: "KernelInfo \<Rightarrow> api list" where
  "kernel_refs ki = concat (map (guard_of ReleaseKernel) (Pool ki))"

lemma kernel_refs_upd [simp]:
  "kernel_refs (ki\<lparr>RefCount := n\<rparr>) = kernel_refs ki" "kernel_refs (ki\<lparr>Args := as\<rparr>) = kernel_refs ki"
  by (simp_all add: kernel_refs_def)

definition work_refs :: "CallbackData \<Rightarrow> api list" where
  "work_refs cd = guard_of ReleaseEvent (Final cd)
     @ guard_of ReleaseEvent (snd (PrevWork cd)) @ guard_of ReleaseEvent (fst (PrevWork cd))
     @ guard_of ReleaseMemObject (PrivateBuffer cd) @ guard_of ReleaseMemObject (LocalBuffer cd)
     @ guard_of ReleaseMemObject (DeviceHeader cd) @ guard_of ReleaseKernel (cb_Kernel cd)"

lemma entry_refs_release:
  "\<forall>a \<in> set (queue_refs qi). is_release a"
  "\<forall>a \<in> set (program_refs pi). is_release a"
  "\<forall>a \<in> set (kernel_refs ki). is_release a"
  "\<forall>a \<in> set (work_refs cd). is_release a"
  by (auto simp: queue_refs_def program_refs_def kernel_refs_def work_refs_def)

definition table_refs :: "('e \<Rightarrow> api list) \<Rightarrow> (nat \<rightharpoonup> 'e) \<Rightarrow> api \<Rightarrow> int" where
  "table_refs f T b = (\<Sum>k \<in> dom T. pending (f (the (T k))) b)"

lemma table_refs_empty [simp]: "table_refs f Map.empty b = 0"
  by (simp add: table_refs_def)

lemma table_refs_none [simp]:
  assumes "finite (dom T)"
  shows "table_refs f (T(k := None)) b =
     table_refs f T b - (case T k of None \<Rightarrow> 0 | Some x \<Rightarrow> pending (f x) b)"
proof -
  have "dom (T(k := None)) = dom T - {k}" by auto
  moreover have "(\<Sum>j \<in> dom T - {k}. pending (f (the ((T(k := None)) j))) b) =
      (\<Sum>j \<in> dom T - {k}. pending (f (the (T j))) b)"
    by (rule sum.cong) auto
  ultimately show ?thesis
    using assms by (auto simp: table_refs_def sum_diff1 split: option.splits)
qed

lemma table_refs_some [simp]:
  assumes "finite (dom T)"
  shows "table_refs f (T(k \<mapsto> y)) b =
     table_refs f T b - (case T k of None \<Rightarrow> 0 | Some x \<Rightarrow> pending (f x) b) + pending (f y) b"
proof -
  have "table_refs f (T(k \<mapsto> y)) b = table_refs f (T(k := None)) b + pending (f y) b"
    using assms
    by (auto simp: table_refs_def insert_absorb sum.insert_remove intro!: sum.cong)
  then show ?thesis using assms by simp
qed

definition held :: "runtime \<Rightarrow> api \<Rightarrow> int" where
  "held w b = table_refs queue_refs (QT w) b + table_refs program_refs (PT w) b
     + table_refs kernel_refs (KT w) b + table_refs work_refs (works w) b"

text \<open>
  The references the runtime took and neither gave back nor filed: those the application
  owns, and those a callback registered with the vendor will release.
\<close>

definition surplus :: "runtime \<Rightarrow> api \<Rightarrow> int" where
  "surplus w b = owed (calls w) b - held w b - pending (guards w) b"

definition finite_tables :: "runtime \<Rightarrow> bool" where
  "finite_tables w \<longleftrightarrow>
     finite (dom (QT w)) \<and> finite (dom (PT w)) \<and> finite (dom (KT w)) \<and> finite (dom (works w))"

lemma surplus_leave [simp]:
  "\<forall>a \<in> set (guards w). is_release a \<Longrightarrow>
     surplus (leave v g w) b = surplus w b - pending g b"
  by (simp add: surplus_def held_def) (simp add: leave_def)

lemma finite_tables_leave [simp]: "finite_tables (leave v g w) = finite_tables w"
  by (simp add: finite_tables_def leave_def)

lemma tables_leave [simp]:
  "QT (leave v g w) = QT w" "PT (leave v g w) = PT w" "KT (leave v g w) = KT w"
  "works (leave v g w) = works w" "prio (leave v g w) = prio w" "serial (leave v g w) = serial w"
  by (simp_all add: leave_def)

end
