(* ===== verification/Service.thy ===== *)
theory Service
  imports SchedHigh SchedLow Runtime
begin

text \<open>
  The life of the schedule service object of \<open>runtime/ScheduleService.cpp\<close> (constructor,
  \<open>StartBus\<close>, \<open>Terminate\<close>) and of the log level of \<open>runtime/RuntimeKeeper.cpp\<close>: what
  the environment variables, the bus and the timer calls make of a process. The workers
  started at the end of \<open>StartBus\<close> are modelled in \<open>SchedHigh\<close> and \<open>SchedLow\<close>.
\<close>

section \<open>The code\<close>

text \<open>
  What the process finds at start-up: two environment variables, and the results of the
  system and bus calls in the order they are made.
\<close>

record sched_env =
  env_priority :: "string option"
  env_bus_type :: "string option"
  eventfd_ret :: int
  bus_open_ret :: "bool \<Rightarrow> int"
  timerfd_ret :: "nat \<Rightarrow> int"
  level_match_ret :: int
  owner_match_ret :: int
  method_ret :: int
  method_reply :: "(string \<times> u64 \<times> task_bitmap) bus_read"

datatype prio_task = low_prio_task | high_prio_task "u32 list" "int list"

record sched_service =
  TermEventFd :: int
  IsOnSystemBus :: bool
  Priority :: priority
  s_CompilerPath :: string
  s_Threshold :: u64
  s_Bitmap :: task_bitmap
  Task :: prio_task

fun StartTimers :: "(nat \<Rightarrow> int) \<Rightarrow> nat list \<Rightarrow> int list outcome" where
  "StartTimers timerfd_create [] = Ok []"
| "StartTimers timerfd_create (Kind # Kinds) =
     (if timerfd_create Kind < 0 then Abort
      else bindO (StartTimers timerfd_create Kinds) (\<lambda>fds. Ok (timerfd_create Kind # fds)))"

definition INTER_ASSERT_ret :: "int \<Rightarrow> (unit \<Rightarrow> 'a outcome) \<Rightarrow> 'a outcome" where
  "INTER_ASSERT_ret Ret k = (if Ret < 0 then Abort else k ())"

definition StartBus :: "sched_env \<Rightarrow> sched_service \<Rightarrow> sched_service outcome" where
  "StartBus e s =
     INTER_ASSERT_ret (bus_open_ret e (IsOnSystemBus s)) (\<lambda>_.
       if Priority s \<noteq> LOW
       then bindO (StartTimers (timerfd_ret e) [0..<NumOfTaskKind]) (\<lambda>fds.
              Ok (s\<lparr>Task := high_prio_task (replicate NumOfTaskKind 0) fds\<rparr>))
       else
         INTER_ASSERT_ret (level_match_ret e) (\<lambda>_.
         INTER_ASSERT_ret (owner_match_ret e) (\<lambda>_.
         INTER_ASSERT_ret (method_ret e) (\<lambda>_.
           case method_reply e of
             ReadFail _ \<Rightarrow> Abort
           | ReadOk (Path, Thr, Bits) \<Rightarrow>
               Ok (s\<lparr>s_Threshold := Thr, s_Bitmap := Bits, s_CompilerPath := Path\<rparr>)))))"

definition ScheduleService_new :: "sched_env \<Rightarrow> sched_service outcome" where
  "ScheduleService_new e =
     (let s = \<lparr>TermEventFd = - 1, IsOnSystemBus = False, Priority = LOW, s_CompilerPath = [],
               s_Threshold = 0, s_Bitmap = 0, Task = low_prio_task\<rparr>;
          s = (case env_priority e of
                 None \<Rightarrow> s
               | Some Fine \<Rightarrow> if Fine = ''high'' then s\<lparr>Priority := HIGH\<rparr> else s);
          s = (case env_bus_type e of
                 None \<Rightarrow> s
               | Some BusType \<Rightarrow> if BusType = ''system'' then s\<lparr>IsOnSystemBus := True\<rparr> else s);
          s = s\<lparr>TermEventFd := eventfd_ret e\<rparr>
      in INTER_ASSERT_ret (TermEventFd s) (\<lambda>_. StartBus e s))"

text \<open>\<open>Terminate\<close> also returns the descriptors it closes.\<close>

definition Terminate :: "int \<Rightarrow> sched_service \<Rightarrow> (sched_service \<times> int list) outcome" where
  "Terminate WriteRet s =
     (if \<not> 0 < WriteRet then Abort
      else
        let (s, closed) =
          (case Task s of
             low_prio_task \<Rightarrow> (s, [])
           | high_prio_task c fds \<Rightarrow> (s\<lparr>Task := high_prio_task c (map (\<lambda>_. - 1) fds)\<rparr>, fds))
        in Ok (s\<lparr>TermEventFd := - 1\<rparr>, closed @ [TermEventFd s]))"

definition RuntimeKeeper_level :: "string option \<Rightarrow> nat" where
  "RuntimeKeeper_level Env =
     (case Env of
        None \<Rightarrow> 0
      | Some Level \<Rightarrow>
          if Level = ''error'' then LOG_ERROR
          else if Level = ''info'' then LOG_INFO
          else if Level = ''debug'' then LOG_DEBUG
          else 0)"

section \<open>Lemmas\<close>

lemma INTER_ASSERT_ret_Ok [simp]: "INTER_ASSERT_ret r k = Ok s \<longleftrightarrow> 0 \<le> r \<and> k () = Ok s"
  by (simp add: INTER_ASSERT_ret_def)

lemma StartTimers_Ok: "StartTimers f ks = Ok fds \<longleftrightarrow> fds = map f ks \<and> (\<forall>k \<in> set ks. 0 \<le> f k)"
  by (induction ks arbitrary: fds) auto

text \<open>The descriptors a service owns.\<close>

definition owned :: "sched_service \<Rightarrow> int list" where
  "owned s = (case Task s of low_prio_task \<Rightarrow> [] | high_prio_task c fds \<Rightarrow> fds) @ [TermEventFd s]"

section \<open>Properties\<close>

text \<open>
  C14. A process starts exactly if the calls its priority needs succeed. It is of high
  priority if and only if \<open>CLPKM_PRIORITY\<close> is \<open>high\<close>, and then it has one timer and a
  counter of 0 for each task kind and asks the daemon for nothing; a low priority process
  takes compiler, threshold and bitmap from the daemon's reply.
\<close>

theorem ScheduleService_starts:
  "ScheduleService_new e = Ok s \<longleftrightarrow>
     (let is_high = (env_priority e = Some ''high''); is_system = (env_bus_type e = Some ''system'')
      in 0 \<le> eventfd_ret e \<and> 0 \<le> bus_open_ret e is_system \<and>
         TermEventFd s = eventfd_ret e \<and> IsOnSystemBus s = is_system \<and>
         (if is_high
          then 0 \<le> timerfd_ret e 0 \<and> 0 \<le> timerfd_ret e 1 \<and> Priority s = HIGH \<and>
            Task s = high_prio_task [0, 0] [timerfd_ret e 0, timerfd_ret e 1] \<and>
            s_CompilerPath s = [] \<and> s_Threshold s = 0 \<and> s_Bitmap s = 0
          else 0 \<le> level_match_ret e \<and> 0 \<le> owner_match_ret e \<and> 0 \<le> method_ret e \<and> Priority s = LOW \<and>
            Task s = low_prio_task \<and>
            method_reply e = ReadOk (s_CompilerPath s, s_Threshold s, s_Bitmap s)))"
proof -
  have up: "[0..<2] = [0, 1 :: nat]" by (simp add: upt_rec)
  have rep: "replicate 2 (0 :: u32) = [0, 0]" by (simp add: numeral_2_eq_2)
  have eq: "s = t \<longleftrightarrow> TermEventFd s = TermEventFd t \<and> IsOnSystemBus s = IsOnSystemBus t \<and>
      Priority s = Priority t \<and> s_CompilerPath s = s_CompilerPath t \<and> s_Threshold s = s_Threshold t \<and>
      s_Bitmap s = s_Bitmap t \<and> Task s = Task t" for t :: sched_service
    by (cases s; cases t) auto
  show ?thesis
    unfolding ScheduleService_new_def StartBus_def Let_def
    by (cases "env_priority e = Some ''high''"; cases "env_bus_type e = Some ''system''")
      (auto simp: StartTimers_Ok up rep eq
        split: option.split bus_read.splits)
qed

text \<open>
  Termination gives back every descriptor the service owns, each once, and leaves it
  with none; it ends the process if the worker cannot be told.
\<close>

theorem Terminate_closes:
  "Terminate n s = (if 0 < n then Ok (s\<lparr>TermEventFd := - 1, Task := (case Task s of low_prio_task \<Rightarrow> low_prio_task
       | high_prio_task c fds \<Rightarrow> high_prio_task c (replicate (length fds) (- 1)))\<rparr>, owned s) else Abort)"
  by (cases "Task s") (simp_all add: Terminate_def owned_def map_replicate_const)

end
