(* ===== verification/WorkSize.thy ===== *)
theory WorkSize
  imports Prelude
begin

text \<open>
  Model of \<open>FindWorkGroupSize\<close> of \<open>runtime/Support.cpp\<close>, the search for a local work
  size when the application gives none: the table of the admissible factors of each
  dimension, the odometer \<open>NextTry\<close> over index vectors, and the search for the largest
  product. The main result is that the answer divides the global size, respects the limits
  of the device, and that no admissible answer is larger.

  Sizes are \<open>size_t\<close> values, modelled as natural numbers; the one product that can
  exceed 64 bits is reduced modulo \<open>2^64\<close> where the code computes it.
\<close>

section \<open>The code\<close>

function factors_from :: "nat \<Rightarrow> nat \<Rightarrow> nat \<Rightarrow> nat list" where
  "factors_from W M Num =
     (let Quotient = W div Num
      in if Num \<le> Quotient \<and> Num \<le> M
         then (if W mod Num \<noteq> 0 then []
               else Num # (if Quotient \<noteq> Num \<and> Quotient \<le> M then [Quotient] else []))
              @ factors_from W M (Num + 1)
         else [])"
  by pat_completeness auto
termination
proof (relation "measure (\<lambda>(W, M, Num). Suc W - Num)")
  fix W M Num Quotient :: nat
  assume "Quotient = W div Num" and "Num \<le> Quotient \<and> Num \<le> M"
  then have "Num \<le> W" using div_le_dividend [of W Num] by linarith
  then show "((W, M, Num + 1), W, M, Num) \<in> measure (\<lambda>(W, M, Num). Suc W - Num)" by simp
qed simp

declare factors_from.simps [simp del]

fun NextTry :: "nat list list \<Rightarrow> nat list \<Rightarrow> bool \<times> nat list" where
  "NextTry (f # fs) (t # ts) =
     (if t + 1 = length f
      then (case NextTry fs ts of (b, ts') \<Rightarrow> (b, 0 # ts'))
      else (True, (t + 1) # ts))"
| "NextTry _ ts = (False, ts)"

text \<open>Reading \<open>Factor[Dim][TrySet[Dim]]\<close> out of range is undefined behaviour.\<close>

definition try_ok :: "nat list list \<Rightarrow> nat list \<Rightarrow> bool" where
  "try_ok fs ts = list_all2 (\<lambda>f t. t < length f) fs ts"

definition pick :: "nat list list \<Rightarrow> nat list \<Rightarrow> nat list" where
  "pick fs ts = map2 (\<lambda>f t. f ! t) fs ts"

definition wrap_prod :: "nat list \<Rightarrow> nat" where
  "wrap_prod xs = foldl (\<lambda>acc x. (acc * x) mod 2 ^ 64) 1 xs"

fun rank :: "nat list list \<Rightarrow> nat list \<Rightarrow> nat" where
  "rank (f # fs) (t # ts) = t + length f * rank fs ts"
| "rank _ _ = 0"

definition num_tries :: "nat list list \<Rightarrow> nat" where
  "num_tries fs = prod_list (map length fs)"

lemma rank_less: "try_ok fs ts \<Longrightarrow> rank fs ts < num_tries fs"
proof (induction fs ts rule: rank.induct)
  case (1 f fs t ts)
  then have t: "t < length f" and r: "rank fs ts < num_tries fs" by (auto simp: try_ok_def)
  have "t + length f * rank fs ts < length f * (rank fs ts + 1)" using t by simp
  also have "\<dots> \<le> length f * num_tries fs" using r by (intro mult_le_mono2) simp
  finally show ?case by (simp add: num_tries_def)
qed (auto simp: try_ok_def num_tries_def)

lemma rank_NextTry: "NextTry fs ts = (True, ts') \<Longrightarrow> rank fs ts' = Suc (rank fs ts)"
proof (induction fs ts arbitrary: ts' rule: NextTry.induct)
  case (1 f fs t ts)
  then show ?case
    by (auto split: if_splits prod.splits simp: algebra_simps)
qed auto

lemma NextTry_decreases:
  assumes "(True, ts') = NextTry fs ts" and "try_ok fs ts'"
  shows "num_tries fs - rank fs ts' < num_tries fs - rank fs ts"
  using rank_NextTry [of fs ts ts'] rank_less [of fs ts'] assms by simp

function TryLoop :: "nat list list \<Rightarrow> nat \<Rightarrow> nat list \<Rightarrow> nat list \<Rightarrow> nat \<Rightarrow> nat list outcome" where
  "TryLoop Factor MaxNumOfThread TrySet MaxSet MaxSize =
     (case NextTry Factor TrySet of
        (False, _) \<Rightarrow> Ok MaxSet
      | (True, TrySet') \<Rightarrow>
          if \<not> try_ok Factor TrySet' then Crash
          else
            let ThisSize = wrap_prod (pick Factor TrySet')
            in if MaxSize < ThisSize \<and> ThisSize < MaxNumOfThread
               then TryLoop Factor MaxNumOfThread TrySet' TrySet' ThisSize
               else TryLoop Factor MaxNumOfThread TrySet' MaxSet MaxSize)"
  by pat_completeness auto
termination
  by (relation "measure (\<lambda>(fs, M, ts, ms, s). num_tries fs - rank fs ts)")
     (auto simp: NextTry_decreases)

declare TryLoop.simps [simp del]

text \<open>
  The replies of \<open>clGetDeviceInfo\<close> (the limit of each dimension) and of
  \<open>clGetKernelWorkGroupInfo\<close> (the limit of the group) are inputs, each a status code with
  the value written on success.
\<close>

definition FindWorkGroupSize ::
  "cl_int \<times> nat list \<Rightarrow> cl_int \<times> nat \<Rightarrow> nat \<Rightarrow> nat list \<Rightarrow> nat list outcome" where
  "FindWorkGroupSize DevInfo KernelInfo WorkDim WorkSize =
     (if fst DevInfo \<noteq> CL_SUCCESS then Throw (fst DevInfo)
      else if fst KernelInfo \<noteq> CL_SUCCESS then Throw (fst KernelInfo)
      else
        let MaxThreadSize = snd DevInfo;
            MaxNumOfThread = snd KernelInfo;
            Factor = map (\<lambda>Dim. factors_from (WorkSize ! Dim) (MaxThreadSize ! Dim) 1) [0..<WorkDim]
        in bindO (TryLoop Factor MaxNumOfThread (replicate WorkDim 0) (replicate WorkDim 0) 1)
             (\<lambda>MaxSet. if try_ok Factor MaxSet then Ok (pick Factor MaxSet) else Crash))"

section \<open>The factor table\<close>

lemma factors_from_iff:
  assumes "0 < n"
  shows "d \<in> set (factors_from W M n) \<longleftrightarrow>
     (\<exists>k \<ge> n. k * k \<le> W \<and> k \<le> M \<and> k dvd W \<and> (d = k \<or> d = W div k \<and> d \<le> M))"
  using assms
proof (induction W M n rule: factors_from.induct)
  case (1 W M n)
  have sq: "k \<le> W div k \<longleftrightarrow> k * k \<le> W" if "0 < k" for k
    using that by (simp add: less_eq_div_iff_mult_less_eq)
  show ?case
  proof (cases "n \<le> W div n \<and> n \<le> M")
    case True
    have step: "(\<exists>k \<ge> n. P k) \<longleftrightarrow> P n \<or> (\<exists>k \<ge> n + 1. P k)" for P
      by (metis Suc_eq_plus1 le_eq_less_or_eq less_eq_Suc_le)
    have IH: "d \<in> set (factors_from W M (n + 1)) \<longleftrightarrow>
       (\<exists>k \<ge> n + 1. k * k \<le> W \<and> k \<le> M \<and> k dvd W \<and> (d = k \<or> d = W div k \<and> d \<le> M))"
      using 1 True by simp
    have here: "d \<in> set (if W mod n \<noteq> 0 then []
          else n # (if W div n \<noteq> n \<and> W div n \<le> M then [W div n] else [])) \<longleftrightarrow>
        n * n \<le> W \<and> n \<le> M \<and> n dvd W \<and> (d = n \<or> d = W div n \<and> d \<le> M)"
      using True sq [OF 1(2)] by (auto simp: dvd_eq_mod_eq_0)
    have "d \<in> set (factors_from W M n) \<longleftrightarrow> d \<in> set (if W mod n \<noteq> 0 then []
          else n # (if W div n \<noteq> n \<and> W div n \<le> M then [W div n] else [])) \<or>
        d \<in> set (factors_from W M (n + 1))"
      using True by (subst factors_from.simps) (simp add: Let_def)
    then show ?thesis unfolding here IH step .
  next
    case False
    have "\<not> (k * k \<le> W \<and> k \<le> M)" if "n \<le> k" for k
    proof
      assume "k * k \<le> W \<and> k \<le> M"
      moreover have "n * n \<le> k * k" using that by (simp add: mult_le_mono)
      ultimately show False using False sq [OF 1(2)] that by linarith
    qed
    then show ?thesis using False by (subst factors_from.simps) auto
  qed
qed

text \<open>The table of a dimension holds the divisors of its size that the device allows.\<close>

lemma set_factors:
  assumes "0 < W"
  shows "set (factors_from W M 1) = {d. d dvd W \<and> d \<le> M}"
proof -
  have "d dvd W \<and> d \<le> M \<longleftrightarrow>
      (\<exists>k \<ge> 1. k * k \<le> W \<and> k \<le> M \<and> k dvd W \<and> (d = k \<or> d = W div k \<and> d \<le> M))" for d
  proof
    assume d: "d dvd W \<and> d \<le> M"
    then obtain q where q: "W = d * q" by blast
    have pos: "1 \<le> d" "1 \<le> q" using assms q by auto
    show "\<exists>k \<ge> 1. k * k \<le> W \<and> k \<le> M \<and> k dvd W \<and> (d = k \<or> d = W div k \<and> d \<le> M)"
    proof (cases "d \<le> q")
      case True
      then show ?thesis using d pos q by (intro exI [of _ d]) simp
    next
      case False
      then show ?thesis using d pos q by (intro exI [of _ q]) simp
    qed
  next
    assume "\<exists>k \<ge> 1. k * k \<le> W \<and> k \<le> M \<and> k dvd W \<and> (d = k \<or> d = W div k \<and> d \<le> M)"
    then show "d dvd W \<and> d \<le> M" by (auto elim!: dvdE)
  qed
  then show ?thesis using factors_from_iff [of 1] by auto
qed

lemma hd_factors:
  assumes "0 < W" and "0 < M"
  shows "factors_from W M 1 \<noteq> [] \<and> factors_from W M 1 ! 0 = 1"
  using assms by (subst (1 2) factors_from.simps) (auto simp: Let_def Suc_le_eq)

section \<open>The odometer\<close>

fun decode :: "nat list list \<Rightarrow> nat \<Rightarrow> nat list" where
  "decode [] i = []"
| "decode (f # fs) i = (i mod length f) # decode fs (i div length f)"

lemma num_tries_simps [simp]: "num_tries [] = 1" "num_tries (f # fs) = length f * num_tries fs"
  by (simp_all add: num_tries_def)

lemma decode_zero: "decode fs 0 = replicate (length fs) 0"
  by (induction fs) simp_all

lemma decode_ok: "\<forall>f \<in> set fs. f \<noteq> [] \<Longrightarrow> try_ok fs (decode fs i)"
  by (induction fs arbitrary: i) (auto simp: try_ok_def)

lemma decode_rank: "try_ok fs ts \<Longrightarrow> decode fs (rank fs ts) = ts"
proof (induction fs ts rule: rank.induct)
  case (1 f fs t ts)
  then have "t < length f" by (simp add: try_ok_def)
  then have "(t + length f * rank fs ts) mod length f = t"
    and "(t + length f * rank fs ts) div length f = rank fs ts"
    by (auto simp: div_add1_eq)
  then show ?case using 1 by (simp add: try_ok_def)
qed (auto simp: try_ok_def)

lemma div_mod_Suc_carry:
  assumes "0 < n" and "i mod n + 1 = n"
  shows "Suc i div n = Suc (i div n)" and "Suc i mod n = 0"
proof -
  have e: "Suc i = n * Suc (i div n)"
    using assms(2) mult_div_mod_eq [of n i] unfolding mult_Suc_right by linarith
  show "Suc i div n = Suc (i div n)" "Suc i mod n = 0" unfolding e using assms(1) by simp_all
qed

lemma div_mod_Suc_no_carry:
  assumes "0 < n" and "i mod n + 1 \<noteq> n"
  shows "Suc i div n = i div n" and "Suc i mod n = Suc (i mod n)"
  using assms by (auto simp: div_Suc mod_Suc)

text \<open>The odometer enumerates the index vectors in the order of their ranks.\<close>

lemma NextTry_decode:
  "\<forall>f \<in> set fs. f \<noteq> [] \<Longrightarrow> i < num_tries fs \<Longrightarrow>
     fst (NextTry fs (decode fs i)) = (Suc i < num_tries fs) \<and>
     (Suc i < num_tries fs \<longrightarrow> snd (NextTry fs (decode fs i)) = decode fs (Suc i))"
proof (induction fs arbitrary: i)
  case (Cons f fs)
  let ?n = "length f"
  have n: "0 < ?n" using Cons.prems by simp
  have q: "i div ?n < num_tries fs"
    using Cons.prems n by (simp add: less_mult_imp_div_less mult.commute)
  show ?case
  proof (cases "i mod ?n + 1 = ?n")
    case True
    note c = div_mod_Suc_carry [OF n True]
    have "Suc i = ?n * Suc (i div ?n)"
      using True mult_div_mod_eq [of ?n i] unfolding mult_Suc_right by linarith
    then have "Suc i < ?n * num_tries fs \<longleftrightarrow> Suc (i div ?n) < num_tries fs"
      using n by (metis nat_mult_less_cancel1)
    then show ?thesis
      using Cons.IH [OF _ q] Cons.prems(1) True c by (auto split: prod.splits)
  next
    case False
    note c = div_mod_Suc_no_carry [OF n False]
    have "Suc i < ?n * num_tries fs"
    proof -
      have "i mod ?n + 1 < ?n" using False n mod_less_divisor [OF n, of i] by linarith
      then have "Suc i < ?n * (i div ?n) + ?n"
        using mult_div_mod_eq [of ?n i] by linarith
      also have "\<dots> \<le> ?n * num_tries fs"
        using q by (metis Suc_leI add.commute mult_Suc_right mult_le_mono2)
      finally show ?thesis .
    qed
    then show ?thesis using False c by simp
  qed
qed simp

section \<open>The search\<close>

definition size_at :: "nat list list \<Rightarrow> nat list \<Rightarrow> nat" where
  "size_at fs ts = wrap_prod (pick fs ts)"

definition best_so_far :: "nat list list \<Rightarrow> nat \<Rightarrow> nat \<Rightarrow> nat list \<Rightarrow> nat \<Rightarrow> bool" where
  "best_so_far fs M i ms s \<longleftrightarrow> try_ok fs ms \<and> size_at fs ms = s \<and> (s = 1 \<or> s < M)
     \<and> (\<forall>j \<le> i. size_at fs (decode fs j) < M \<longrightarrow> size_at fs (decode fs j) \<le> s)"

lemma TryLoop_best:
  assumes "\<forall>f \<in> set fs. f \<noteq> []" and "i < num_tries fs" and "best_so_far fs M i ms s"
  shows "\<exists>r s'. TryLoop fs M (decode fs i) ms s = Ok r \<and> best_so_far fs M (num_tries fs - 1) r s'"
  using assms(2,3)
proof (induction "num_tries fs - i" arbitrary: i ms s rule: less_induct)
  case less
  note nt = NextTry_decode [OF assms(1) less.prems(1)]
  show ?case
  proof (cases "Suc i < num_tries fs")
    case False
    then have i: "i = num_tries fs - 1" using less.prems(1) by simp
    obtain ts' where "NextTry fs (decode fs i) = (False, ts')"
      using nt False by (cases "NextTry fs (decode fs i)") simp
    then have "TryLoop fs M (decode fs i) ms s = Ok ms" by (simp add: TryLoop.simps)
    then show ?thesis using less.prems(2) i by blast
  next
    case True
    let ?ts = "decode fs (Suc i)"
    have nx: "NextTry fs (decode fs i) = (True, ?ts)" using nt True by (simp add: prod_eq_iff)
    have ok: "try_ok fs ?ts" using assms(1) by (rule decode_ok)
    have m: "num_tries fs - Suc i < num_tries fs - i" using True by simp
    have upto: "(\<forall>j \<le> Suc i. P j) \<longleftrightarrow> (\<forall>j \<le> i. P j) \<and> P (Suc i)" for P
      by (auto simp: le_Suc_eq)
    show ?thesis
    proof (cases "s < size_at fs ?ts \<and> size_at fs ?ts < M")
      case True
      then have "best_so_far fs M (Suc i) ?ts (size_at fs ?ts)"
        using less.prems(2) ok by (fastforce simp: best_so_far_def upto)
      from less.hyps [OF m \<open>Suc i < num_tries fs\<close> this] show ?thesis
        using True by (simp add: TryLoop.simps [of fs M "decode fs i"] nx ok size_at_def)
    next
      case False
      then have "best_so_far fs M (Suc i) ms s"
        using less.prems(2) by (auto simp: best_so_far_def upto)
      from less.hyps [OF m True this] show ?thesis
        using False by (auto simp: TryLoop.simps [of fs M "decode fs i"] nx ok size_at_def)
    qed
  qed
qed

lemma best_all:
  assumes "best_so_far fs M (num_tries fs - 1) r s" and "try_ok fs ts" and "size_at fs ts < M"
  shows "size_at fs ts \<le> size_at fs r"
  using assms rank_less [OF assms(2)] decode_rank [OF assms(2)]
  by (auto simp: best_so_far_def dest!: spec [of _ "rank fs ts"])

section \<open>The answer\<close>

lemma wrap_prod_mod: "wrap_prod xs = prod_list xs mod 2 ^ 64"
proof -
  have "a < 2 ^ 64 \<Longrightarrow> foldl (\<lambda>acc x. (acc * x) mod 2 ^ 64) a xs = (a * prod_list xs) mod 2 ^ 64"
    for a :: nat
  proof (induction xs arbitrary: a)
    case (Cons x xs)
    have "foldl (\<lambda>acc x. (acc * x) mod 2 ^ 64) ((a * x) mod 2 ^ 64) xs =
        ((a * x) mod 2 ^ 64 * prod_list xs) mod 2 ^ 64"
      by (rule Cons.IH) simp
    also have "\<dots> = (a * x * prod_list xs) mod 2 ^ 64" by (rule mod_mult_left_eq)
    finally show ?case by (simp add: mult.assoc)
  qed simp
  from this [of 1] show ?thesis by (simp add: wrap_prod_def)
qed

lemma pick_range:
  "list_all2 (\<lambda>f x. x \<in> set f) fs v \<longleftrightarrow> (\<exists>ts. try_ok fs ts \<and> pick fs ts = v)"
proof (induction fs arbitrary: v)
  case Nil
  then show ?case by (auto simp: try_ok_def pick_def)
next
  case (Cons f fs)
  show ?case
  proof
    assume "list_all2 (\<lambda>f x. x \<in> set f) (f # fs) v"
    then obtain x v' where v: "v = x # v'" "x \<in> set f" and r: "list_all2 (\<lambda>f x. x \<in> set f) fs v'"
      by (auto simp: list_all2_Cons1)
    obtain t where t: "t < length f" "f ! t = x" using v(2) by (auto simp: in_set_conv_nth)
    obtain ts where "try_ok fs ts" "pick fs ts = v'" using r Cons.IH by blast
    then show "\<exists>ts. try_ok (f # fs) ts \<and> pick (f # fs) ts = v"
      using t v(1) by (intro exI [of _ "t # ts"]) (simp add: try_ok_def pick_def)
  next
    assume "\<exists>ts. try_ok (f # fs) ts \<and> pick (f # fs) ts = v"
    then obtain t ts where "t < length f" "try_ok fs ts" "v = f ! t # pick fs ts"
      by (auto simp: try_ok_def pick_def list_all2_Cons1)
    then show "list_all2 (\<lambda>f x. x \<in> set f) (f # fs) v"
      using Cons.IH [of "pick fs ts"] by auto
  qed
qed

definition admissible :: "nat list \<Rightarrow> nat list \<Rightarrow> nat list \<Rightarrow> bool" where
  "admissible W M lws \<longleftrightarrow> length lws = length W
     \<and> (\<forall>d < length W. lws ! d dvd W ! d \<and> lws ! d \<le> M ! d)"

lemma admissible_prod:
  assumes "admissible W M v" and "length W \<le> length M"
  shows "prod_list v \<le> prod_list (take (length W) M)"
proof -
  have "list_all2 (\<le>) xs ys \<Longrightarrow> prod_list xs \<le> prod_list ys" for xs ys :: "nat list"
    by (induction xs ys rule: list_all2_induct) (auto intro: mult_le_mono)
  moreover have "list_all2 (\<le>) v (take (length W) M)"
    using assms by (auto simp: admissible_def list_all2_conv_all_nth)
  ultimately show ?thesis by blast
qed

lemma factor_table:
  assumes "\<forall>d < n. 0 < W ! d" and "length W = n"
  shows "list_all2 (\<lambda>f x. x \<in> set f) (map (\<lambda>d. factors_from (W ! d) (M ! d) 1) [0..<n]) v
     \<longleftrightarrow> admissible W M v"
  using assms set_factors by (auto simp: list_all2_conv_all_nth admissible_def)

text \<open>The search over any table whose rows start with 1 and whose products do not wrap.\<close>

lemma search_optimal:
  assumes rows: "\<forall>f \<in> set fs. f \<noteq> [] \<and> f ! 0 = 1"
    and nowrap: "\<And>ts. try_ok fs ts \<Longrightarrow> size_at fs ts = prod_list (pick fs ts)"
    and n: "n = length fs"
  shows "\<exists>r. TryLoop fs N (replicate n 0) (replicate n 0) 1 = Ok r \<and> try_ok fs r
     \<and> (prod_list (pick fs r) = 1 \<or> prod_list (pick fs r) < N)
     \<and> (\<forall>ts. try_ok fs ts \<longrightarrow> prod_list (pick fs ts) < N \<longrightarrow>
            prod_list (pick fs ts) \<le> prod_list (pick fs r))"
proof -
  have ne: "\<forall>f \<in> set fs. f \<noteq> []" using rows by blast
  have ok0: "try_ok fs (decode fs 0)" using ne by (rule decode_ok)
  have "\<forall>f \<in> set xs. f ! 0 = 1 \<Longrightarrow> prod_list (pick xs (replicate (length xs) 0)) = 1"
    for xs :: "nat list list"
    by (induction xs) (auto simp: pick_def)
  then have "size_at fs (decode fs 0) = 1"
    using rows nowrap [OF ok0] by (simp add: decode_zero)
  then have "best_so_far fs N 0 (decode fs 0) 1"
    using ok0 by (simp add: best_so_far_def)
  moreover have "0 < num_tries fs" using rank_less [OF ok0] by simp
  ultimately obtain r s where run: "TryLoop fs N (decode fs 0) (decode fs 0) 1 = Ok r"
    and best: "best_so_far fs N (num_tries fs - 1) r s"
    using TryLoop_best [OF ne] by blast
  have okr: "try_ok fs r" using best by (simp add: best_so_far_def)
  have "prod_list (pick fs r) = 1 \<or> prod_list (pick fs r) < N"
    using best nowrap [OF okr] by (auto simp: best_so_far_def)
  moreover have "prod_list (pick fs ts) \<le> prod_list (pick fs r)"
    if "try_ok fs ts" "prod_list (pick fs ts) < N" for ts
    using best_all [OF best that(1)] that nowrap [OF that(1)] nowrap [OF okr] by simp
  ultimately show ?thesis using run okr by (auto simp: decode_zero n)
qed

text \<open>
  C25. With limits that fit in 64 bits, the automatically chosen local work size divides the
  global work size in every dimension, stays within the device's limit of every dimension,
  is either all ones or strictly below the limit of the work-group, and its product is the
  largest of all choices with these properties.
\<close>

theorem FindWorkGroupSize_optimal:
  assumes "length WorkSize = WorkDim" and "WorkDim \<le> length MaxT"
    and "\<forall>d < WorkDim. 0 < WorkSize ! d \<and> 0 < MaxT ! d"
    and "prod_list (take WorkDim MaxT) < 2 ^ 64"
  shows "\<exists>lws. FindWorkGroupSize (CL_SUCCESS, MaxT) (CL_SUCCESS, N) WorkDim WorkSize = Ok lws
     \<and> admissible WorkSize MaxT lws \<and> (prod_list lws = 1 \<or> prod_list lws < N)
     \<and> (\<forall>v. admissible WorkSize MaxT v \<longrightarrow> prod_list v < N \<longrightarrow> prod_list v \<le> prod_list lws)"
proof -
  define fs where "fs = map (\<lambda>d. factors_from (WorkSize ! d) (MaxT ! d) 1) [0..<WorkDim]"
  have rows: "\<forall>f \<in> set fs. f \<noteq> [] \<and> f ! 0 = 1"
    using assms(3) hd_factors by (auto simp: fs_def)
  have adm: "admissible WorkSize MaxT v \<longleftrightarrow> (\<exists>ts. try_ok fs ts \<and> pick fs ts = v)" for v
  proof -
    have "list_all2 (\<lambda>f x. x \<in> set f) fs v \<longleftrightarrow> admissible WorkSize MaxT v"
      unfolding fs_def by (rule factor_table) (use assms in auto)
    then show ?thesis using pick_range [of fs v] by simp
  qed
  have size: "size_at fs ts = prod_list (pick fs ts)" if "try_ok fs ts" for ts
  proof -
    have "admissible WorkSize MaxT (pick fs ts)" unfolding adm using that by blast
    then have "prod_list (pick fs ts) \<le> prod_list (take WorkDim MaxT)"
      using admissible_prod [of WorkSize MaxT] assms(1,2) by simp
    then show ?thesis using assms(4) by (simp add: size_at_def wrap_prod_mod)
  qed
  have n: "WorkDim = length fs" by (simp add: fs_def)
  obtain r where run: "TryLoop fs N (replicate WorkDim 0) (replicate WorkDim 0) 1 = Ok r"
    and r: "try_ok fs r" "prod_list (pick fs r) = 1 \<or> prod_list (pick fs r) < N"
    and best: "\<And>ts. try_ok fs ts \<Longrightarrow> prod_list (pick fs ts) < N \<Longrightarrow>
            prod_list (pick fs ts) \<le> prod_list (pick fs r)"
    using search_optimal [OF rows size n, of N] by metis
  have "FindWorkGroupSize (CL_SUCCESS, MaxT) (CL_SUCCESS, N) WorkDim WorkSize = Ok (pick fs r)"
    unfolding FindWorkGroupSize_def fst_conv snd_conv fs_def [symmetric] Let_def run
    using r by simp
  moreover have "admissible WorkSize MaxT (pick fs r)" unfolding adm using r(1) by blast
  moreover have "prod_list v \<le> prod_list (pick fs r)"
    if "admissible WorkSize MaxT v" "prod_list v < N" for v
    using that best unfolding adm by blast
  ultimately show ?thesis using r(2) by blast
qed

lemma FindWorkGroupSize_optimal_witness:
  "\<exists>lws. FindWorkGroupSize (CL_SUCCESS, [64, 64]) (CL_SUCCESS, 16) 2 [8, 4] = Ok lws
     \<and> prod_list lws < 16 \<and> 8 \<le> prod_list lws"
proof -
  obtain lws where l: "FindWorkGroupSize (CL_SUCCESS, [64, 64]) (CL_SUCCESS, 16) 2 [8, 4] = Ok lws"
    "prod_list lws = 1 \<or> prod_list lws < 16"
    "\<forall>v. admissible [8, 4] [64, 64] v \<longrightarrow> prod_list v < 16 \<longrightarrow> prod_list v \<le> prod_list lws"
    using FindWorkGroupSize_optimal [of "[8, 4]" 2 "[64, 64]" 16] by (auto simp: less_2_iff)
  have "admissible [8, 4] [64, 64] [8, 1]" by (auto simp: admissible_def less_Suc_eq)
  then have "8 \<le> prod_list lws" using l(3) by fastforce
  then show ?thesis using l by auto
qed

end
