(* ===== verification/Reorder.thy ===== *)
theory Reorder
  imports Runtime
begin

text \<open>
  Model of \<open>ReorderCore\<close> and \<open>Reorder\<close> of \<open>runtime/Support.cpp\<close>: a low priority
  application's commands go to its queue with an extra event to wait for, the task blocker,
  so that commands of an in-order queue keep their order even though the kernels themselves
  run on an out-of-order shadow queue.
\<close>

section \<open>The code\<close>

text \<open>
  The function that submits the command gets the wait list and whether an event is wanted;
  it returns the status and, on success, the event.
\<close>

type_synonym ReorderInvokee = "handle list \<Rightarrow> bool \<Rightarrow> (cl_int \<times> handle) rt"

definition set_blocker :: "handle \<Rightarrow> handle \<Rightarrow> unit rt" where
  "set_blocker q e = modify (\<lambda>w. w\<lparr>QT := (QT w)(q := map_option (\<lambda>qi. qi\<lparr>TaskBlocker := e\<rparr>) (QT w q))\<rparr>)"

text \<open>
  \<open>TaskBlocker = std::move(E)\<close> swaps: the guard \<open>E\<close>, which owned the event \<open>e\<close>, is left
  with the old blocker.
\<close>

definition swap_blocker :: "handle \<Rightarrow> handle \<Rightarrow> unit rt" where
  "swap_blocker q e =
     andThen (get (\<lambda>w. map_option TaskBlocker (QT w q))) (\<lambda>old.
     andThen (disown_obj ReleaseEvent e) (\<lambda>_.
     andThen (own_obj ReleaseEvent (case old of None \<Rightarrow> NULL | Some b \<Rightarrow> b)) (\<lambda>_.
     set_blocker q e)))"

definition ReorderCore ::
  "vendor \<Rightarrow> handle \<Rightarrow> QueueInfo \<Rightarrow> handle list \<Rightarrow> bool \<Rightarrow> ReorderInvokee \<Rightarrow> (cl_int \<times> handle) rt" where
  "ReorderCore v q QI WaitingList Event Submit =
     (let WaitingList = (if TaskBlocker QI \<noteq> NULL then WaitingList @ [TaskBlocker QI]
                         else WaitingList)
      in if \<not> ShallReorder QI then Submit WaitingList Event
         else scoped v
           (andThen (Submit WaitingList True) (\<lambda>(Ret, AltEvent).
            andThen (own_obj ReleaseEvent AltEvent) (\<lambda>_.
            andThen (OCL_ASSERT Ret) (\<lambda>_.
            andThen (if Event
                     then andThen (call v (RetainEvent AltEvent)) (\<lambda>r.
                          INTER_ASSERT (ret r = CL_SUCCESS))
                     else return ()) (\<lambda>_.
            andThen (swap_blocker q AltEvent) (\<lambda>_.
            return (CL_SUCCESS, if Event then AltEvent else NULL))))))))"

text \<open>A wait list comes as a pointer (\<open>None\<close> for null) and a length.\<close>

definition bad_wait_list :: "handle list option \<Rightarrow> nat \<Rightarrow> bool" where
  "bad_wait_list WaitingList NumOfWaiting \<longleftrightarrow>
     (NumOfWaiting > 0 \<and> WaitingList = None) \<or> (NumOfWaiting = 0 \<and> WaitingList \<noteq> None)"

definition wait_list :: "handle list option \<Rightarrow> nat \<Rightarrow> handle list" where
  "wait_list WaitingList NumOfWaiting =
     (case WaitingList of None \<Rightarrow> [] | Some ws \<Rightarrow> take NumOfWaiting ws)"

definition Reorder ::
  "vendor \<Rightarrow> handle \<Rightarrow> handle list option \<Rightarrow> nat \<Rightarrow> bool \<Rightarrow> ReorderInvokee \<Rightarrow> (cl_int \<times> handle) rt" where
  "Reorder v OrigQueue WaitingList NumOfWaiting Event Submit =
     (if bad_wait_list WaitingList NumOfWaiting then return (CL_INVALID_EVENT_WAIT_LIST, NULL)
      else andThen (get (\<lambda>w. QT w OrigQueue)) (\<lambda>QTEntry.
        case QTEntry of
          None \<Rightarrow> return (CL_INVALID_COMMAND_QUEUE, NULL)
        | Some QI \<Rightarrow>
            ReorderCore v OrigQueue QI (wait_list WaitingList NumOfWaiting) Event Submit))"

text \<open>The submission the interface functions pass: one vendor enqueue on the user's queue.\<close>

definition EnqueueFunc :: "vendor \<Rightarrow> command \<Rightarrow> handle \<Rightarrow> ReorderInvokee" where
  "EnqueueFunc v c Queue WaitingList want =
     andThen (call v (Enqueue c Queue WaitingList want)) (\<lambda>r.
     return (ret r, if ret r = CL_SUCCESS \<and> want then obj r else NULL))"

section \<open>What one submission does\<close>

definition blocker_list :: "QueueInfo \<Rightarrow> handle list" where
  "blocker_list QI = (if TaskBlocker QI \<noteq> NULL then [TaskBlocker QI] else [])"

text \<open>The vendor's reply to the enqueue of a submission.\<close>

abbreviation enqueue_of :: "command \<Rightarrow> handle \<Rightarrow> QueueInfo \<Rightarrow> handle list \<Rightarrow> bool \<Rightarrow> api" where
  "enqueue_of c q QI ws want \<equiv> Enqueue c q (ws @ blocker_list QI) (want \<or> ShallReorder QI)"

text \<open>
  The state after a submission with reply \<open>r\<close>: the command was enqueued once, behind the
  user's events and the task blocker. If that succeeded, its event is the new blocker of an
  in-order queue; nothing else in the tables changes.
\<close>

definition submitted ::
  "command \<Rightarrow> handle \<Rightarrow> QueueInfo \<Rightarrow> handle list \<Rightarrow> bool \<Rightarrow> reply \<Rightarrow> runtime \<Rightarrow> runtime \<Rightarrow> bool" where
  "submitted c q QI ws want r w w' \<longleftrightarrow>
     (\<exists>t. calls w' = calls w @ (enqueue_of c q QI ws want, r) # t
        \<and> (\<forall>a \<in> set (made t). a = RetainEvent (obj r) \<or> is_release a)) \<and>
     QT w' = (if ShallReorder QI \<and> ret r = CL_SUCCESS
              then (QT w)(q \<mapsto> QI\<lparr>TaskBlocker := obj r\<rparr>) else QT w) \<and>
     PT w' = PT w \<and> KT w' = KT w \<and> works w' = works w \<and> prio w' = prio w \<and>
     guards w' = guards w \<and> finite_tables w' = finite_tables w"

lemma swap_blocker_eq:
  assumes "QT w q = Some QI"
  shows "swap_blocker q e w = (Ok (), w\<lparr>guards := guard_of ReleaseEvent (TaskBlocker QI) @
       unguard ReleaseEvent e (guards w),
     QT := (QT w)(q \<mapsto> QI\<lparr>TaskBlocker := e\<rparr>)\<rparr>)"
  using assms by (simp add: swap_blocker_def set_blocker_def modify_def)

lemma wp_swap_blocker:
  assumes "QT w q = Some QI"
    and "Q () (w\<lparr>guards := guard_of ReleaseEvent (TaskBlocker QI) @
       unguard ReleaseEvent e (guards w),
     QT := (QT w)(q \<mapsto> QI\<lparr>TaskBlocker := e\<rparr>)\<rparr>)"
  shows "wp Z (swap_blocker q e) Q E w"
  using assms by (simp add: wp_def swap_blocker_eq)

lemma wp_ReorderCore:
  fixes v w c q QI ws want
  defines "r \<equiv> v (calls w) (enqueue_of c q QI ws want)"
  assumes "QT w q = Some QI"
  shows "wp True (ReorderCore v q QI ws want (EnqueueFunc v c q))
     (\<lambda>x w'. submitted c q QI ws want r w w' \<and> fst x = ret r \<and>
        (\<not> ShallReorder QI \<or> ret r = CL_SUCCESS) \<and>
        snd x = (if ret r = CL_SUCCESS \<and> want then obj r else NULL))
     (\<lambda>e w'. submitted c q QI ws want r w w' \<and> e = ret r \<and> e \<noteq> CL_SUCCESS \<and> ShallReorder QI) w"
proof -
  have wl: "(if TaskBlocker QI \<noteq> NULL then ws @ [TaskBlocker QI] else ws) = ws @ blocker_list QI"
    by (simp add: blocker_list_def)
  show ?thesis
  proof (cases "ShallReorder QI")
    case True
    then have r: "v (calls w) (Enqueue c q (ws @ blocker_list QI) True) = r"
      by (simp add: r_def)
    show ?thesis
      unfolding ReorderCore_def Let_def EnqueueFunc_def wl using assms(2)
      apply (simp only: True not_True_eq_False if_False)
      apply (intro wp_andThen wp_scoped wp_call_eq vc wp_swap_blocker)
      apply (auto simp: submitted_def leave_def finite_tables_def r True)
      done
  next
    case False
    then have r: "v (calls w) (Enqueue c q (ws @ blocker_list QI) want) = r"
      by (simp add: r_def)
    show ?thesis
      unfolding ReorderCore_def Let_def EnqueueFunc_def wl using assms(2)
      apply (simp only: False not_False_eq_True if_True)
      apply (intro wp_andThen wp_call_eq vc)
      apply (auto simp: submitted_def leave_def finite_tables_def r False)
      done
  qed
qed

end
