(* ===== verification/SchedGuard.thy ===== *)
theory SchedGuard
  imports Runtime
begin

text \<open>
  Model of \<open>ScheduleService::SchedGuard\<close> of \<open>runtime/ScheduleService.{hpp,cpp}\<close>: the guard an
  API function holds while it does work of one kind. Its constructor calls \<open>SchedStart\<close>
  and its destructor \<open>SchedEnd\<close>; \<open>BindToEvent\<close> hands the duty to call \<open>SchedEnd\<close> to a
  callback on an event. What \<open>SchedStart\<close> and \<open>SchedEnd\<close> do is modelled in \<open>SchedHigh\<close> and
  \<open>SchedLow\<close>; here
  they are calls in the trace, and a reply other than success to \<open>SchedStart\<close> stands for
  its failed assertion on \<open>timerfd_settime\<close>.
\<close>

section \<open>The code\<close>

definition Schedule :: "vendor \<Rightarrow> task_kind \<Rightarrow> ('e world_scheme, unit) prog" where
  "Schedule v K =
     andThen (call v (SchedStart K)) (\<lambda>r.
     andThen (INTER_ASSERT (ret r = CL_SUCCESS)) (\<lambda>_.
     own (SchedEnd K)))"

text \<open>
  The number the callback gets: the kind, negated if the callback also has to release the
  event.
\<close>

definition callback_data :: "task_kind \<Rightarrow> bool \<Rightarrow> int" where
  "callback_data K GottaReleaseEvent =
     (let Data = int (kind_nat K) in if GottaReleaseEvent then - Data else Data)"

definition BindToEvent :: "vendor \<Rightarrow> task_kind \<Rightarrow> handle \<Rightarrow> bool \<Rightarrow> ('e world_scheme, unit) prog" where
  "BindToEvent v K E GottaReleaseEvent =
     (if E = NULL then return ()
      else
        andThen (disown (SchedEnd K)) (\<lambda>_.
        andThen (call v (SetSchedEndCallback E (callback_data K GottaReleaseEvent))) (\<lambda>r.
        INTER_ASSERT (ret r = CL_SUCCESS))))"

definition kind_of :: "int \<Rightarrow> task_kind" where
  "kind_of n = (if n = 0 then COMPUTING else if n = 1 then MEMCPY else NUM_OF_TASK_KIND)"

definition SchedEndOnEventCallback :: "vendor \<Rightarrow> handle \<Rightarrow> int \<Rightarrow> ('e world_scheme, unit) prog" where
  "SchedEndOnEventCallback v Event Data =
     andThen (if Data < 0 then andThen (call v (ReleaseEvent Event)) (\<lambda>_. return ())
              else return ()) (\<lambda>_.
     andThen (call v (SchedEnd (kind_of \<bar>Data\<bar>))) (\<lambda>_. return ()))"

section \<open>Rules\<close>

lemma kind_of_callback_data [simp]: "kind_of \<bar>callback_data K g\<bar> = K"
  by (cases K) (simp_all add: kind_of_def callback_data_def)

text \<open>The event is released by the callback only for the kind whose number is not 0.\<close>

lemma callback_data_neg [simp]: "callback_data K g < 0 \<longleftrightarrow> g \<and> K \<noteq> COMPUTING"
  by (cases K) (simp_all add: callback_data_def)

lemma wp_Schedule [vc]:
  "(\<And>r. ret r = CL_SUCCESS \<Longrightarrow>
      Q () (w\<lparr>calls := calls w @ [(SchedStart K, r)], guards := SchedEnd K # guards w\<rparr>)) \<Longrightarrow>
   Z \<or> (\<forall>t. ret (v t (SchedStart K)) = CL_SUCCESS) \<Longrightarrow>
   wp Z (Schedule v K) Q E w"
  unfolding Schedule_def by (intro wp_andThen wp_call_eq vc) auto

lemma wp_BindToEvent [vc]:
  "(E = NULL \<Longrightarrow> Q () w) \<Longrightarrow>
   (\<And>r. E \<noteq> NULL \<Longrightarrow> ret r = CL_SUCCESS \<Longrightarrow>
      Q () (w\<lparr>guards := remove1 (SchedEnd K) (guards w),
              calls := calls w @ [(SetSchedEndCallback E (callback_data K g), r)]\<rparr>)) \<Longrightarrow>
   wp True (BindToEvent v K E g) Q E' w"
  unfolding BindToEvent_def by (intro vc) auto

end
