(* ===== verification/Launch.thy ===== *)
theory Launch
  imports SchedGuard
begin

text \<open>
  Model of the rest of \<open>runtime/Callback.cpp\<close>: \<open>MetaEnqueue\<close>, which enqueues one run of an
  instrumented kernel and the read-back of its header on the shadow queue, and
  \<open>ResumeOrFinish\<close>, the callback on the read-back, which finishes the task, fails it, or
  enqueues the next run. A launch (\<open>CallbackData\<close>) is named by its number in \<open>works\<close>.
\<close>

section \<open>The code\<close>

definition set_work :: "nat \<Rightarrow> (CallbackData \<Rightarrow> CallbackData) \<Rightarrow> unit rt" where
  "set_work wid f = modify (\<lambda>w. w\<lparr>works := (works w)(wid := map_option f (works w wid))\<rparr>)"

definition the_work :: "nat \<Rightarrow> CallbackData rt" where
  "the_work wid = deref (\<lambda>w. works w wid)"

text \<open>A guard that is declared before the others of its scope, so finalised after them.\<close>

definition own_outer :: "(handle \<Rightarrow> api) \<Rightarrow> handle \<Rightarrow> unit rt" where
  "own_outer Release h = modify (\<lambda>w. w\<lparr>guards := guards w @ guard_of Release h\<rparr>)"

definition run_command :: "CallbackData \<Rightarrow> command" where
  "run_command Work =
     NDRangeKernel (cb_Kernel Work) (WorkDim Work) (GWO Work) (GWS Work) (LWS Work)"

definition HeaderSize :: "CallbackData \<Rightarrow> nat" where
  "HeaderSize Work = length (HostMetadata Work) - HeaderOffset Work"

definition MetaEnqueue :: "vendor \<Rightarrow> nat \<Rightarrow> handle list \<Rightarrow> unit rt" where
  "MetaEnqueue v wid WaitingList = scoped v
     (andThen (Schedule v COMPUTING) (\<lambda>_.
      andThen (the_work wid) (\<lambda>Work.
      andThen (call_ok v (Enqueue (run_command Work) (cb_Queue Work) WaitingList True)) (\<lambda>r.
      andThen (set_work wid (\<lambda>W. W\<lparr>PrevWork := (obj r, snd (PrevWork W))\<rparr>)) (\<lambda>_.
      andThen (Schedule v MEMCPY) (\<lambda>_.
      andThen (call_ok v (Enqueue (ReadHost (DeviceHeader Work) (4 * HeaderOffset Work)
          (4 * HeaderSize Work)) (cb_Queue Work) [obj r] True)) (\<lambda>EventRead.
      andThen (own_outer ReleaseEvent (obj EventRead)) (\<lambda>_.
      andThen (call_ok v (SetResumeCallback (obj EventRead) wid)) (\<lambda>_.
      andThen (call_ok v (Flush (cb_Queue Work))) (\<lambda>_.
      disown_obj ReleaseEvent (obj EventRead)))))))))))"

definition CL_PROFILING_COMMAND_START :: nat where "CL_PROFILING_COMMAND_START = 0x1282"
definition CL_PROFILING_COMMAND_END :: nat where "CL_PROFILING_COMMAND_END = 0x1283"

definition getExecTime :: "vendor \<Rightarrow> handle \<Rightarrow> u64 rt" where
  "getExecTime v Event =
     andThen (call_ok v (GetEventProfiling Event CL_PROFILING_COMMAND_START)) (\<lambda>Start.
     andThen (call_ok v (GetEventProfiling Event CL_PROFILING_COMMAND_END)) (\<lambda>End.
     return (of_nat (num End) - of_nat (num Start))))"

definition LogEventProfInfo :: "vendor \<Rightarrow> handle \<Rightarrow> unit rt" where
  "LogEventProfInfo v Event = andThen (getExecTime v Event) (\<lambda>_. return ())"

definition slot :: "nat \<Rightarrow> handle \<times> handle \<Rightarrow> handle" where
  "slot Idx p = (if Idx = 0 then fst p else snd p)"

definition clear_slot :: "nat \<Rightarrow> handle \<times> handle \<Rightarrow> handle \<times> handle" where
  "clear_slot Idx p = (if Idx = 0 then (NULL, snd p) else (fst p, NULL))"

text \<open>One turn of the loop over \<open>PrevWork\<close>.\<close>

definition CheckPrevWork :: "vendor \<Rightarrow> nat \<Rightarrow> nat \<Rightarrow> unit rt" where
  "CheckPrevWork v wid Idx =
     andThen (the_work wid) (\<lambda>Work.
       let Prev = slot Idx (PrevWork Work)
       in if Prev = NULL then return ()
          else
            andThen (call_ok v (GetEventStatus Prev)) (\<lambda>Status.
            andThen (OCL_ASSERT (of_nat (num Status))) (\<lambda>_.
            andThen (LogEventProfInfo v Prev) (\<lambda>_.
            andThen (call v (ReleaseEvent Prev)) (\<lambda>_.
            set_work wid (\<lambda>W. W\<lparr>PrevWork := clear_slot Idx (PrevWork W)\<rparr>))))))"

text \<open>
  \<open>UpdateHeader\<close> on the launch's header. An endless loop without side effects is undefined
  behaviour in C++.
\<close>

definition InspectHeader :: "nat \<Rightarrow> int rt" where
  "InspectHeader wid =
     andThen (the_work wid) (\<lambda>Work.
     andThen (get (\<lambda>w. shouldLog w LOG_DEBUG)) (\<lambda>ShouldLog.
       case UpdateHeader ShouldLog (drop (HeaderOffset Work) (HostMetadata Work))
              (WorkGrpSize Work) (cb_Bucket Work) of
         None \<Rightarrow> crash
       | Some (Ok (P, Header, B)) \<Rightarrow>
           andThen (set_work wid (\<lambda>W. W\<lparr>HostMetadata := take (HeaderOffset W) (HostMetadata W) @ Header,
                      cb_Bucket := B\<rparr>)) (\<lambda>_. return P)
       | Some (Throw e) \<Rightarrow> throw e
       | Some Abort \<Rightarrow> abort
       | Some Crash \<Rightarrow> crash))"

definition release_all :: "vendor \<Rightarrow> api list \<Rightarrow> unit rt" where
  "release_all v as w = (Ok (), w\<lparr>calls := run_calls v as (calls w)\<rparr>)"

definition CallbackCleanup :: "vendor \<Rightarrow> nat \<Rightarrow> unit rt" where
  "CallbackCleanup v wid =
     andThen (the_work wid) (\<lambda>Work.
     andThen (deref (\<lambda>w. deref_kinfo w (KInfo Work))) (\<lambda>ki.
     andThen (modify (\<lambda>w. w\<lparr>KT := (KT w)(fst (KInfo Work) \<mapsto>
         ki\<lparr>Pool := Pool ki @ [cb_Kernel Work]\<rparr>), works := (works w)(wid := None)\<rparr>)) (\<lambda>_.
     release_all v (work_refs (Work\<lparr>cb_Kernel := NULL\<rparr>)))))"

definition SettleFinal :: "vendor \<Rightarrow> nat \<Rightarrow> cl_int \<Rightarrow> unit rt" where
  "SettleFinal v wid Status =
     andThen (the_work wid) (\<lambda>Work.
     andThen (call v (SetUserEventStatus (Final Work) Status)) (\<lambda>r.
     andThen (INTER_ASSERT (ret r = CL_SUCCESS)) (\<lambda>_.
     CallbackCleanup v wid)))"

definition WriteHeader :: "vendor \<Rightarrow> nat \<Rightarrow> handle list rt" where
  "WriteHeader v wid = scoped v
     (andThen (the_work wid) (\<lambda>Work.
      andThen (Schedule v MEMCPY) (\<lambda>_.
      andThen (call_ok v (Enqueue (WriteHost (DeviceHeader Work) (4 * HeaderOffset Work)
          (drop (HeaderOffset Work) (HostMetadata Work))) (cb_Queue Work) [] True)) (\<lambda>r.
      andThen (set_work wid (\<lambda>W. W\<lparr>PrevWork := (fst (PrevWork W), obj r)\<rparr>)) (\<lambda>_.
      return [obj r])))))"

text \<open>
  \<open>Read\<close> is what the device put into the host copy of the header before the callback. The
  first log line reads the kernel's name through \<open>KInfo\<close> and counts the run.
\<close>

definition receive :: "nat \<Rightarrow> cl_int list \<Rightarrow> unit rt" where
  "receive wid Read = set_work wid (\<lambda>W. W\<lparr>HostMetadata := take (HeaderOffset W) (HostMetadata W) @ Read\<rparr>)"

definition ResumeBody :: "vendor \<Rightarrow> handle \<Rightarrow> cl_int \<Rightarrow> nat \<Rightarrow> unit rt" where
  "ResumeBody v Event ExecStatus wid = scoped v
     (andThen (own_obj ReleaseEvent Event) (\<lambda>_.
      andThen (the_work wid) (\<lambda>Work.
      andThen (deref (\<lambda>w. deref_kinfo w (KInfo Work))) (\<lambda>ki.
      andThen (deref (\<lambda>w. deref_profile w (Profile ki))) (\<lambda>_.
      andThen (set_work wid (\<lambda>W. W\<lparr>Counter := Counter W + 1\<rparr>)) (\<lambda>_.
      andThen (CheckPrevWork v wid 1) (\<lambda>_.
      andThen (CheckPrevWork v wid 0) (\<lambda>_.
      andThen (OCL_ASSERT ExecStatus) (\<lambda>_.
      andThen (LogEventProfInfo v Event) (\<lambda>_.
      andThen (InspectHeader wid) (\<lambda>P.
        if P = 0 then SettleFinal v wid CL_SUCCESS
        else
          andThen (if P < 0 then WriteHeader v wid else return []) (\<lambda>WaitingList.
          MetaEnqueue v wid WaitingList))))))))))))"

definition ResumeOrFinish :: "vendor \<Rightarrow> handle \<Rightarrow> cl_int \<Rightarrow> nat \<Rightarrow> unit rt" where
  "ResumeOrFinish v Event ExecStatus wid =
     catch (ResumeBody v Event ExecStatus wid) (\<lambda>OclError. SettleFinal v wid OclError)"

section \<open>What the pieces do\<close>

lemma wp_set_work [vc]:
  "Q () (w\<lparr>works := (works w)(wid := map_option f (works w wid))\<rparr>) \<Longrightarrow> wp Z (set_work wid f) Q E w"
  unfolding set_work_def by (intro vc)

lemma wp_the_work [vc]:
  "(works w wid = None \<Longrightarrow> Z) \<Longrightarrow> (\<And>Work. works w wid = Some Work \<Longrightarrow> Q Work w) \<Longrightarrow>
   wp Z (the_work wid) Q E w"
  unfolding the_work_def by (intro vc)

lemma wp_own_outer [vc]:
  "Q () (w\<lparr>guards := guards w @ guard_of Release h\<rparr>) \<Longrightarrow> wp Z (own_outer Release h) Q E w"
  unfolding own_outer_def by (intro vc)

lemma wp_release_all [vc]:
  "Q () (w\<lparr>calls := run_calls v as (calls w)\<rparr>) \<Longrightarrow> wp Z (release_all v as) Q E w"
  by (simp add: wp_def release_all_def)

text \<open>The calls a statement about a launch is interested in.\<close>

fun is_settle :: "api \<Rightarrow> bool" where
  "is_settle (SetUserEventStatus e s) = True"
| "is_settle _ = False"

fun is_act :: "api \<Rightarrow> bool" where
  "is_act (SetUserEventStatus e s) = True"
| "is_act (Enqueue c q ws b) = True"
| "is_act (SetResumeCallback e n) = True"
| "is_act _ = False"

abbreviation settles :: "trace \<Rightarrow> api list" where
  "settles u \<equiv> filter is_settle (made u)"

abbreviation acts :: "trace \<Rightarrow> api list" where
  "acts u \<equiv> filter is_act (made u)"

lemma settles_acts: "acts u = [] \<Longrightarrow> settles u = []"
  by (metis (mono_tags, lifting) filter_empty_conv is_act.simps(1) is_settle.elims(2))

lemma release_no_act:
  "is_release a \<Longrightarrow> \<not> is_act a" "is_release a \<Longrightarrow> \<not> is_settle a"
  by (cases a; simp)+

lemma filter_releases [simp]:
  "\<forall>a \<in> set as. is_release a \<Longrightarrow> filter is_act as = []"
  "\<forall>a \<in> set as. is_release a \<Longrightarrow> filter is_settle as = []"
  by (auto simp: filter_empty_conv release_no_act)

definition read_command :: "CallbackData \<Rightarrow> command" where
  "read_command Work = ReadHost (DeviceHeader Work) (4 * HeaderOffset Work) (4 * HeaderSize Work)"

abbreviation event_ref :: "handle \<Rightarrow> api \<Rightarrow> int" where
  "event_ref e \<equiv> pending (guard_of ReleaseEvent e)"

lemmas gains = gain_release gain_other

text \<open>
  What a step does to the state: it makes the calls \<open>u\<close> and leaves the launches as \<open>W\<close>;
  every other table stays as it is.
\<close>

definition stepped :: "runtime \<Rightarrow> trace \<Rightarrow> (nat \<rightharpoonup> CallbackData) \<Rightarrow> runtime \<Rightarrow> bool" where
  "stepped w u W w' \<longleftrightarrow> calls w' = calls w @ u \<and> works w' = W \<and> QT w' = QT w \<and> PT w' = PT w
     \<and> KT w' = KT w \<and> prio w' = prio w \<and> LogLevel w' = LogLevel w \<and> guards w' = guards w
     \<and> serial w' = serial w"

abbreviation with_prev :: "runtime \<Rightarrow> nat \<Rightarrow> CallbackData \<Rightarrow> handle \<times> handle \<Rightarrow> nat \<rightharpoonup> CallbackData" where
  "with_prev w wid Work p \<equiv> (works w)(wid \<mapsto> Work\<lparr>PrevWork := p\<rparr>)"

text \<open>
  The two calls whose failure ends the process: arming a timer in \<open>SchedStart\<close> and
  settling a user event.
\<close>

definition sound_vendor :: "vendor \<Rightarrow> bool" where
  "sound_vendor v \<longleftrightarrow> (\<forall>t K. ret (v t (SchedStart K)) = CL_SUCCESS) \<and>
     (\<forall>t e s. ret (v t (SetUserEventStatus e s)) = CL_SUCCESS)"

lemma post_MetaEnqueue:
  assumes "works w wid = Some Work" and "Z \<or> sound_vendor v"
  shows "wp Z (MetaEnqueue v wid ws)
     (\<lambda>_ w'. \<exists>u Run Read. stepped w u (with_prev w wid Work (Run, snd (PrevWork Work))) w' \<and>
        acts u = [Enqueue (run_command Work) (cb_Queue Work) ws True,
          Enqueue (read_command Work) (cb_Queue Work) [Run] True, SetResumeCallback Read wid] \<and>
        (\<forall>x \<in> set u. is_act (fst x) \<longrightarrow> ret (snd x) = CL_SUCCESS) \<and>
        (\<forall>b. owed u b = event_ref Run b + event_ref Read b))
     (\<lambda>e w'. e \<noteq> CL_SUCCESS \<and>
        ((\<exists>u. stepped w u (works w) w' \<and> settles u = [] \<and> (\<forall>b. owed u b = 0)) \<or>
         (\<exists>u Run. stepped w u (with_prev w wid Work (Run, snd (PrevWork Work))) w' \<and> settles u = [] \<and>
            (\<forall>b. owed u b = event_ref Run b)))) w"
  unfolding MetaEnqueue_def
  apply (intro vc)
  using assms
  apply (auto simp: leave_def read_command_def [symmetric] stepped_def gains sound_vendor_def
      dest!: set_replies)
  done

lemma post_CheckPrevWork:
  assumes "works w wid = Some Work"
  shows "wp Z (CheckPrevWork v wid Idx)
     (\<lambda>_ w'. \<exists>u. stepped w u (with_prev w wid Work (clear_slot Idx (PrevWork Work))) w' \<and>
        acts u = [] \<and> (\<forall>b. owed u b = - event_ref (slot Idx (PrevWork Work)) b))
     (\<lambda>e w'. e \<noteq> CL_SUCCESS \<and> (\<exists>u. stepped w u (works w) w' \<and> acts u = [] \<and> (\<forall>b. owed u b = 0))) w"
proof -
  have "slot Idx p = NULL \<Longrightarrow> clear_slot Idx p = p" for p :: "handle \<times> handle"
    by (cases p) (auto simp: slot_def clear_slot_def split: if_splits)
  then show ?thesis
    unfolding CheckPrevWork_def Let_def LogEventProfInfo_def getExecTime_def
    apply (intro vc)
    using assms
    apply (auto simp: stepped_def gains fun_upd_idem)
    done
qed

lemma post_LogEventProfInfo:
  "wp Z (LogEventProfInfo v e)
     (\<lambda>_ w'. \<exists>u. stepped w u (works w) w' \<and> acts u = [] \<and> (\<forall>b. owed u b = 0))
     (\<lambda>e w'. e \<noteq> CL_SUCCESS \<and> (\<exists>u. stepped w u (works w) w' \<and> acts u = [] \<and> (\<forall>b. owed u b = 0))) w"
  unfolding LogEventProfInfo_def getExecTime_def
  by (intro vc) (auto simp: stepped_def gains)

lemma post_WriteHeader:
  assumes "works w wid = Some Work" and "Z \<or> sound_vendor v"
  shows "wp Z (WriteHeader v wid)
     (\<lambda>x w'. \<exists>u e. x = [e] \<and> stepped w u (with_prev w wid Work (fst (PrevWork Work), e)) w' \<and>
        acts u = [Enqueue (WriteHost (DeviceHeader Work) (4 * HeaderOffset Work)
          (drop (HeaderOffset Work) (HostMetadata Work))) (cb_Queue Work) [] True] \<and>
        (\<forall>b. owed u b = event_ref e b))
     (\<lambda>e w'. e \<noteq> CL_SUCCESS \<and> (\<exists>u. stepped w u (works w) w' \<and> settles u = [] \<and> (\<forall>b. owed u b = 0))) w"
  unfolding WriteHeader_def
  apply (intro vc)
  using assms
  apply (auto simp: stepped_def gains leave_def sound_vendor_def)
  done

lemma post_InspectHeader:
  assumes "works w wid = Some Work" and "0 < WorkGrpSize Work"
    and "Z \<or> header_ok (WorkGrpSize Work) (drop (HeaderOffset Work) (HostMetadata Work))"
  defines "h \<equiv> drop (HeaderOffset Work) (HostMetadata Work)"
  shows "wp Z (InspectHeader wid)
     (\<lambda>x w'. header_ok (WorkGrpSize Work) h \<and> x = verdict (chunks (WorkGrpSize Work) h) \<and>
        (\<exists>B. stepped w [] ((works w)(wid \<mapsto> Work\<lparr>HostMetadata := take (HeaderOffset Work) (HostMetadata Work)
          @ concat (map release (chunks (WorkGrpSize Work) h)), cb_Bucket := B\<rparr>)) w'))
     (\<lambda>e w'. False) w"
proof -
  let ?L = "shouldLog w LOG_DEBUG"
  obtain B' where "UpdateHeader ?L h (WorkGrpSize Work) (cb_Bucket Work) =
     Some (if header_ok (WorkGrpSize Work) h
           then Ok (verdict (chunks (WorkGrpSize Work) h),
             concat (map release (chunks (WorkGrpSize Work) h)), B') else Abort)"
    using UpdateHeader_eq [OF assms(2)] by blast
  then show ?thesis
    using assms(1,3) unfolding InspectHeader_def h_def
    by (auto simp: wp_def andThen_def the_work_def deref_def get_def set_work_def modify_def
        return_def abort_def stepped_def)
qed

lemma post_CallbackCleanup:
  assumes "works w wid = Some Work" and "Z \<or> deref_kinfo w (KInfo Work) \<noteq> None"
  shows "wp Z (CallbackCleanup v wid)
     (\<lambda>_ w'. \<exists>u ki. calls w' = calls w @ u \<and> acts u = [] \<and>
        (\<forall>b. owed u b = - pending (work_refs (Work\<lparr>cb_Kernel := NULL\<rparr>)) b) \<and>
        deref_kinfo w (KInfo Work) = Some ki \<and>
        works w' = (works w)(wid := None) \<and>
        KT w' = (KT w)(fst (KInfo Work) \<mapsto> ki\<lparr>Pool := Pool ki @ [cb_Kernel Work]\<rparr>) \<and>
        QT w' = QT w \<and> PT w' = PT w \<and> prio w' = prio w \<and> LogLevel w' = LogLevel w \<and>
        guards w' = guards w \<and> serial w' = serial w)
     (\<lambda>e w'. False) w"
  unfolding CallbackCleanup_def
  apply (intro vc)
  using assms entry_refs_release(4) [of "Work\<lparr>cb_Kernel := NULL\<rparr>"]
  apply (auto simp: filter_empty_conv release_no_act)
  done

section \<open>The callback\<close>

text \<open>
  From \<open>w\<close>, where the launch was \<open>Work\<close>, the calls \<open>u\<close> lead to \<open>w'\<close>, where it is
  \<open>Work'\<close>; every reference taken on the way is filed in the launch, and the callback's
  own reference to the event \<open>ev\<close> (if not null) was given back.
\<close>

definition ran :: "nat \<Rightarrow> handle \<Rightarrow> runtime \<Rightarrow> CallbackData \<Rightarrow> trace \<Rightarrow> CallbackData \<Rightarrow> runtime \<Rightarrow> bool" where
  "ran wid ev w Work u Work' w' \<longleftrightarrow> stepped w u ((works w)(wid \<mapsto> Work')) w' \<and>
     (\<forall>b. owed u b = pending (work_refs Work') b - pending (work_refs Work) b - event_ref ev b)"

lemma ran_refl: "works w wid = Some Work \<Longrightarrow> ran wid NULL w Work [] Work w"
  by (simp add: ran_def stepped_def fun_upd_idem)

lemma ran_works: "ran wid ev w Work u Work' w' \<Longrightarrow> works w' wid = Some Work'"
  by (simp add: ran_def stepped_def)

lemma ran_step:
  "ran wid ev w Work u W w1 \<Longrightarrow> stepped w1 u' ((works w1)(wid \<mapsto> W')) w2 \<Longrightarrow>
   (\<And>b. owed u' b = pending (work_refs W') b - pending (work_refs W) b) \<Longrightarrow>
   ran wid ev w Work (u @ u') W' w2"
  by (simp add: ran_def stepped_def)

lemma ran_CheckPrevWork:
  assumes "ran wid ev w0 W0 u W w"
    and "\<And>u' w'. ran wid ev w0 W0 u' (W\<lparr>PrevWork := clear_slot Idx (PrevWork W)\<rparr>) w' \<Longrightarrow> acts u' = acts u \<Longrightarrow> Q () w'"
    and "\<And>e u' w'. e \<noteq> CL_SUCCESS \<Longrightarrow> ran wid ev w0 W0 u' W w' \<Longrightarrow> acts u' = acts u \<Longrightarrow> E e w'"
  shows "wp Z (CheckPrevWork v wid Idx) Q E w"
proof (rule wp_weaken [OF post_CheckPrevWork [OF ran_works [OF assms(1)]]], goal_cases)
  case (1 x w')
  then obtain u' where u': "stepped w u' (with_prev w wid W (clear_slot Idx (PrevWork W))) w'"
      "acts u' = []" "\<forall>b. owed u' b = - event_ref (slot Idx (PrevWork W)) b"
    by blast
  have "ran wid ev w0 W0 (u @ u') (W\<lparr>PrevWork := clear_slot Idx (PrevWork W)\<rparr>) w'"
    by (rule ran_step [OF assms(1) u'(1)]) (simp add: u'(3) work_refs_def slot_def clear_slot_def)
  then show ?case using assms(2) u'(2) by simp
next
  case (2 e w')
  then obtain u' where u': "stepped w u' (works w) w'" "acts u' = []" "\<forall>b. owed u' b = 0"
    by blast
  have "ran wid ev w0 W0 (u @ u') W w'"
    by (rule ran_step [OF assms(1)]) (use u' ran_works [OF assms(1)] in \<open>simp_all add: fun_upd_idem\<close>)
  then show ?case using assms(3) 2 u'(2) by simp
qed

lemma ran_LogEventProfInfo:
  assumes "ran wid ev w0 W0 u W w"
    and "\<And>u' w'. ran wid ev w0 W0 u' W w' \<Longrightarrow> acts u' = acts u \<Longrightarrow> Q () w'"
    and "\<And>e u' w'. e \<noteq> CL_SUCCESS \<Longrightarrow> ran wid ev w0 W0 u' W w' \<Longrightarrow> acts u' = acts u \<Longrightarrow> E e w'"
  shows "wp Z (LogEventProfInfo v e0) Q E w"
proof -
  have step: "ran wid ev w0 W0 (u @ u') W w'"
    if "stepped w u' (works w) w'" "\<forall>b. owed u' b = 0" for u' w'
    by (rule ran_step [OF assms(1)]) (use that ran_works [OF assms(1)] in \<open>simp_all add: fun_upd_idem\<close>)
  show ?thesis
    by (rule wp_weaken [OF post_LogEventProfInfo]) (use step assms(2,3) in \<open>fastforce+\<close>)
qed

lemma ran_InspectHeader:
  assumes "ran wid ev w0 W0 u W w" and "0 < WorkGrpSize W"
    and "Z \<or> header_ok (WorkGrpSize W) (drop (HeaderOffset W) (HostMetadata W))"
  defines "gs \<equiv> chunks (WorkGrpSize W) (drop (HeaderOffset W) (HostMetadata W))"
  assumes "\<And>B w'. header_ok (WorkGrpSize W) (drop (HeaderOffset W) (HostMetadata W)) \<Longrightarrow>
      ran wid ev w0 W0 u (W\<lparr>HostMetadata := take (HeaderOffset W) (HostMetadata W) @ concat (map release gs),
        cb_Bucket := B\<rparr>) w' \<Longrightarrow> Q (verdict gs) w'"
  shows "wp Z (InspectHeader wid) Q E w"
proof (rule wp_weaken [OF post_InspectHeader [OF ran_works [OF assms(1)] assms(2,3)]], goal_cases)
  case (1 x w')
  then obtain B where st: "stepped w [] ((works w)(wid \<mapsto> W\<lparr>HostMetadata :=
      take (HeaderOffset W) (HostMetadata W) @ concat (map release gs), cb_Bucket := B\<rparr>)) w'"
    unfolding gs_def by blast
  have "ran wid ev w0 W0 (u @ []) (W\<lparr>HostMetadata :=
      take (HeaderOffset W) (HostMetadata W) @ concat (map release gs), cb_Bucket := B\<rparr>) w'"
    by (rule ran_step [OF assms(1) st]) (simp add: work_refs_def)
  then show ?case using assms(5) 1 by (simp add: gs_def)
qed simp

lemma ran_WriteHeader:
  assumes "ran wid ev w0 W0 u W w" and "PrevWork W = (NULL, NULL)" and sound: "Z \<or> sound_vendor v"
    and "\<And>u' h w'. ran wid ev w0 W0 u' (W\<lparr>PrevWork := (NULL, h)\<rparr>) w' \<Longrightarrow>
      acts u' = acts u @ [Enqueue (WriteHost (DeviceHeader W) (4 * HeaderOffset W)
          (drop (HeaderOffset W) (HostMetadata W))) (cb_Queue W) [] True] \<Longrightarrow> Q [h] w'"
    and "\<And>e u' w'. e \<noteq> CL_SUCCESS \<Longrightarrow> ran wid ev w0 W0 u' W w' \<Longrightarrow> settles u' = settles u \<Longrightarrow> E e w'"
  shows "wp Z (WriteHeader v wid) Q E w"
proof (rule wp_weaken [OF post_WriteHeader [OF ran_works [OF assms(1)] sound]], goal_cases)
  case (1 x w')
  then obtain u' h where u': "x = [h]" "stepped w u' (with_prev w wid W (fst (PrevWork W), h)) w'"
      "acts u' = [Enqueue (WriteHost (DeviceHeader W) (4 * HeaderOffset W)
          (drop (HeaderOffset W) (HostMetadata W))) (cb_Queue W) [] True]"
      "\<forall>b. owed u' b = event_ref h b"
    by blast
  have "ran wid ev w0 W0 (u @ u') (W\<lparr>PrevWork := (NULL, h)\<rparr>) w'"
    by (rule ran_step [OF assms(1)]) (use u' assms(2) in \<open>simp_all add: work_refs_def\<close>)
  then show ?case using assms(4) u'(1,3) by simp
next
  case (2 e w')
  then obtain u' where u': "stepped w u' (works w) w'" "settles u' = []" "\<forall>b. owed u' b = 0"
    by blast
  have "ran wid ev w0 W0 (u @ u') W w'"
    by (rule ran_step [OF assms(1)]) (use u' ran_works [OF assms(1)] in \<open>simp_all add: fun_upd_idem\<close>)
  then show ?case using assms(5) 2 u'(2) by simp
qed

text \<open>The header of a launch, in groups, and the launch after \<open>UpdateHeader\<close> and a resume.\<close>

definition header_of :: "CallbackData \<Rightarrow> cl_int list" where
  "header_of W = drop (HeaderOffset W) (HostMetadata W)"

definition groups :: "CallbackData \<Rightarrow> cl_int list list" where
  "groups W = chunks (WorkGrpSize W) (header_of W)"

definition new_header :: "CallbackData \<Rightarrow> cl_int list" where
  "new_header W = concat (map release (groups W))"

definition launch_ok :: "CallbackData \<Rightarrow> bool" where
  "launch_ok W \<longleftrightarrow> 0 < WorkGrpSize W \<and> HeaderOffset W \<le> length (HostMetadata W)"

definition next_launch :: "CallbackData \<Rightarrow> bucket \<Rightarrow> handle \<times> handle \<Rightarrow> CallbackData" where
  "next_launch W B p = W\<lparr>Counter := Counter W + 1, PrevWork := p,
     HostMetadata := take (HeaderOffset W) (HostMetadata W) @ new_header W, cb_Bucket := B\<rparr>"

definition header_write :: "CallbackData \<Rightarrow> api list" where
  "header_write W =
     (if verdict (groups W) < 0
      then [Enqueue (WriteHost (DeviceHeader W) (4 * HeaderOffset W) (new_header W)) (cb_Queue W) [] True]
      else [])"

text \<open>The callback set up the next run.\<close>

definition resumed :: "nat \<Rightarrow> CallbackData \<Rightarrow> handle \<Rightarrow> runtime \<Rightarrow> trace \<Rightarrow> runtime \<Rightarrow> bool" where
  "resumed wid W ev w u w' \<longleftrightarrow> header_ok (WorkGrpSize W) (header_of W) \<and> verdict (groups W) \<noteq> 0 \<and>
     settles u = [] \<and>
     (\<exists>B Run Written Read.
        stepped w u ((works w)(wid \<mapsto> next_launch W B (Run, Written))) w' \<and>
        acts u = header_write W @
          [Enqueue (run_command W) (cb_Queue W) (if verdict (groups W) < 0 then [Written] else []) True,
           Enqueue (read_command W) (cb_Queue W) [Run] True, SetResumeCallback Read wid] \<and>
        (\<forall>b. owed u b = pending (work_refs (next_launch W B (Run, Written))) b
           - pending (work_refs W) b + event_ref Read b - event_ref ev b))"

lemma next_launch_simps [simp]:
  "run_command (next_launch W B p) = run_command W" "cb_Queue (next_launch W B p) = cb_Queue W"
  "PrevWork (next_launch W B p) = p" "next_launch W B p\<lparr>PrevWork := p'\<rparr> = next_launch W B p'"
  "DeviceHeader (next_launch W B p) = DeviceHeader W" "HeaderOffset (next_launch W B p) = HeaderOffset W"
  by (simp_all add: next_launch_def run_command_def)

lemma next_launch_header:
  assumes "launch_ok W"
  shows "read_command (next_launch W B p) = read_command W"
    and "drop (HeaderOffset W) (HostMetadata (next_launch W B p)) = new_header W"
proof -
  have "length (new_header W) = length (header_of W)"
    using assms length_concat_release by (simp add: new_header_def groups_def launch_ok_def)
  then show "read_command (next_launch W B p) = read_command W"
    using assms by (simp add: next_launch_def read_command_def HeaderSize_def header_of_def launch_ok_def)
  show "drop (HeaderOffset W) (HostMetadata (next_launch W B p)) = new_header W"
    using assms by (simp add: next_launch_def launch_ok_def)
qed

lemma ran_MetaEnqueue:
  assumes "ran wid ev w W u (next_launch W B (NULL, Written)) w1" and ok: "launch_ok W" and sound: "Z \<or> sound_vendor v"
    and "header_ok (WorkGrpSize W) (header_of W)" and "verdict (groups W) \<noteq> 0"
    and "acts u = header_write W" and "settles u = []"
    and "ws = (if verdict (groups W) < 0 then [Written] else [])"
    and "\<And>u' w'. resumed wid W ev w u' w' \<Longrightarrow> Q () w'"
    and "\<And>e u' W' w'. e \<noteq> CL_SUCCESS \<Longrightarrow> ran wid ev w W u' (next_launch W B W') w' \<Longrightarrow> settles u' = [] \<Longrightarrow> E e w'"
  shows "wp Z (MetaEnqueue v wid ws) Q E w1"
proof (rule wp_weaken [OF post_MetaEnqueue [OF ran_works [OF assms(1)] sound]], goal_cases)
  case (1 x w')
  then obtain u' Run Read where
    st: "stepped w1 u' ((works w1)(wid \<mapsto> next_launch W B (Run, Written))) w'" and
    a: "acts u' = [Enqueue (run_command W) (cb_Queue W) ws True,
          Enqueue (read_command W) (cb_Queue W) [Run] True, SetResumeCallback Read wid]" and
    o': "\<forall>b. owed u' b = event_ref Run b + event_ref Read b"
    by (auto simp: next_launch_header(1) [OF ok])
  have s: "settles u' = []"
    using a by (metis (no_types, lifting) filter.simps(1,2) filter_filter is_act.simps is_settle.elims(2)
        is_settle.simps filter_cong)
  have "resumed wid W ev w (u @ u') w'"
    unfolding resumed_def
    using assms(1,4-8) st a o' s
    by (auto simp: ran_def stepped_def work_refs_def next_launch_def header_write_def intro!: exI)
  then show ?case using assms(9) by simp
next
  case (2 e w')
  then consider u' where "stepped w1 u' (works w1) w'" "settles u' = []" "\<forall>b. owed u' b = 0"
    | u' Run where "stepped w1 u' ((works w1)(wid \<mapsto> next_launch W B (Run, Written))) w'"
        "settles u' = []" "\<forall>b. owed u' b = event_ref Run b"
    by auto
  then show ?case
  proof cases
    case 1
    then show ?thesis
      using ran_step [OF assms(1), of u' "next_launch W B (NULL, Written)" w'] ran_works [OF assms(1)]
        assms(7,10) 2 by (simp add: fun_upd_idem)
  next
    case 2: 2
    have "ran wid ev w W (u @ u') (next_launch W B (Run, Written)) w'"
      by (rule ran_step [OF assms(1) 2(1)]) (simp add: 2 work_refs_def next_launch_def)
    then show ?thesis using assms(7,10) 2(2) \<open>e \<noteq> CL_SUCCESS \<and> _\<close> by simp
  qed
qed

text \<open>The launch ended: its final event got the status \<open>s\<close> and the launch is gone.\<close>

definition settled :: "nat \<Rightarrow> CallbackData \<Rightarrow> handle \<Rightarrow> cl_int \<Rightarrow> runtime \<Rightarrow> trace \<Rightarrow> runtime \<Rightarrow> bool" where
  "settled wid W ev s w u w' \<longleftrightarrow> calls w' = calls w @ u \<and>
     settles u = [SetUserEventStatus (Final W) s] \<and>
     works w' = (works w)(wid := None) \<and>
     (\<exists>ki. deref_kinfo w (KInfo W) = Some ki \<and>
        KT w' = (KT w)(fst (KInfo W) \<mapsto> ki\<lparr>Pool := Pool ki @ [cb_Kernel W]\<rparr>)) \<and>
     QT w' = QT w \<and> PT w' = PT w \<and> prio w' = prio w \<and> LogLevel w' = LogLevel w \<and>
     guards w' = guards w \<and> serial w' = serial w \<and>
     (\<forall>b. owed u b = - pending (work_refs (W\<lparr>cb_Kernel := NULL\<rparr>)) b - event_ref ev b)"

definition same_launch :: "CallbackData \<Rightarrow> CallbackData \<Rightarrow> bool" where
  "same_launch W W' \<longleftrightarrow> (\<exists>c p hm B. W' = W\<lparr>Counter := c, PrevWork := p, HostMetadata := hm, cb_Bucket := B\<rparr>)"

lemma deref_kinfo_cong: "KT w = KT w' \<Longrightarrow> deref_kinfo w p = deref_kinfo w' p"
  by (simp add: deref_kinfo_def)

lemma ran_SettleFinal:
  assumes "ran wid ev w W u W1 w1" and "same_launch W W1" and "settles u = []"
    and sound: "Z \<or> sound_vendor v" and ki: "Z \<or> deref_kinfo w (KInfo W) \<noteq> None"
    and "\<And>u' w'. settled wid W ev s w u' w' \<Longrightarrow> Q () w'"
  shows "wp Z (SettleFinal v wid s) Q E w1"
proof -
  have f: "Final W1 = Final W" "KInfo W1 = KInfo W" "cb_Kernel W1 = cb_Kernel W"
    using assms(2) by (auto simp: same_launch_def)
  have o: "pending (work_refs (W1\<lparr>cb_Kernel := NULL\<rparr>)) b =
      pending (work_refs W1) b - pending (guard_of ReleaseKernel (cb_Kernel W)) b"
    "pending (work_refs (W\<lparr>cb_Kernel := NULL\<rparr>)) b =
      pending (work_refs W) b - pending (guard_of ReleaseKernel (cb_Kernel W)) b" for b
    using f by (simp_all add: work_refs_def)
  have w1: "works w1 wid = Some W1" by (rule ran_works [OF assms(1)])
  have "wp Z (CallbackCleanup v wid) Q E (w1\<lparr>calls := calls w1 @ [(SetUserEventStatus (Final W1) s, r)]\<rparr>)"
    if "ret r = CL_SUCCESS" for r
  proof (rule wp_weaken [OF post_CallbackCleanup [where Work = W1]], goal_cases)
    case (3 x w')
    then obtain u' ki where u': "calls w' = calls w1 @ (SetUserEventStatus (Final W1) s, r) # u'" "acts u' = []"
        "\<forall>b. owed u' b = - pending (work_refs (W1\<lparr>cb_Kernel := NULL\<rparr>)) b"
        "deref_kinfo w1 (KInfo W1) = Some ki" "works w' = (works w1)(wid := None)"
        "KT w' = (KT w1)(fst (KInfo W1) \<mapsto> ki\<lparr>Pool := Pool ki @ [cb_Kernel W1]\<rparr>)"
        "QT w' = QT w1" "PT w' = PT w1" "prio w' = prio w1" "LogLevel w' = LogLevel w1"
        "guards w' = guards w1" "serial w' = serial w1"
      by (auto simp: deref_kinfo_def)
    have "settled wid W ev s w (u @ (SetUserEventStatus (Final W1) s, r) # u') w'"
      unfolding settled_def
      using u' assms(1,3) settles_acts [OF u'(2)] f
      by (simp add: ran_def stepped_def o gains deref_kinfo_cong [of w1 w])
    then show ?case using assms(6) by simp
  qed (use ki f assms(1) deref_kinfo_cong [of w1 w] in \<open>auto simp: w1 ran_def stepped_def deref_kinfo_def\<close>)
  then show ?thesis
    unfolding SettleFinal_def using w1 sound by (intro wp_andThen wp_call_eq vc) (auto simp: sound_vendor_def)
qed

lemma stepped_scope:
  "stepped (w\<lparr>guards := g\<rparr>) u W w2 \<Longrightarrow>
     stepped w (u @ replies v g (calls w @ u)) W (leave v (guards w) w2)"
  by (simp add: stepped_def leave_def)

lemma scope_event:
  fixes ev v w u
  defines "g \<equiv> guard_of ReleaseEvent ev"
  defines "u' \<equiv> u @ replies v g (calls w @ u)"
  shows scope_ran: "ran wid NULL (w\<lparr>guards := g\<rparr>) W u W1 w1 \<Longrightarrow>
      ran wid ev w W u' W1 (leave v (guards w) w1)"
    and scope_resumed: "resumed wid W NULL (w\<lparr>guards := g\<rparr>) u w1 \<Longrightarrow>
      resumed wid W ev w u' (leave v (guards w) w1)"
    and scope_settled: "settled wid W NULL s (w\<lparr>guards := g\<rparr>) u w1 \<Longrightarrow>
      settled wid W ev s w u' (leave v (guards w) w1)"
    and scope_settles: "settles u' = settles u"
proof -
  have g: "filter is_act g = []" "filter is_settle g = []" "\<forall>a \<in> set g. is_release a"
    by (auto simp: g_def filter_empty_conv)
  show "ran wid NULL (w\<lparr>guards := g\<rparr>) W u W1 w1 \<Longrightarrow> ran wid ev w W u' W1 (leave v (guards w) w1)"
    using g by (simp add: ran_def stepped_def leave_def u'_def) (simp add: g_def)
  show "settled wid W NULL s (w\<lparr>guards := g\<rparr>) u w1 \<Longrightarrow> settled wid W ev s w u' (leave v (guards w) w1)"
    using g by (simp add: settled_def deref_kinfo_def leave_def u'_def) (simp add: g_def)
  show "settles u' = settles u" using g by (simp add: u'_def)
  assume "resumed wid W NULL (w\<lparr>guards := g\<rparr>) u w1"
  then obtain B Run Written Read where r:
    "header_ok (WorkGrpSize W) (header_of W)" "verdict (groups W) \<noteq> 0" "settles u = []"
    "stepped (w\<lparr>guards := g\<rparr>) u ((works w)(wid \<mapsto> next_launch W B (Run, Written))) w1"
    "acts u = header_write W @
          [Enqueue (run_command W) (cb_Queue W) (if verdict (groups W) < 0 then [Written] else []) True,
           Enqueue (read_command W) (cb_Queue W) [Run] True, SetResumeCallback Read wid]"
    "\<forall>b. owed u b = pending (work_refs (next_launch W B (Run, Written))) b
           - pending (work_refs W) b + event_ref Read b"
    by (auto simp: resumed_def)
  show "resumed wid W ev w u' (leave v (guards w) w1)"
    unfolding resumed_def
  proof (intro conjI)
    show "settles u' = []" using r(3) g by (simp add: u'_def)
    show "\<exists>B Run Written Read. stepped w u' ((works w)(wid \<mapsto> next_launch W B (Run, Written))) (leave v (guards w) w1) \<and>
        acts u' = header_write W @
          [Enqueue (run_command W) (cb_Queue W) (if verdict (groups W) < 0 then [Written] else []) True,
           Enqueue (read_command W) (cb_Queue W) [Run] True, SetResumeCallback Read wid] \<and>
        (\<forall>b. owed u' b = pending (work_refs (next_launch W B (Run, Written))) b
           - pending (work_refs W) b + event_ref Read b - event_ref ev b)"
      apply (rule exI [of _ B], rule exI [of _ Run], rule exI [of _ Written], rule exI [of _ Read])
      using r(5,6) g stepped_scope [OF r(4), of v]
      apply (simp add: u'_def)
      apply (simp add: g_def)
      done
  qed (rule r)+
qed

text \<open>The body, step by step: from the header inspection on, then from the start.\<close>

definition resume_ok :: "nat \<Rightarrow> CallbackData \<Rightarrow> handle \<Rightarrow> cl_int \<Rightarrow> runtime \<Rightarrow> runtime \<Rightarrow> bool" where
  "resume_ok wid W ev ExecStatus w w' \<longleftrightarrow> (\<exists>u. resumed wid W ev w u w' \<or>
     settled wid W ev CL_SUCCESS w u w' \<and> ExecStatus = CL_SUCCESS \<and>
       header_ok (WorkGrpSize W) (header_of W) \<and> verdict (groups W) = 0)"

definition resume_err :: "nat \<Rightarrow> CallbackData \<Rightarrow> handle \<Rightarrow> cl_int \<Rightarrow> runtime \<Rightarrow> runtime \<Rightarrow> bool" where
  "resume_err wid W ev e w w' \<longleftrightarrow> e \<noteq> CL_SUCCESS \<and>
     (\<exists>u W1. ran wid ev w W u W1 w' \<and> same_launch W W1 \<and> settles u = [])"

lemma same_launch_simps [simp]:
  "same_launch W (next_launch W B p)"
  "same_launch W (W\<lparr>Counter := c, PrevWork := p\<rparr>)" "same_launch W (W\<lparr>Counter := c\<rparr>)"
proof -
  have "W\<lparr>Counter := c, PrevWork := p\<rparr> =
      W\<lparr>Counter := c, PrevWork := p, HostMetadata := HostMetadata W, cb_Bucket := cb_Bucket W\<rparr>"
    "W\<lparr>Counter := c\<rparr> = W\<lparr>Counter := c, PrevWork := PrevWork W, HostMetadata := HostMetadata W,
      cb_Bucket := cb_Bucket W\<rparr>" by simp_all
  then show "same_launch W (W\<lparr>Counter := c, PrevWork := p\<rparr>)" "same_launch W (W\<lparr>Counter := c\<rparr>)"
    unfolding same_launch_def by blast+
  show "same_launch W (next_launch W B p)"
    unfolding same_launch_def next_launch_def by blast
qed

lemma resume_errI:
  "e \<noteq> CL_SUCCESS \<Longrightarrow> ran wid ev w W u W1 w' \<Longrightarrow> same_launch W W1 \<Longrightarrow> settles u = [] \<Longrightarrow>
     resume_err wid W ev e w w'"
  unfolding resume_err_def by blast

lemma wp_resume_tail:
  assumes r: "ran wid NULL w W u (W\<lparr>Counter := Counter W + 1, PrevWork := (NULL, NULL)\<rparr>) w1"
    and ok: "launch_ok W" and u: "acts u = []" and "ExecStatus = CL_SUCCESS"
    and sound: "Z \<or> sound_vendor v" and ki: "Z \<or> deref_kinfo w (KInfo W) \<noteq> None"
    and hdr: "Z \<or> header_ok (WorkGrpSize W) (header_of W)"
  shows "wp Z (andThen (InspectHeader wid) (\<lambda>P.
        if P = 0 then SettleFinal v wid CL_SUCCESS
        else andThen (if P < 0 then WriteHeader v wid else return []) (\<lambda>WaitingList.
          MetaEnqueue v wid WaitingList)))
     (\<lambda>_. resume_ok wid W NULL ExecStatus w) (\<lambda>e. resume_err wid W NULL e w) w1"
proof (rule wp_andThen, rule ran_InspectHeader [OF r], goal_cases)
  case 1
  then show ?case using ok by (simp add: launch_ok_def)
next
  case 2
  then show ?case using hdr by (simp add: header_of_def)
next
  case (3 B w2)
  let ?n = "next_launch W B (NULL, NULL)" and ?v = "verdict (groups W)"
  have h: "header_ok (WorkGrpSize W) (header_of W)" using 3(1) by (simp add: header_of_def)
  have r2: "ran wid NULL w W u ?n w2"
    using 3(2) by (simp add: next_launch_def new_header_def groups_def header_of_def)
  have s: "settles u = []" using settles_acts [OF u] .
  have e: "verdict (chunks (WorkGrpSize (W\<lparr>Counter := Counter W + 1, PrevWork := (NULL, NULL)\<rparr>))
      (drop (HeaderOffset (W\<lparr>Counter := Counter W + 1, PrevWork := (NULL, NULL)\<rparr>))
        (HostMetadata (W\<lparr>Counter := Counter W + 1, PrevWork := (NULL, NULL)\<rparr>)))) = ?v"
    by (simp add: groups_def header_of_def)
  show ?case unfolding e
  proof (intro wp_if wp_andThen wp_return)
    assume "?v = 0"
    then show "wp Z (SettleFinal v wid CL_SUCCESS)
        (\<lambda>_. resume_ok wid W NULL ExecStatus w) (\<lambda>e. resume_err wid W NULL e w) w2"
      by (intro ran_SettleFinal [OF r2 _ s sound ki]) (use h assms(4) in \<open>auto simp: resume_ok_def\<close>)
  next
    assume v: "?v \<noteq> 0" "\<not> ?v < 0"
    show "wp Z (MetaEnqueue v wid [])
        (\<lambda>_. resume_ok wid W NULL ExecStatus w) (\<lambda>e. resume_err wid W NULL e w) w2"
      by (intro ran_MetaEnqueue [OF r2 ok sound h v(1) _ s])
        (use u v in \<open>auto simp: header_write_def resume_ok_def intro: resume_errI\<close>)
  next
    assume v: "?v \<noteq> 0" "?v < 0"
    show "wp Z (WriteHeader v wid)
        (\<lambda>x. wp Z (MetaEnqueue v wid x)
          (\<lambda>_. resume_ok wid W NULL ExecStatus w) (\<lambda>e. resume_err wid W NULL e w))
        (\<lambda>e. resume_err wid W NULL e w) w2"
    proof (rule ran_WriteHeader [OF r2], goal_cases)
      case (3 u' h' w')
      have a: "acts u' = header_write W"
        using 3(2) u v by (simp add: header_write_def next_launch_header(2) [OF ok])
      have s': "settles u' = []"
      proof -
        have "settles u' = filter is_settle (acts u')"
          by (simp add: filter_filter) (metis is_act.simps(1) is_settle.elims(2))
        then show ?thesis by (simp add: a header_write_def)
      qed
      show ?case
        by (rule ran_MetaEnqueue [OF _ ok sound h v(1) a s', of wid NULL w B h' w'])
          (use 3 v in \<open>auto simp: resume_ok_def intro: resume_errI\<close>)
    qed (use s sound in \<open>auto intro: resume_errI\<close>)
  qed
qed

lemma clear_both: "clear_slot 0 (clear_slot 1 p) = (NULL, NULL)"
  by (simp add: clear_slot_def)

lemma wp_ResumeBody:
  assumes W: "works w wid = Some W" and ok: "launch_ok W"
    and sound: "Z \<or> sound_vendor v"
    and ptr: "Z \<or> (\<exists>ki p. deref_kinfo w (KInfo W) = Some ki \<and> deref_profile w (Profile ki) = Some p)"
    and hdr: "Z \<or> header_ok (WorkGrpSize W) (header_of W)"
  shows "wp Z (ResumeBody v Event ExecStatus wid)
     (\<lambda>_. resume_ok wid W Event ExecStatus w) (\<lambda>e. resume_err wid W Event e w) w"
proof -
  have ptr': "Z \<or> deref_kinfo (w\<lparr>guards := g\<rparr>) (KInfo W) \<noteq> None" for g
    using ptr by (auto simp: deref_kinfo_def)
  let ?g = "guard_of ReleaseEvent Event" and ?c = "Counter W + 1"
  let ?w = "w\<lparr>guards := ?g\<rparr>"
  let ?Q = "\<lambda>_. resume_ok wid W NULL ExecStatus ?w" and ?E = "\<lambda>e. resume_err wid W NULL e ?w"
  have leave: "resume_ok wid W NULL ExecStatus ?w w' \<Longrightarrow> resume_ok wid W Event ExecStatus w (leave v (guards w) w')"
    "resume_err wid W NULL e ?w w' \<Longrightarrow> resume_err wid W Event e w (leave v (guards w) w')" for e w'
    unfolding resume_ok_def resume_err_def
    using scope_resumed [where w = w and ev = Event and v = v]
      scope_settled [where w = w and ev = Event and v = v]
      scope_ran [where w = w and ev = Event and v = v] scope_settles [where w = w and ev = Event and v = v]
    by (blast, metis)
  have r0: "ran wid NULL ?w W [] (W\<lparr>Counter := ?c\<rparr>)
      (?w\<lparr>works := (works ?w)(wid := map_option (\<lambda>W. W\<lparr>Counter := Counter W + 1\<rparr>) (works ?w wid))\<rparr>)"
    using W by (simp add: ran_def stepped_def work_refs_def)
  show ?thesis
    unfolding ResumeBody_def
  proof (rule wp_scoped, rule wp_weaken [where Q' = ?Q and E' = ?E],
      intro wp_andThen wp_own_obj wp_the_work wp_deref wp_set_work, goal_cases)
    case (4 Wa ki prof)
    have u: "acts ([] :: trace) = []" by simp
    show ?case
    proof (rule ran_CheckPrevWork [of wid NULL ?w W "[]" "W\<lparr>Counter := ?c\<rparr>"], goal_cases)
      case 1
      then show ?case using r0 by simp
    next
      case (2 u1 w1)
      show ?case
      proof (rule wp_andThen, rule ran_CheckPrevWork [OF 2(1)], goal_cases)
        case (1 u2 w2)
        have r2: "ran wid NULL ?w W u2 (W\<lparr>Counter := ?c, PrevWork := (NULL, NULL)\<rparr>) w2"
          using 1(1) clear_both [of "PrevWork W"] by simp
        have err: "resume_err wid W NULL e ?w w3"
          if "e \<noteq> CL_SUCCESS" "ran wid NULL ?w W u3 (W\<lparr>Counter := ?c, PrevWork := (NULL, NULL)\<rparr>) w3"
            "acts u3 = acts u2" for e u3 w3
          using that 1(2) 2(2) by (intro resume_errI) (auto intro!: settles_acts)
        show ?case
        proof (rule wp_andThen, rule wp_OCL_ASSERT, goal_cases)
          case E: 1
          show ?case
          proof (rule wp_andThen, rule ran_LogEventProfInfo [OF r2], goal_cases)
            case (1 u3 w3)
            then show ?case
              using 2(2) \<open>acts u2 = acts u1\<close> by (intro wp_resume_tail [OF 1(1) ok _ E sound ptr' hdr]) simp
          qed (rule err)
        qed (use err r2 in blast)
      next
        case 3: (2 e u' w')
        then show ?case using 2(2) by (intro resume_errI) (auto intro!: settles_acts)
      qed
    qed (auto intro!: resume_errI settles_acts)
  qed (use leave W ptr in auto)
qed

lemma wp_ResumeOrFinish:
  assumes W: "works w wid = Some W" and ok: "launch_ok W"
    and sound: "Z \<or> sound_vendor v"
    and ptr: "Z \<or> (\<exists>ki p. deref_kinfo w (KInfo W) = Some ki \<and> deref_profile w (Profile ki) = Some p)"
    and hdr: "Z \<or> header_ok (WorkGrpSize W) (header_of W)"
  shows "wp Z (ResumeOrFinish v Event ExecStatus wid)
     (\<lambda>_ w'. resume_ok wid W Event ExecStatus w w' \<or>
        (\<exists>u e. e \<noteq> CL_SUCCESS \<and> settled wid W Event e w u w')) (\<lambda>_ _. False) w"
  unfolding ResumeOrFinish_def
proof (rule wp_catch, rule wp_weaken [OF wp_ResumeBody [OF assms]], goal_cases)
  case (2 e w')
  then obtain u W1 where "e \<noteq> CL_SUCCESS" "ran wid Event w W u W1 w'" "same_launch W W1" "settles u = []"
    by (auto simp: resume_err_def)
  then show ?case using sound ptr by (intro ran_SettleFinal) auto
qed simp

section \<open>Running a launch to its end\<close>

text \<open>
  A vendor none of whose calls fails, and programs that never throw with it.
\<close>

definition fair_vendor :: "vendor \<Rightarrow> bool" where
  "fair_vendor v \<longleftrightarrow> (\<forall>t a. ret (v t a) = CL_SUCCESS) \<and> (\<forall>t e. num (v t (GetEventStatus e)) = 0)"

definition never_throws :: "('w, 'a) prog \<Rightarrow> bool" where
  "never_throws m \<longleftrightarrow> (\<forall>w e w'. m w \<noteq> (Throw e, w'))"

named_theorems nt \<open>programs that do not throw\<close>

lemma nt_basic [nt]:
  "never_throws (return x)" "never_throws abort" "never_throws crash" "never_throws (get f0)"
  "never_throws (modify f)" "never_throws (call v a)" "never_throws (INTER_ASSERT b)"
  "never_throws (own a)" "never_throws (disown a)" "never_throws (own_obj R h)"
  "never_throws (disown_obj R h)" "never_throws (own_outer R h)" "never_throws (deref g)"
  "never_throws (the_work wid)" "never_throws (set_work wid k)" "never_throws (release_all v as)"
  by (auto simp: never_throws_def prog_basic crash_def call_def own_outer_def deref_def Let_def
      the_work_def set_work_def release_all_def split: option.splits)

lemma nt_andThen [nt]: "never_throws m \<Longrightarrow> (\<And>x. never_throws (f x)) \<Longrightarrow> never_throws (andThen m f)"
  by (auto simp: never_throws_def andThen_def split: prod.splits outcome.splits)

lemma nt_scoped [nt]: "never_throws m \<Longrightarrow> never_throws (scoped v m)"
  by (auto simp: never_throws_def scoped_def split: prod.splits outcome.splits)

lemma nt_if [nt]:
  "(b \<Longrightarrow> never_throws m) \<Longrightarrow> (\<not> b \<Longrightarrow> never_throws n) \<Longrightarrow> never_throws (if b then m else n)"
  by simp

lemma nt_assert [nt]: "e = CL_SUCCESS \<Longrightarrow> never_throws (OCL_ASSERT e)"
  by (simp add: OCL_ASSERT_def nt_basic)

lemma nt_call_ok [nt]: "fair_vendor v \<Longrightarrow> never_throws (call_ok v a)"
  by (auto simp: never_throws_def call_ok_def andThen_def call_def OCL_ASSERT_def return_def
      throw_def fair_vendor_def Let_def)

lemma nt_status:
  "fair_vendor v \<Longrightarrow> (\<And>r. num r = 0 \<Longrightarrow> never_throws (f r)) \<Longrightarrow>
     never_throws (andThen (call_ok v (GetEventStatus e)) f)"
  by (auto simp: never_throws_def call_ok_def andThen_def call_def OCL_ASSERT_def return_def
      throw_def fair_vendor_def Let_def split: prod.splits outcome.splits)

lemma nt_Schedule [nt]: "never_throws (Schedule v K)"
  unfolding Schedule_def by (intro nt)

lemma nt_MetaEnqueue [nt]: "fair_vendor v \<Longrightarrow> never_throws (MetaEnqueue v wid ws)"
  unfolding MetaEnqueue_def by (intro nt)

lemma nt_LogEventProfInfo [nt]: "fair_vendor v \<Longrightarrow> never_throws (LogEventProfInfo v e)"
  unfolding LogEventProfInfo_def getExecTime_def by (intro nt)

lemma nt_CheckPrevWork [nt]: "fair_vendor v \<Longrightarrow> never_throws (CheckPrevWork v wid i)"
  unfolding CheckPrevWork_def Let_def
  by (rule nt_andThen, rule nt, rule nt_if, rule nt, rule nt_status) (auto intro!: nt)

lemma nt_WriteHeader [nt]: "fair_vendor v \<Longrightarrow> never_throws (WriteHeader v wid)"
  unfolding WriteHeader_def by (intro nt)

lemma nt_InspectHeader [nt]: "never_throws (InspectHeader wid)"
  unfolding InspectHeader_def
  apply (rule nt_andThen)
   apply (rule nt)
  apply (rule nt_andThen)
   apply (rule nt)
  apply (auto intro!: nt simp: UpdateHeader_no_throw split: option.splits outcome.splits prod.splits)
  done

lemma nt_SettleFinal [nt]: "never_throws (SettleFinal v wid s)"
  unfolding SettleFinal_def CallbackCleanup_def by (intro nt)

lemma nt_ResumeBody: "fair_vendor v \<Longrightarrow> never_throws (ResumeBody v Event CL_SUCCESS wid)"
  unfolding ResumeBody_def by (intro nt) simp_all

lemma fair_sound: "fair_vendor v \<Longrightarrow> sound_vendor v"
  by (simp add: fair_vendor_def sound_vendor_def)

text \<open>One callback when no call fails.\<close>

lemma ResumeOrFinish_fair:
  assumes "works w wid = Some W" and "launch_ok W" and fair: "fair_vendor v"
    and "deref_kinfo w (KInfo W) = Some ki" and "deref_profile w (Profile ki) = Some p"
    and "header_ok (WorkGrpSize W) (header_of W)"
  shows "\<exists>w'. ResumeOrFinish v Event CL_SUCCESS wid w = (Ok (), w') \<and>
     resume_ok wid W Event CL_SUCCESS w w'"
proof -
  obtain x w' where run: "ResumeBody v Event CL_SUCCESS wid w = (x, w')" by fastforce
  have "wp False (ResumeBody v Event CL_SUCCESS wid)
      (\<lambda>_. resume_ok wid W Event CL_SUCCESS w) (\<lambda>e. resume_err wid W Event e w) w"
    by (rule wp_ResumeBody) (use assms fair_sound in auto)
  moreover have "x \<noteq> Throw e" for e
    using nt_ResumeBody [OF fair, of Event wid] run by (auto simp: never_throws_def)
  ultimately have "x = Ok () \<and> resume_ok wid W Event CL_SUCCESS w w'"
    using run by (cases x) (auto simp: wp_def)
  then show ?thesis using run by (simp add: ResumeOrFinish_def catch_def)
qed

text \<open>
  The rounds of a launch: the device runs the kernel on the header it has (\<open>dev\<close>), the
  read-back arrives, the callback is called; \<open>None\<close> if the launch is not over after \<open>k\<close>
  rounds. The event passed is the one the callback was last registered on.
\<close>

fun read_event :: "nat \<Rightarrow> trace \<Rightarrow> handle" where
  "read_event wid [] = NULL"
| "read_event wid ((a, r) # t) =
     (case a of SetResumeCallback e n \<Rightarrow> if n = wid \<and> read_event wid t = NULL then e else read_event wid t
      | _ \<Rightarrow> read_event wid t)"

fun drive :: "vendor \<Rightarrow> (cl_int list \<Rightarrow> cl_int list) \<Rightarrow> nat \<Rightarrow> nat \<Rightarrow> runtime \<Rightarrow> runtime option" where
  "drive v dev wid 0 w = (if works w wid = None then Some w else None)"
| "drive v dev wid (Suc k) w =
     (case works w wid of
        None \<Rightarrow> Some w
      | Some W \<Rightarrow>
          (case andThen (receive wid (dev (header_of W)))
                  (\<lambda>_. ResumeOrFinish v (read_event wid (calls w)) CL_SUCCESS wid) w of
             (Ok _, w') \<Rightarrow> drive v dev wid k w'
           | _ \<Rightarrow> None))"

lemma drive_done [simp]: "works w wid = None \<Longrightarrow> drive v dev wid k w = Some w"
  by (cases k) auto

lemma drive_mono: "drive v dev wid k w = Some w' \<Longrightarrow> k \<le> k' \<Longrightarrow> drive v dev wid k' w = Some w'"
proof (induction k arbitrary: w k')
  case (Suc k)
  then obtain j where "k' = Suc j" "k \<le> j" by (cases k') auto
  with Suc show ?case by (auto split: option.splits prod.splits outcome.splits)
qed (auto split: if_splits)

lemma drive_settles:
  fixes \<mu> :: "cl_int list \<Rightarrow> nat"
  assumes fair: "fair_vendor v"
    and good: "\<And>h. good h \<Longrightarrow> header_ok n h \<and> - (2 ^ 31) \<notin> set h"
    and step: "\<And>h h'. good h \<Longrightarrow> \<exists>x \<in> set h. x \<noteq> 0 \<Longrightarrow> h' = concat (map release (chunks n h)) \<Longrightarrow>
      \<forall>g \<in> set (chunks n h'). \<not> all_waiting g \<Longrightarrow> good (dev h') \<and> \<mu> (dev h') < \<mu> h"
    and "works w wid = Some W" and "launch_ok W" and "WorkGrpSize W = n"
    and "deref_kinfo w (KInfo W) = Some ki" and "deref_profile w (Profile ki) = Some p"
    and "good (dev (header_of W))"
  shows "\<exists>w' u. drive v dev wid (Suc (\<mu> (dev (header_of W)))) w = Some w' \<and> works w' wid = None \<and>
     calls w' = calls w @ u \<and> settles u = [SetUserEventStatus (Final W) CL_SUCCESS]"
  using assms(4-)
proof (induction "\<mu> (dev (header_of W))" arbitrary: w W rule: less_induct)
  case less
  note W = less.prems(1) and ok = less.prems(2) and n = less.prems(3) and inv0 = less.prems(6)
  define W1 where "W1 = W\<lparr>HostMetadata := take (HeaderOffset W) (HostMetadata W) @ dev (header_of W)\<rparr>"
  define w1 where "w1 = w\<lparr>works := (works w)(wid \<mapsto> W1)\<rparr>"
  have h1: "header_of W1 = dev (header_of W)" "launch_ok W1" "WorkGrpSize W1 = n" "Final W1 = Final W"
      "KInfo W1 = KInfo W"
    using ok n by (simp_all add: W1_def header_of_def launch_ok_def)
  have gs: "groups W1 = chunks n (dev (header_of W))" using h1 by (simp add: groups_def)
  have ptr: "deref_kinfo w1 (KInfo W1) = Some ki" "deref_profile w1 (Profile ki) = Some p"
    using less.prems by (simp_all add: w1_def h1 deref_kinfo_def deref_profile_def)
  obtain w2 where run: "ResumeOrFinish v (read_event wid (calls w)) CL_SUCCESS wid w1 = (Ok (), w2)"
    and res: "resume_ok wid W1 (read_event wid (calls w)) CL_SUCCESS w1 w2"
    using ResumeOrFinish_fair [of w1 wid W1 v ki p "read_event wid (calls w)"] h1 ptr fair good [OF inv0]
    by (auto simp: w1_def)
  have d: "drive v dev wid (Suc k) w = drive v dev wid k w2" for k
    using W run by (simp add: receive_def set_work_def w1_def W1_def)
  from res obtain u where "resumed wid W1 (read_event wid (calls w)) w1 u w2 \<or>
      settled wid W1 (read_event wid (calls w)) CL_SUCCESS w1 u w2"
    by (auto simp: resume_ok_def)
  then show ?case
  proof
    assume "settled wid W1 (read_event wid (calls w)) CL_SUCCESS w1 u w2"
    then have "works w2 wid = None" "calls w2 = calls w @ u"
        "settles u = [SetUserEventStatus (Final W) CL_SUCCESS]"
      by (simp_all add: settled_def w1_def h1)
    then show ?thesis unfolding d by auto
  next
    assume "resumed wid W1 (read_event wid (calls w)) w1 u w2"
    then obtain B q where r: "verdict (groups W1) \<noteq> 0" "settles u = []"
        "stepped w1 u ((works w1)(wid \<mapsto> next_launch W1 B q)) w2"
      unfolding resumed_def by blast
    define W2 where "W2 = next_launch W1 B q"
    have h2: "launch_ok W2" "WorkGrpSize W2 = n" "Final W2 = Final W" "KInfo W2 = KInfo W"
        "header_of W2 = concat (map release (chunks n (dev (header_of W))))"
      using h1 length_concat_release [of n "dev (header_of W)"] next_launch_header(2) [OF h1(2), of B q]
      by (simp_all add: W2_def next_launch_def launch_ok_def header_of_def gs new_header_def)
    have w2: "works w2 wid = Some W2" "calls w2 = calls w @ u" "KT w2 = KT w" "PT w2 = PT w"
      using r(3) by (simp_all add: stepped_def w1_def W2_def)
    have n0: "0 < n" using ok n by (simp add: launch_ok_def)
    have "\<exists>x \<in> set (dev (header_of W)). x \<noteq> 0"
      using r(1) verdict_zero [OF n0] by (simp add: gs)
    moreover have "\<forall>g \<in> set (chunks n (header_of W2)). \<not> all_waiting g"
    proof -
      have ch: "chunks n (header_of W2) = map release (chunks n (dev (header_of W)))"
        unfolding h2 using good [OF inv0] n0 by (intro chunks_concat_map) (auto simp: header_ok_def)
      have "\<not> all_waiting (release g)" if "g \<in> set (chunks n (dev (header_of W)))" for g
        using that good [OF inv0] set_chunks [OF n0, of "dev (header_of W)"]
        by (intro release_not_waiting) (auto simp: header_ok_def)
      then show ?thesis by (simp add: ch)
    qed
    ultimately have i2: "good (dev (header_of W2))" "\<mu> (dev (header_of W2)) < \<mu> (dev (header_of W))"
      using step [OF inv0, of "header_of W2"] h2(5) by auto
    have "deref_kinfo w2 (KInfo W2) = Some ki" "deref_profile w2 (Profile ki) = Some p"
      using less.prems by (simp_all add: h2 w2 deref_kinfo_def deref_profile_def)
    from less.hyps [OF i2(2) w2(1) h2(1,2) this i2(1)] obtain w' u' where
      "drive v dev wid (Suc (\<mu> (dev (header_of W2)))) w2 = Some w'" "works w' wid = None"
      "calls w' = calls w2 @ u'" "settles u' = [SetUserEventStatus (Final W) CL_SUCCESS]"
      unfolding h2 by blast
    moreover from this(1) have "drive v dev wid (\<mu> (dev (header_of W))) w2 = Some w'"
      by (rule drive_mono) (use i2(2) in simp)
    ultimately show ?thesis
      unfolding d using w2(2) r(2) by (intro exI [of _ w'] exI [of _ "u @ u'"]) simp
  qed
qed

section \<open>Properties\<close>

text \<open>
  A launch for the witnesses: two work-items in one group, launched from the kernel 3 of the
  program 2.
\<close>

definition demo_launch :: CallbackData where
  "demo_launch = \<lparr>cb_Queue = 5, cb_Kernel = 6, KInfo = (3, 1), WorkDim = 1, GWO = [0], GWS = [2],
     LWS = [2], WorkGrpSize = 2, DeviceHeader = 7, LocalBuffer = 0, PrivateBuffer = 8,
     HostMetadata = [1, 1], HeaderOffset = 0, PrevWork = (9, 10), Final = 11, Counter = 0,
     cb_Bucket = []\<rparr>"

definition demo_kernel :: KernelInfo where
  "demo_kernel = \<lparr>k_Context = 1, k_Program = 2, Profile = \<lparr>pp_program = 2, pp_serial = 0, pp_index = 0\<rparr>,
     Args = [], Pool = [], RefCount = 1, k_serial = 1\<rparr>"

definition demo_program :: ProgramInfo where
  "demo_program = \<lparr>p_Context = 1, ShadowProgram = 4, BuildLog = [], KernelProfileList =
     [\<lparr>Name = ''k'', NumOfParam = 0, ReqPrvSize = 4, ReqLocSize = 0, LocPtrParamIdx = []\<rparr>], p_serial = 0\<rparr>"

definition demo :: runtime where
  "demo = \<lparr>calls = [], guards = [], LogLevel = 0, prio = LOW, CRThreshold = 1000, QT = Map.empty,
     PT = [2 \<mapsto> demo_program], KT = [3 \<mapsto> demo_kernel], works = [0 \<mapsto> demo_launch], serial = 2,
     map_ptr = 0\<rparr>"

lemma demo_facts:
  "works demo 0 = Some demo_launch" "launch_ok demo_launch" "WorkGrpSize demo_launch = 2"
  "deref_kinfo demo (KInfo demo_launch) = Some demo_kernel"
  "deref_profile demo (Profile demo_kernel) = Some (hd (KernelProfileList demo_program))"
  "header_of demo_launch = [1, 1]" "fair_vendor ok_vendor" "sound_vendor ok_vendor"
  "header_ok 2 [1, 1]"
  by (simp_all add: demo_def demo_launch_def demo_kernel_def demo_program_def launch_ok_def
      deref_kinfo_def deref_profile_def header_of_def ok_vendor_def fair_vendor_def
      sound_vendor_def header_ok_def chunks.simps one_barrier_def)


text \<open>A device on which both work-items wait at barrier 5 once and then finish.\<close>

definition demo_dev :: "cl_int list \<Rightarrow> cl_int list" where
  "demo_dev h = (if h = [1, 1] then [- 5, - 5] else [0, 0])"


text \<open>
  C2. Whatever the vendor answers, a callback that returns leaves the launch in exactly one
  of two ways, and never throws. Either the next run is set up: a kernel run, the read-back
  of its header and a callback on it were enqueued, nothing was settled, and (\<open>resumed\<close>)
  every reference is accounted for; or the final event got one status, the kernel object is
  back in its pool and everything the launch owned was released (\<open>settled\<close>). The status is
  success only if the previous commands succeeded and every work-item has finished.
\<close>

theorem ResumeOrFinish_outcome:
  assumes "works w wid = Some W" and "launch_ok W"
    and "ResumeOrFinish v Event ExecStatus wid w = (x, w')" and "x \<noteq> Abort" and "x \<noteq> Crash"
  shows "x = Ok () \<and> (\<exists>u. resumed wid W Event w u w' \<or>
     (\<exists>s. settled wid W Event s w u w' \<and>
        (s = CL_SUCCESS \<longrightarrow> ExecStatus = CL_SUCCESS \<and> (\<forall>k \<in> set (header_of W). k = 0))))"
proof -
  have z: "verdict (groups W) = 0 \<longleftrightarrow> (\<forall>k \<in> set (header_of W). k = 0)"
    using verdict_zero assms(2) by (simp add: groups_def launch_ok_def)
  show ?thesis
    using wp_ResumeOrFinish [OF assms(1,2), of True v Event ExecStatus] assms(3-5)
    by (cases x) (auto simp: wp_def resume_ok_def z)
qed

lemma ResumeOrFinish_outcome_witness:
  "\<exists>x w' u. ResumeOrFinish ok_vendor 12 CL_SUCCESS 0 demo = (x, w') \<and> x = Ok () \<and>
     (resumed 0 demo_launch 12 demo u w' \<or> (\<exists>s. settled 0 demo_launch 12 s demo u w'))"
proof -
  obtain x w' where run: "ResumeOrFinish ok_vendor 12 CL_SUCCESS 0 demo = (x, w')" by fastforce
  have "x \<noteq> Abort \<and> x \<noteq> Crash"
    using wpD_total [OF wp_ResumeOrFinish [OF demo_facts(1,2), of False ok_vendor 12 CL_SUCCESS]]
      demo_facts run by auto
  then show ?thesis using ResumeOrFinish_outcome [OF demo_facts(1,2) run] run by blast
qed

text \<open>
  C23. The callback always returns, whatever other call fails, if the timers can be armed and
  user events settled, the launch's pointers are valid and the header is one \<open>UpdateHeader\<close>
  accepts.
\<close>

theorem ResumeOrFinish_returns:
  assumes "works w wid = Some W" and "launch_ok W" and "sound_vendor v"
    and "deref_kinfo w (KInfo W) = Some ki" and "deref_profile w (Profile ki) = Some p"
    and "header_ok (WorkGrpSize W) (header_of W)"
  shows "fst (ResumeOrFinish v Event ExecStatus wid w) = Ok ()"
  using wp_ResumeOrFinish [OF assms(1,2), of False v Event ExecStatus] assms(3-6)
  by (auto simp: wp_def split: prod.splits outcome.splits)

lemma ResumeOrFinish_returns_witness:
  "fst (ResumeOrFinish ok_vendor 12 (- 5) 0 demo) = Ok ()"
  by (rule ResumeOrFinish_returns [OF demo_facts(1,2,8,4,5)]) (simp add: demo_facts)

end
