(* ===== verification/Tables.thy ===== *)
theory Tables
  imports Launch
begin

text \<open>
  Model of the object-managing functions of \<open>runtime/Interface.cpp\<close>: contexts, command
  queues and their shadow queues, programs and their instrumented shadow programs, kernels
  with their argument lists and pools. A high priority process passes every call on to the
  vendor; the tables are used by low priority processes only.

  A function with an \<open>ErrorRet\<close> pointer returns the handle and what was written through the
  pointer, \<open>None\<close> if the pointer is null (\<open>want\<close> is false).
\<close>

section \<open>Contexts and queues\<close>

definition err_ret :: "bool \<Rightarrow> cl_int \<Rightarrow> cl_int option" where
  "err_ret want e = (if want then Some e else None)"

definition clCreateContext :: "vendor \<Rightarrow> bool \<Rightarrow> (handle \<times> cl_int option) rt" where
  "clCreateContext v want = scoped v
     (andThen (Schedule v COMPUTING) (\<lambda>_.
      andThen (call v CreateContext) (\<lambda>r.
      return (created r, err_ret want (ret r)))))"

definition CL_QUEUE_OUT_OF_ORDER_EXEC_MODE_ENABLE :: u64 where
  "CL_QUEUE_OUT_OF_ORDER_EXEC_MODE_ENABLE = 1"
definition CL_QUEUE_PROFILING_ENABLE :: u64 where
  "CL_QUEUE_PROFILING_ENABLE = 2"

definition shadow_properties :: u64 where
  "shadow_properties = CL_QUEUE_OUT_OF_ORDER_EXEC_MODE_ENABLE OR CL_QUEUE_PROFILING_ENABLE"

text \<open>\<open>emplace\<close> followed by the assertion that it inserted.\<close>

definition QT_emplace :: "handle \<Rightarrow> QueueInfo \<Rightarrow> unit rt" where
  "QT_emplace q info =
     andThen (get (\<lambda>w. QT w q)) (\<lambda>old.
     andThen (INTER_ASSERT (old = None)) (\<lambda>_.
     modify (\<lambda>w. w\<lparr>QT := (QT w)(q \<mapsto> info)\<rparr>)))"

definition clCreateCommandQueue ::
  "vendor \<Rightarrow> handle \<Rightarrow> handle \<Rightarrow> u64 \<Rightarrow> bool \<Rightarrow> (handle \<times> cl_int option) rt" where
  "clCreateCommandQueue v Context Device Properties want =
     andThen (get prio) (\<lambda>p.
       if p \<noteq> LOW
       then andThen (call v (CreateCommandQueue Context Device Properties)) (\<lambda>r.
              return (created r, err_ret want (ret r)))
       else catch (scoped v
         (andThen (call_ok v (CreateCommandQueue Context Device Properties)) (\<lambda>RawQueue.
          andThen (own_obj ReleaseCommandQueue (obj RawQueue)) (\<lambda>_.
          andThen (call v (CreateCommandQueue Context Device shadow_properties)) (\<lambda>Shadow.
          andThen (own_obj ReleaseCommandQueue (created Shadow)) (\<lambda>_.
          andThen (OCL_ASSERT (ret Shadow)) (\<lambda>_.
          andThen (QT_emplace (obj RawQueue)
            \<lparr>q_Context = Context, q_Device = Device, ShadowQueue = obj Shadow,
             ShallReorder = (Properties AND CL_QUEUE_OUT_OF_ORDER_EXEC_MODE_ENABLE = 0),
             TaskBlocker = NULL\<rparr>) (\<lambda>_.
          andThen (disown_obj ReleaseCommandQueue (obj Shadow)) (\<lambda>_.
          andThen (disown_obj ReleaseCommandQueue (obj RawQueue)) (\<lambda>_.
          return (obj RawQueue, err_ret want CL_SUCCESS)))))))))))
         (\<lambda>OclError. return (NULL, err_ret want OclError)))"

definition clReleaseCommandQueue :: "vendor \<Rightarrow> handle \<Rightarrow> cl_int rt" where
  "clReleaseCommandQueue v Queue =
     andThen (get prio) (\<lambda>p.
       if p \<noteq> LOW then andThen (call v (ReleaseCommandQueue Queue)) (\<lambda>r. return (ret r))
       else catch
         (andThen (get (\<lambda>w. QT w Queue)) (\<lambda>It.
            case It of
              None \<Rightarrow> return CL_INVALID_COMMAND_QUEUE
            | Some info \<Rightarrow>
                andThen (call_ok v (GetQueueRefCount Queue)) (\<lambda>r.
                andThen (if num r \<le> 1
                         then andThen (modify (\<lambda>w. w\<lparr>QT := (QT w)(Queue := None)\<rparr>)) (\<lambda>_.
                              release_all v (queue_refs info))
                         else return ()) (\<lambda>_.
                andThen (call v (ReleaseCommandQueue Queue)) (\<lambda>r. return (ret r))))))
         return)"

section \<open>Programs\<close>

definition CL_PROGRAM_BUILD_LOG :: nat where "CL_PROGRAM_BUILD_LOG = 0x1183"

text \<open>
  The results of a query: the status, what was written through \<open>ParamVal\<close> and through
  \<open>ParamValSizeRet\<close> (\<open>wantv\<close>, \<open>wants\<close>: the pointer is not null).
\<close>

definition vendor_build_info ::
  "vendor \<Rightarrow> handle \<Rightarrow> handle \<Rightarrow> nat \<Rightarrow> nat \<Rightarrow> bool \<Rightarrow> bool \<Rightarrow> (cl_int \<times> string option \<times> nat option) rt" where
  "vendor_build_info v Program Device ParamName ParamValSize wantv wants =
     andThen (call v (GetProgramBuildInfo Program Device ParamName ParamValSize)) (\<lambda>r.
     return (ret r, if wantv then Some (str r) else None, if wants then Some (num r) else None))"

definition clGetProgramBuildInfo ::
  "vendor \<Rightarrow> handle \<Rightarrow> handle \<Rightarrow> nat \<Rightarrow> nat \<Rightarrow> bool \<Rightarrow> bool \<Rightarrow> (cl_int \<times> string option \<times> nat option) rt" where
  "clGetProgramBuildInfo v Program Device ParamName ParamValSize wantv wants =
     andThen (get prio) (\<lambda>p.
       if p \<noteq> LOW then vendor_build_info v Program Device ParamName ParamValSize wantv wants
       else andThen (get (\<lambda>w. PT w Program)) (\<lambda>It.
         case It of
           None \<Rightarrow> vendor_build_info v Program Device ParamName ParamValSize wantv wants
         | Some info \<Rightarrow>
             if ShadowProgram info \<noteq> NULL
             then vendor_build_info v (ShadowProgram info) Device ParamName ParamValSize wantv wants
             else if ParamName = CL_PROGRAM_BUILD_LOG
             then return (CL_SUCCESS,
                    if wantv \<and> length (BuildLog info) < ParamValSize then Some (BuildLog info) else None,
                    if wants then Some (length (BuildLog info) + 1) else None)
             else vendor_build_info v Program Device ParamName ParamValSize wantv wants))"

text \<open>
  The instrumenting compiler (\<open>CLPKM::Compile\<close>): whether it succeeded, the new source or the
  build log, and the profiles of the kernels.
\<close>

type_synonym compiler = "string \<Rightarrow> string \<Rightarrow> bool \<times> string \<times> KernelProfile list"

definition PT_emplace :: "handle \<Rightarrow> handle \<Rightarrow> handle \<Rightarrow> string \<Rightarrow> KernelProfile list \<Rightarrow> unit rt" where
  "PT_emplace Program Context Shadow Log PL =
     andThen (get (\<lambda>w. PT w Program)) (\<lambda>old.
     andThen (INTER_ASSERT (old = None)) (\<lambda>_.
     andThen next_serial (\<lambda>n.
     modify (\<lambda>w. w\<lparr>PT := (PT w)(Program \<mapsto>
       \<lparr>p_Context = Context, ShadowProgram = Shadow, BuildLog = Log, KernelProfileList = PL,
        p_serial = n\<rparr>)\<rparr>))))"

text \<open>The string read into a buffer of \<open>n\<close> bytes, without the last byte.\<close>

definition read_source :: "nat \<Rightarrow> string \<Rightarrow> string" where
  "read_source n s = take (n - 1) (s @ replicate n (CHR 0x00))"

text \<open>In debug mode the vendor's build log is fetched; no outcome of this changes the result.\<close>

definition LogVendorBuild :: "vendor \<Rightarrow> handle \<Rightarrow> handle list option \<Rightarrow> unit rt" where
  "LogVendorBuild v Shadow DeviceList =
     andThen (get (\<lambda>w. shouldLog w LOG_DEBUG)) (\<lambda>debug.
       if \<not> debug then return ()
       else case DeviceList of
              None \<Rightarrow> return ()
            | Some ds \<Rightarrow>
                andThen (call v (GetProgramBuildInfo Shadow (hd ds) CL_PROGRAM_BUILD_LOG 0)) (\<lambda>r.
                  if ret r \<noteq> CL_SUCCESS then return ()
                  else andThen (call v (GetProgramBuildInfo Shadow (hd ds) CL_PROGRAM_BUILD_LOG (num r)))
                    (\<lambda>_. return ())))"

definition clBuildProgram ::
  "vendor \<Rightarrow> compiler \<Rightarrow> handle \<Rightarrow> handle list option \<Rightarrow> string \<Rightarrow> cl_int rt" where
  "clBuildProgram v Compile Program DeviceList Options =
     andThen (get prio) (\<lambda>p.
       if p \<noteq> LOW then andThen (call v (BuildProgram Program Options)) (\<lambda>r. return (ret r))
       else catch (scoped v
         (andThen (call_ok v (GetProgramSource Program)) (\<lambda>Length.
          andThen (INTER_ASSERT (num Length > 0)) (\<lambda>_.
          andThen (INTER_ASSERT (num Length \<noteq> 1)) (\<lambda>_.
          andThen (call_ok v (GetProgramSource Program)) (\<lambda>Text.
          andThen (call_ok v (GetProgramContext Program)) (\<lambda>Context.
            case Compile (read_source (num Length) (str Text)) Options of (success, Source, PL) \<Rightarrow>
            if \<not> success
            then andThen (PT_emplace Program (obj Context) NULL Source []) (\<lambda>_.
                 return CL_BUILD_PROGRAM_FAILURE)
            else
              andThen (call_ok v (CreateProgramWithSource (obj Context) Source)) (\<lambda>Shadow.
              andThen (own_obj ReleaseProgram (obj Shadow)) (\<lambda>_.
              andThen (PT_emplace Program (obj Context) (obj Shadow) [] PL) (\<lambda>_.
              andThen (disown_obj ReleaseProgram (obj Shadow)) (\<lambda>_.
              andThen (call v (BuildProgram (obj Shadow) Options)) (\<lambda>Ret.
              andThen (LogVendorBuild v (obj Shadow) DeviceList) (\<lambda>_.
              return (ret Ret))))))))))))))
         return)"

definition clReleaseProgram :: "vendor \<Rightarrow> handle \<Rightarrow> cl_int rt" where
  "clReleaseProgram v Program =
     andThen (get prio) (\<lambda>p.
       if p \<noteq> LOW then andThen (call v (ReleaseProgram Program)) (\<lambda>r. return (ret r))
       else catch
         (andThen (get (\<lambda>w. PT w Program)) (\<lambda>It.
            case It of
              None \<Rightarrow> andThen (call v (ReleaseProgram Program)) (\<lambda>r. return (ret r))
            | Some info \<Rightarrow>
                andThen (call_ok v (GetProgramRefCount Program)) (\<lambda>r.
                andThen (if num r \<le> 1
                         then andThen (modify (\<lambda>w. w\<lparr>PT := (PT w)(Program := None)\<rparr>)) (\<lambda>_.
                              release_all v (program_refs info))
                         else return ()) (\<lambda>_.
                andThen (call v (ReleaseProgram Program)) (\<lambda>r. return (ret r))))))
         return)"

end
