(* ===== verification/Kernels.thy ===== *)
theory Kernels
  imports Tables
begin

text \<open>
  Model of the kernel functions of \<open>runtime/Interface.cpp\<close>: \<open>clCreateKernel\<close>,
  \<open>clRetainKernel\<close>, \<open>clReleaseKernel\<close> and \<open>clSetKernelArg\<close> with its binary search for the
  dynamically sized local buffers.
\<close>

section \<open>Creation and reference counts\<close>

fun find_profile :: "string \<Rightarrow> KernelProfile list \<Rightarrow> nat option" where
  "find_profile n [] = None"
| "find_profile n (p # ps) = (if Name p = n then Some 0 else map_option Suc (find_profile n ps))"

definition new_kernel :: "handle \<Rightarrow> handle \<Rightarrow> profile_ptr \<Rightarrow> nat \<Rightarrow> nat \<Rightarrow> KernelInfo" where
  "new_kernel Context Program ptr params n =
     \<lparr>k_Context = Context, k_Program = Program, Profile = ptr, Args = replicate params (0, NULL),
      Pool = [], RefCount = 1, k_serial = n\<rparr>"

definition KT_emplace :: "handle \<Rightarrow> (nat \<Rightarrow> KernelInfo) \<Rightarrow> unit rt" where
  "KT_emplace K info =
     andThen (get (\<lambda>w. KT w K)) (\<lambda>old.
     andThen (INTER_ASSERT (old = None)) (\<lambda>_.
     andThen next_serial (\<lambda>n.
     modify (\<lambda>w. w\<lparr>KT := (KT w)(K \<mapsto> info n)\<rparr>))))"

definition clCreateKernel :: "vendor \<Rightarrow> handle \<Rightarrow> string \<Rightarrow> bool \<Rightarrow> (handle \<times> cl_int option) rt" where
  "clCreateKernel v Program kname want =
     andThen (get prio) (\<lambda>p.
       if p \<noteq> LOW
       then andThen (call v (CreateKernel Program kname)) (\<lambda>r. return (created r, err_ret want (ret r)))
       else andThen (get (\<lambda>w. PT w Program)) (\<lambda>It.
         case It of
           None \<Rightarrow> return (NULL, err_ret want CL_INVALID_PROGRAM)
         | Some info \<Rightarrow>
             if ShadowProgram info = NULL then return (NULL, err_ret want CL_INVALID_PROGRAM_EXECUTABLE)
             else case find_profile kname (KernelProfileList info) of
               None \<Rightarrow> return (NULL, err_ret want CL_INVALID_KERNEL_NAME)
             | Some Pos \<Rightarrow> scoped v
                 (andThen (call v (CreateKernel (ShadowProgram info) kname)) (\<lambda>r.
                    if created r = NULL then return (NULL, err_ret want (ret r))
                    else
                      andThen (own_obj ReleaseKernel (created r)) (\<lambda>_.
                      andThen (KT_emplace (created r) (new_kernel (p_Context info) (ShadowProgram info)
                         \<lparr>pp_program = Program, pp_serial = p_serial info, pp_index = Pos\<rparr>
                         (NumOfParam (KernelProfileList info ! Pos)))) (\<lambda>_.
                      andThen (disown_obj ReleaseKernel (created r)) (\<lambda>_.
                      return (created r, err_ret want (ret r)))))))))"

definition clRetainKernel :: "vendor \<Rightarrow> handle \<Rightarrow> cl_int rt" where
  "clRetainKernel v K =
     andThen (get prio) (\<lambda>p.
       if p \<noteq> LOW then andThen (call v (RetainKernel K)) (\<lambda>r. return (ret r))
       else andThen (get (\<lambda>w. KT w K)) (\<lambda>It.
         case It of
           None \<Rightarrow> return CL_INVALID_KERNEL
         | Some KI \<Rightarrow>
             andThen (modify (\<lambda>w. w\<lparr>KT := (KT w)(K \<mapsto> KI\<lparr>RefCount := RefCount KI + 1\<rparr>)\<rparr>)) (\<lambda>_.
             return CL_SUCCESS)))"

definition clReleaseKernel :: "vendor \<Rightarrow> handle \<Rightarrow> cl_int rt" where
  "clReleaseKernel v K =
     andThen (get prio) (\<lambda>p.
       if p \<noteq> LOW then andThen (call v (ReleaseKernel K)) (\<lambda>r. return (ret r))
       else andThen (get (\<lambda>w. KT w K)) (\<lambda>It.
         case It of
           None \<Rightarrow> return CL_INVALID_KERNEL
         | Some KI \<Rightarrow>
             if RefCount KI - 1 > 0
             then andThen (modify (\<lambda>w. w\<lparr>KT := (KT w)(K \<mapsto> KI\<lparr>RefCount := RefCount KI - 1\<rparr>)\<rparr>)) (\<lambda>_.
                  return CL_SUCCESS)
             else
               andThen (modify (\<lambda>w. w\<lparr>KT := (KT w)(K := None)\<rparr>)) (\<lambda>_.
               andThen (release_all v (kernel_refs KI)) (\<lambda>_.
               andThen (call v (ReleaseKernel K)) (\<lambda>r. return (ret r))))))"

section \<open>Kernel arguments\<close>

text \<open>\<open>std::lower_bound\<close> on the range that starts at \<open>first\<close> and has \<open>len\<close> elements.\<close>

function lower_bound :: "nat list \<Rightarrow> nat \<Rightarrow> nat \<Rightarrow> nat \<Rightarrow> nat" where
  "lower_bound xs val first len =
     (if len = 0 then first
      else
        let half = len div 2; middle = first + half
        in if xs ! middle < val then lower_bound xs val (middle + 1) (len - half - 1)
           else lower_bound xs val first half)"
  by pat_completeness auto
termination by (relation "measure (\<lambda>(xs, val, first, len). len)") auto

declare lower_bound.simps [simp del]

definition is_dynamic_local :: "nat list \<Rightarrow> nat \<Rightarrow> bool" where
  "is_dynamic_local DynLocParams ArgIndex =
     (let It = lower_bound DynLocParams ArgIndex 0 (length DynLocParams)
      in It \<noteq> length DynLocParams \<and> DynLocParams ! It = ArgIndex)"

definition pad4 :: "u64 \<Rightarrow> u64" where
  "pad4 ArgSize = (ArgSize + 3) AND NOT 3"

definition record_arg :: "handle \<Rightarrow> nat \<Rightarrow> karg \<Rightarrow> unit rt" where
  "record_arg K ArgIndex a =
     modify (\<lambda>w. w\<lparr>KT := (KT w)(K := map_option (\<lambda>KI. KI\<lparr>Args := (Args KI)[ArgIndex := a]\<rparr>) (KT w K))\<rparr>)"

text \<open>Set the argument on the key kernel and, if that succeeded, remember it.\<close>

definition set_and_record :: "vendor \<Rightarrow> handle \<Rightarrow> nat \<Rightarrow> u64 \<Rightarrow> handle \<Rightarrow> cl_int rt" where
  "set_and_record v K ArgIndex ArgSize ArgValue =
     andThen (call v (SetKernelArg K ArgIndex ArgSize ArgValue)) (\<lambda>r.
     andThen (if ret r = CL_SUCCESS then record_arg K ArgIndex (ArgSize, ArgValue) else return ()) (\<lambda>_.
     return (ret r)))"

definition clSetKernelArg :: "vendor \<Rightarrow> handle \<Rightarrow> nat \<Rightarrow> u64 \<Rightarrow> handle \<Rightarrow> cl_int rt" where
  "clSetKernelArg v K ArgIndex ArgSize ArgValue =
     andThen (get prio) (\<lambda>p.
       if p \<noteq> LOW
       then andThen (call v (SetKernelArg K ArgIndex ArgSize ArgValue)) (\<lambda>r. return (ret r))
       else andThen (get (\<lambda>w. KT w K)) (\<lambda>KTEntry.
         case KTEntry of
           None \<Rightarrow> return CL_INVALID_KERNEL
         | Some KI \<Rightarrow>
             if length (Args KI) \<le> ArgIndex then return CL_INVALID_ARG_INDEX
             else andThen (deref (\<lambda>w. deref_profile w (Profile KI))) (\<lambda>prof.
               if is_dynamic_local (LocPtrParamIdx prof) ArgIndex
               then if ArgValue \<noteq> NULL then return CL_INVALID_ARG_VALUE
                    else andThen (INTER_ASSERT (ucast (ucast (pad4 ArgSize) :: u32) = pad4 ArgSize)) (\<lambda>_.
                         set_and_record v K ArgIndex (pad4 ArgSize) ArgValue)
               else if ArgValue = NULL then return CL_INVALID_ARG_VALUE
               else set_and_record v K ArgIndex ArgSize ArgValue)))"

section \<open>The binary search\<close>

lemma lower_bound_0 [simp]: "lower_bound xs val first 0 = first"
  by (simp add: lower_bound.simps)

lemma lower_bound_step:
  "len \<noteq> 0 \<Longrightarrow> lower_bound xs val first len =
     (if xs ! (first + len div 2) < val then lower_bound xs val (first + len div 2 + 1) (len - len div 2 - 1)
      else lower_bound xs val first (len div 2))"
  by (subst lower_bound.simps) (simp add: Let_def)

lemma lower_bound_range: "first \<le> lower_bound xs val first len \<and> lower_bound xs val first len \<le> first + len"
proof (induction len arbitrary: first rule: less_induct)
  case (less len)
  show ?case
  proof (cases "len = 0")
    case False
    have "len - len div 2 - 1 < len" "len div 2 < len" "first + len div 2 + 1 + (len - len div 2 - 1) = first + len"
      using False by auto
    then show ?thesis
      using less.IH [of "len - len div 2 - 1" "first + len div 2 + 1"] less.IH [of "len div 2" first]
      unfolding lower_bound_step [OF False] by (auto split: if_split)
  qed simp
qed

lemma lower_bound_sorted:
  assumes sorted: "sorted xs" and "first + len \<le> length xs"
    and "\<forall>i < first. xs ! i < val" and "\<forall>i. first + len \<le> i \<longrightarrow> i < length xs \<longrightarrow> val \<le> xs ! i"
  shows "(\<forall>i < lower_bound xs val first len. xs ! i < val) \<and>
     (\<forall>i. lower_bound xs val first len \<le> i \<longrightarrow> i < length xs \<longrightarrow> val \<le> xs ! i)"
  using assms(2-)
proof (induction len arbitrary: first rule: less_induct)
  case (less len)
  show ?case
  proof (cases "len = 0")
    case True
    then show ?thesis using less.prems by simp
  next
    case False
    define mid where "mid = first + len div 2"
    have mid: "mid < length xs" "len div 2 < len" "len - len div 2 - 1 < len"
        "mid + 1 + (len - len div 2 - 1) = first + len"
      using False less.prems(1) by (auto simp: mid_def)
    show ?thesis
    proof (cases "xs ! mid < val")
      case True
      have lo: "\<forall>i < mid + 1. xs ! i < val"
      proof (intro allI impI)
        fix i assume "i < mid + 1"
        then have "xs ! i \<le> xs ! mid" by (intro sorted_nth_mono [OF sorted _ mid(1)]) simp
        then show "xs ! i < val" using True by simp
      qed
      have eq: "lower_bound xs val first len = lower_bound xs val (mid + 1) (len - len div 2 - 1)"
        unfolding lower_bound_step [OF False] mid_def [symmetric] using True by (simp only: if_True)
      show ?thesis
        unfolding eq by (rule less.IH [OF mid(3) _ lo]) (use less.prems in \<open>simp_all only: mid(4)\<close>)
    next
      case F: False
      have hi: "\<forall>i. first + len div 2 \<le> i \<longrightarrow> i < length xs \<longrightarrow> val \<le> xs ! i"
        using F sorted_nth_mono [OF sorted] unfolding mid_def by (meson leI le_trans)
      have eq: "lower_bound xs val first len = lower_bound xs val first (len div 2)"
        unfolding lower_bound_step [OF False] mid_def [symmetric] using F by (simp only: if_False)
      show ?thesis
        unfolding eq by (rule less.IH [OF mid(2) _ less.prems(2) hi]) (use mid(1) in \<open>simp add: mid_def\<close>)
    qed
  qed
qed

text \<open>On a sorted list the search finds exactly its members.\<close>

lemma is_dynamic_local_iff:
  assumes "sorted xs"
  shows "is_dynamic_local xs i \<longleftrightarrow> i \<in> set xs"
proof -
  let ?It = "lower_bound xs i 0 (length xs)"
  have lo: "\<And>j. j < ?It \<Longrightarrow> xs ! j < i" and hi: "\<And>j. ?It \<le> j \<Longrightarrow> j < length xs \<Longrightarrow> i \<le> xs ! j"
    using lower_bound_sorted [of xs 0 "length xs" i] assms by auto
  have le: "?It \<le> length xs" using lower_bound_range [of 0 xs i "length xs"] by simp
  show ?thesis
  proof
    assume "i \<in> set xs"
    then obtain j where j: "j < length xs" "xs ! j = i" by (auto simp: in_set_conv_nth)
    then have ge: "?It \<le> j" using lo [of j] by force
    then have "xs ! ?It \<le> i" using j assms sorted_nth_mono by blast
    moreover have "i \<le> xs ! ?It" using hi [of ?It] ge j(1) by simp
    ultimately show "is_dynamic_local xs i" using ge j(1) by (simp add: is_dynamic_local_def Let_def)
  next
    assume "is_dynamic_local xs i"
    then have "?It < length xs" "xs ! ?It = i" using le by (auto simp: is_dynamic_local_def Let_def)
    then show "i \<in> set xs" by (metis nth_mem)
  qed
qed

lemma find_profile_Some:
  "find_profile n ps = Some i \<Longrightarrow> i < length ps \<and> Name (ps ! i) = n \<and> (\<forall>j < i. Name (ps ! j) \<noteq> n)"
proof (induction ps arbitrary: i)
  case (Cons p ps)
  show ?case
  proof (cases "Name p = n")
    case False
    with Cons.prems obtain k where k: "find_profile n ps = Some k" "i = Suc k" by auto
    then show ?thesis using Cons.IH [OF k(1)] False by (auto simp: nth_Cons split: nat.split)
  qed (use Cons.prems in auto)
qed simp

lemma find_profile_None: "find_profile n ps = None \<longleftrightarrow> n \<notin> Name ` set ps"
  by (induction ps) auto

end
