(* ===== verification/Accounts.thy ===== *)
theory Accounts
  imports Kernels
begin

text \<open>
  What the object-managing functions do to the references and to the tables, as rules of the
  program logic: \<open>ledger w w' d\<close> says that a call that led from \<open>w\<close> to \<open>w'\<close> handed the
  references \<open>d\<close> to the application (negative: took them back) and filed or released
  every other one.
\<close>

definition ledger :: "runtime \<Rightarrow> runtime \<Rightarrow> (api \<Rightarrow> int) \<Rightarrow> bool" where
  "ledger w w' d \<longleftrightarrow> guards w' = guards w \<and> prio w' = prio w \<and> works w' = works w \<and> serial w \<le> serial w' \<and>
     (\<exists>u. calls w' = calls w @ u) \<and>
     (finite_tables w \<longrightarrow> finite_tables w' \<and> (\<forall>b. surplus w' b = surplus w b + d b))"

lemma ledger_trans: "ledger w w1 d \<Longrightarrow> ledger w1 w2 e \<Longrightarrow> ledger w w2 (\<lambda>b. d b + e b)"
  by (auto simp: ledger_def)

lemmas ledger_defs = ledger_def surplus_def held_def leave_def finite_tables_def gains
  queue_refs_def program_refs_def created_def

abbreviation none :: "api \<Rightarrow> int" where
  "none \<equiv> \<lambda>_. 0"

abbreviation obj_ref :: "(handle \<Rightarrow> api) \<Rightarrow> handle \<Rightarrow> api \<Rightarrow> int" where
  "obj_ref Release h \<equiv> pending (guard_of Release h)"

lemma pending_Nil_eq [simp]: "pending [] = none"
  by (simp add: fun_eq_iff)

lemma wp_QT_emplace [vc]:
  "(QT w q = None \<Longrightarrow> Q () (w\<lparr>QT := (QT w)(q \<mapsto> info)\<rparr>)) \<Longrightarrow> (QT w q \<noteq> None \<Longrightarrow> Z) \<Longrightarrow>
     wp Z (QT_emplace q info) Q E w"
  unfolding QT_emplace_def by (intro vc) auto

lemma wp_PT_emplace [vc]:
  "(PT w P = None \<Longrightarrow> Q () (w\<lparr>serial := Suc (serial w), PT := (PT w)(P \<mapsto>
      \<lparr>p_Context = C, ShadowProgram = S, BuildLog = L, KernelProfileList = PL, p_serial = serial w\<rparr>)\<rparr>)) \<Longrightarrow>
     (PT w P \<noteq> None \<Longrightarrow> Z) \<Longrightarrow> wp Z (PT_emplace P C S L PL) Q E w"
  unfolding PT_emplace_def by (intro vc) auto

lemma wp_KT_emplace [vc]:
  "(KT w K = None \<Longrightarrow> Q () (w\<lparr>serial := Suc (serial w), KT := (KT w)(K \<mapsto> info (serial w))\<rparr>)) \<Longrightarrow>
     (KT w K \<noteq> None \<Longrightarrow> Z) \<Longrightarrow> wp Z (KT_emplace K info) Q E w"
  unfolding KT_emplace_def by (intro vc) auto

section \<open>Queues\<close>

lemma ledger_clCreateCommandQueue:
  assumes "prio w = LOW"
  shows "wp True (clCreateCommandQueue v C D Properties want)
     (\<lambda>x w'. ledger w w' (obj_ref ReleaseCommandQueue (fst x))) (\<lambda>_ _. False) w"
  unfolding clCreateCommandQueue_def
  apply (intro vc)
  using assms
  apply (auto simp: ledger_defs)
  done

text \<open>
  A release takes the application's reference back if it gets as far as the vendor's
  release call, and nothing otherwise.
\<close>

definition took_back :: "runtime \<Rightarrow> runtime \<Rightarrow> api \<Rightarrow> bool" where
  "took_back w w' a \<longleftrightarrow> ledger w w' none \<and> a \<notin> set (made (drop (length (calls w)) (calls w'))) \<or>
     ledger w w' (\<lambda>b. - pending [a] b) \<and> a \<in> set (made (drop (length (calls w)) (calls w')))"

lemma ledger_clReleaseCommandQueue:
  assumes "prio w = LOW"
  shows "wp True (clReleaseCommandQueue v q)
     (\<lambda>_ w'. took_back w w' (ReleaseCommandQueue q)) (\<lambda>_ _. False) w"
  unfolding clReleaseCommandQueue_def
  apply (intro vc)
  using assms entry_refs_release(1)
  apply (auto simp: took_back_def ledger_defs filter_empty_conv)
  done

lemma ledger_clCreateContext: "wp True (clCreateContext v want) (\<lambda>_ w'. ledger w w' none) (\<lambda>_ _. False) w"
  unfolding clCreateContext_def
  apply (intro vc)
  apply (auto simp: ledger_defs)
  done

section \<open>Programs\<close>

lemma ledger_clGetProgramBuildInfo:
  "wp True (clGetProgramBuildInfo v P D i n wantv wants) (\<lambda>_ w'. ledger w w' none) (\<lambda>_ _. False) w"
  unfolding clGetProgramBuildInfo_def vendor_build_info_def
  apply (intro vc)
  apply (auto simp: ledger_defs)
  done

lemma ledger_LogVendorBuild:
  "wp True (LogVendorBuild v S ds)
     (\<lambda>_ w'. ledger w w' none \<and> QT w' = QT w \<and> PT w' = PT w \<and> KT w' = KT w \<and> works w' = works w
        \<and> guards w' = guards w) (\<lambda>_ _. False) w"
  unfolding LogVendorBuild_def
  apply (intro vc)
  apply (auto simp: ledger_defs)
  done

lemma ledger_clReleaseProgram:
  assumes "prio w = LOW"
  shows "wp True (clReleaseProgram v P)
     (\<lambda>_ w'. took_back w w' (ReleaseProgram P)) (\<lambda>_ _. False) w"
  unfolding clReleaseProgram_def
  apply (intro vc)
  using assms entry_refs_release(2)
  apply (auto simp: took_back_def ledger_defs filter_empty_conv)
  done

lemma ledger_clBuildProgram:
  assumes "prio w = LOW"
  shows "wp True (clBuildProgram v Compile P ds opts)
     (\<lambda>_ w'. ledger w w' none) (\<lambda>_ _. False) w"
  unfolding clBuildProgram_def
  apply (intro vc wp_weaken [OF ledger_LogVendorBuild])
  using assms
  apply (auto simp: ledger_defs)
  done

section \<open>Kernels\<close>

lemma ledger_clCreateKernel:
  assumes "prio w = LOW"
  shows "wp True (clCreateKernel v P n want)
     (\<lambda>x w'. ledger w w' (obj_ref ReleaseKernel (fst x))) (\<lambda>_ _. False) w"
  unfolding clCreateKernel_def
  apply (intro vc)
  using assms
  apply (auto simp: ledger_defs kernel_refs_def new_kernel_def)
  done

lemma ledger_clRetainKernel:
  assumes "prio w = LOW"
  shows "wp True (clRetainKernel v K) (\<lambda>_ w'. ledger w w' none) (\<lambda>_ _. False) w"
  unfolding clRetainKernel_def
  apply (intro vc)
  using assms
  apply (auto simp: ledger_defs kernel_refs_def)
  done

lemma ledger_clReleaseKernel:
  assumes "prio w = LOW"
  shows "wp True (clReleaseKernel v K)
     (\<lambda>_ w'. took_back w w' (ReleaseKernel K)) (\<lambda>_ _. False) w"
  unfolding clReleaseKernel_def
  apply (intro vc)
  using assms entry_refs_release(3)
  apply (auto simp: took_back_def ledger_defs filter_empty_conv)
  done

lemma ledger_clSetKernelArg:
  assumes "prio w = LOW"
  shows "wp True (clSetKernelArg v K i n a) (\<lambda>_ w'. ledger w w' none) (\<lambda>_ _. False) w"
  unfolding clSetKernelArg_def set_and_record_def record_arg_def
  apply (intro vc)
  using assms
  apply (auto simp: ledger_defs kernel_refs_def)
  done

end
