(* ===== verification/Enqueue.thy ===== *)
theory Enqueue
  imports Reorder Accounts
begin

text \<open>
  Model of the command functions of \<open>runtime/Interface.cpp\<close> other than the kernel launch.
  They share one shape. In a high priority process the command goes to the vendor, and if it
  was accepted the schedule guard is bound to its event; in a low priority process it goes
  through \<open>Reorder\<close>.
\<close>

section \<open>The code\<close>

text \<open>
  The high priority branch: the vendor always gets a place for the event; if the application
  did not ask for it, the callback on the event is to release it.
\<close>

definition EnqueueHigh ::
  "vendor \<Rightarrow> task_kind \<Rightarrow> command \<Rightarrow> handle \<Rightarrow> handle list \<Rightarrow> bool \<Rightarrow> (cl_int \<times> handle) rt" where
  "EnqueueHigh v K c Queue WaitingList Event =
     andThen (call v (Enqueue c Queue WaitingList True)) (\<lambda>r.
     andThen (if ret r = CL_SUCCESS then BindToEvent v K (obj r) (\<not> Event) else return ()) (\<lambda>_.
     return (ret r, if ret r = CL_SUCCESS \<and> Event then obj r else NULL)))"

definition EnqueueAsync ::
  "vendor \<Rightarrow> task_kind \<Rightarrow> command \<Rightarrow> handle \<Rightarrow> nat \<Rightarrow> handle list option \<Rightarrow> bool \<Rightarrow> (cl_int \<times> handle) rt" where
  "EnqueueAsync v K c Queue NumOfWaiting WaitingList Event =
     catch (scoped v
       (andThen (Schedule v K) (\<lambda>_.
        andThen (get prio) (\<lambda>p.
          if p \<noteq> LOW then EnqueueHigh v K c Queue (wait_list WaitingList NumOfWaiting) Event
          else Reorder v Queue WaitingList NumOfWaiting Event (EnqueueFunc v c Queue)))))
       (\<lambda>OclError. return (OclError, NULL))"

definition clEnqueueReadBuffer where
  "clEnqueueReadBuffer v Queue Buffer Blocking Offset Size HostPtr NumOfWaiting WaitingList Event =
     EnqueueAsync v MEMCPY (ReadBuffer Buffer Blocking Offset Size HostPtr) Queue
       NumOfWaiting WaitingList Event"

definition clEnqueueWriteBuffer where
  "clEnqueueWriteBuffer v Queue Buffer Blocking Offset Size HostPtr NumOfWaiting WaitingList Event =
     EnqueueAsync v MEMCPY (WriteBuffer Buffer Blocking Offset Size HostPtr) Queue
       NumOfWaiting WaitingList Event"

definition clEnqueueReadImage where
  "clEnqueueReadImage v Queue Img Blocking Origin Region RowPitch SlicePitch Ptr
       NumOfWaiting WaitingList Event =
     EnqueueAsync v MEMCPY (ReadImage Img Blocking Origin Region RowPitch SlicePitch Ptr) Queue
       NumOfWaiting WaitingList Event"

definition clEnqueueWriteImage where
  "clEnqueueWriteImage v Queue Img Blocking Origin Region RowPitch SlicePitch Ptr
       NumOfWaiting WaitingList Event =
     EnqueueAsync v MEMCPY (WriteImage Img Blocking Origin Region RowPitch SlicePitch Ptr) Queue
       NumOfWaiting WaitingList Event"

definition clEnqueueCopyBuffer where
  "clEnqueueCopyBuffer v Queue SrcBuffer DstBuffer SrcOffset DstOffset Size
       NumOfWaiting WaitingList Event =
     EnqueueAsync v MEMCPY (CopyBuffer SrcBuffer DstBuffer SrcOffset DstOffset Size) Queue
       NumOfWaiting WaitingList Event"

definition clEnqueueCopyBufferToImage where
  "clEnqueueCopyBufferToImage v Queue SrcBuffer DstImage SrcOffset DstOrigin Region
       NumOfWaiting WaitingList Event =
     EnqueueAsync v MEMCPY (CopyBufferToImage SrcBuffer DstImage SrcOffset DstOrigin Region) Queue
       NumOfWaiting WaitingList Event"

text \<open>Markers and unmapping hold no schedule guard.\<close>

definition EnqueueUnscheduled ::
  "vendor \<Rightarrow> command \<Rightarrow> handle \<Rightarrow> nat \<Rightarrow> handle list option \<Rightarrow> bool \<Rightarrow> (cl_int \<times> handle) rt" where
  "EnqueueUnscheduled v c Queue NumOfWaiting WaitingList Event =
     catch
       (andThen (get prio) (\<lambda>p.
          if p \<noteq> LOW then EnqueueFunc v c Queue (wait_list WaitingList NumOfWaiting) Event
          else Reorder v Queue WaitingList NumOfWaiting Event (EnqueueFunc v c Queue)))
       (\<lambda>OclError. return (OclError, NULL))"

definition clEnqueueMarker :: "vendor \<Rightarrow> handle \<Rightarrow> bool \<Rightarrow> (cl_int \<times> handle) rt" where
  "clEnqueueMarker v Queue Event = EnqueueUnscheduled v Marker Queue 0 None Event"

definition clEnqueueUnmapMemObject where
  "clEnqueueUnmapMemObject v Queue MemObj MappedPtr NumOfWaiting WaitingList Event =
     EnqueueUnscheduled v (UnmapMemObject MemObj MappedPtr) Queue NumOfWaiting WaitingList Event"

text \<open>
  Mapping a buffer returns a pointer, which the submission stores in a local variable
  (\<open>map_ptr\<close>), and the status through a pointer (\<open>want\<close>: it is not null). The vendor's
  status goes there in the high priority branch; in the low priority branch the code writes
  through the pointer unchecked.
\<close>

definition MapFunc :: "vendor \<Rightarrow> command \<Rightarrow> handle \<Rightarrow> ReorderInvokee" where
  "MapFunc v c Queue WaitingList want =
     andThen (call v (Enqueue c Queue WaitingList want)) (\<lambda>r.
     andThen (modify (\<lambda>w. w\<lparr>map_ptr := num r\<rparr>)) (\<lambda>_.
     return (ret r, if ret r = CL_SUCCESS \<and> want then obj r else NULL)))"

definition write_error :: "bool \<Rightarrow> cl_int \<Rightarrow> cl_int option rt" where
  "write_error want e = (if want then return (Some e) else crash)"

definition clEnqueueMapBuffer ::
  "vendor \<Rightarrow> handle \<Rightarrow> handle \<Rightarrow> bool \<Rightarrow> u64 \<Rightarrow> u64 \<Rightarrow> u64 \<Rightarrow> nat \<Rightarrow> handle list option \<Rightarrow> bool \<Rightarrow> bool
     \<Rightarrow> (nat \<times> cl_int option \<times> handle) rt" where
  "clEnqueueMapBuffer v Queue Buffer Blocking MapFlags Offset Size NumOfWaiting WaitingList Event want =
     (let c = MapBuffer Buffer Blocking MapFlags Offset Size
      in catch (scoped v
        (andThen (Schedule v COMPUTING) (\<lambda>_.
         andThen (get prio) (\<lambda>p.
           if p \<noteq> LOW
           then andThen (call v (Enqueue c Queue (wait_list WaitingList NumOfWaiting) True)) (\<lambda>r.
                andThen (if num r \<noteq> 0 then BindToEvent v COMPUTING (obj r) (\<not> Event) else return ()) (\<lambda>_.
                return (num r, if want then Some (ret r) else None,
                        if num r \<noteq> 0 \<and> Event then obj r else NULL)))
           else andThen (modify (\<lambda>w. w\<lparr>map_ptr := 0\<rparr>)) (\<lambda>_.
                andThen (Reorder v Queue WaitingList NumOfWaiting Event (MapFunc v c Queue)) (\<lambda>(Ret, E).
                andThen (write_error want Ret) (\<lambda>ErrorCode.
                andThen (get map_ptr) (\<lambda>MapPtr.
                return (MapPtr, ErrorCode, E)))))))))
        (\<lambda>OclError. andThen (write_error want OclError) (\<lambda>ErrorCode. return (0, ErrorCode, NULL))))"

section \<open>Submission through \<open>Reorder\<close>\<close>

text \<open>
  What \<open>Reorder\<close> needs of a submission: it hands over one event if it succeeds and was asked
  for one, and otherwise nothing.
\<close>

definition submits :: "ReorderInvokee \<Rightarrow> bool" where
  "submits f \<longleftrightarrow> (\<forall>ws want w.
     wp True (f ws want) (\<lambda>x w'. ledger w w' (obj_ref ReleaseEvent (snd x)) \<and> QT w' = QT w \<and> PT w' = PT w \<and> KT w' = KT w)
       (\<lambda>_ _. False) w)"

lemma submits_EnqueueFunc: "submits (EnqueueFunc v c q)"
  unfolding submits_def EnqueueFunc_def
  apply (intro allI vc)
  apply (auto simp: ledger_defs)
  done

lemma submits_MapFunc: "submits (MapFunc v c q)"
  unfolding submits_def MapFunc_def
  apply (intro allI vc)
  apply (auto simp: ledger_defs)
  done

lemma wp_submits:
  assumes "submits f" and "\<And>x w'. ledger w w' (obj_ref ReleaseEvent (snd x)) \<Longrightarrow>
      QT w' = QT w \<Longrightarrow> PT w' = PT w \<Longrightarrow> KT w' = KT w \<Longrightarrow> Q x w'"
  shows "wp True (f ws want) Q E w"
  using assms(1) unfolding submits_def by (blast intro: wp_weaken assms(2))

lemma ledger_ReorderCore:
  assumes "QT w q = Some QI" and "submits f"
  shows "wp True (ReorderCore v q QI ws want f)
     (\<lambda>x w'. ledger w w' (obj_ref ReleaseEvent (snd x))) (\<lambda>e w'. ledger w w' none) w"
  unfolding ReorderCore_def Let_def
  apply (intro vc wp_swap_blocker wp_submits [OF assms(2)])
  using assms(1)
  apply (auto simp: ledger_defs)
  done

lemma ledger_Reorder:
  assumes "submits f"
  shows "wp True (Reorder v q wl n want f)
     (\<lambda>x w'. ledger w w' (obj_ref ReleaseEvent (snd x))) (\<lambda>e w'. ledger w w' none) w"
  unfolding Reorder_def
  by (intro vc wp_weaken [OF ledger_ReorderCore] assms) (auto simp: ledger_def)

text \<open>A call that runs inside a scope with a schedule guard.\<close>

abbreviation in_schedule :: "task_kind \<Rightarrow> reply \<Rightarrow> runtime \<Rightarrow> runtime" where
  "in_schedule K r w \<equiv> w\<lparr>calls := calls w @ [(SchedStart K, r)], guards := [SchedEnd K]\<rparr>"

lemma ledger_in_scope:
  assumes "ret r = CL_SUCCESS" and l: "ledger (in_schedule K r w) w' d"
  shows "ledger w (leave v (guards w) w') d"
proof -
  have "surplus (in_schedule K r w) b = surplus w b + pending (guards w) b" for b
    using assms(1) by (simp add: surplus_def held_def gains)
  moreover have "surplus (leave v (guards w) w') b = surplus w' b - pending (guards w) b" for b
    using l by (intro surplus_leave) (simp add: ledger_def)
  moreover have "finite_tables (in_schedule K r w) = finite_tables w"
    by (simp add: finite_tables_def)
  moreover obtain u where "calls w' = calls (in_schedule K r w) @ u" using l by (auto simp: ledger_def)
  then have "\<exists>u. calls (leave v (guards w) w') = calls w @ u" by simp
  ultimately show ?thesis using l by (simp add: ledger_def)
qed

lemma ledger_EnqueueAsync_low:
  assumes "prio w = LOW"
  shows "wp True (EnqueueAsync v K c q n wl want)
     (\<lambda>x w'. ledger w w' (obj_ref ReleaseEvent (snd x))) (\<lambda>_ _. False) w"
  unfolding EnqueueAsync_def
  apply (intro wp_catch wp_scoped wp_andThen wp_Schedule wp_get wp_if)
  using assms
  apply simp_all
  apply (rule wp_weaken [OF ledger_Reorder [OF submits_EnqueueFunc]])
  apply (auto intro!: wp_return elim: ledger_in_scope)
  done

lemma ledger_EnqueueUnscheduled_low:
  assumes "prio w = LOW"
  shows "wp True (EnqueueUnscheduled v c q n wl want)
     (\<lambda>x w'. ledger w w' (obj_ref ReleaseEvent (snd x))) (\<lambda>_ _. False) w"
  unfolding EnqueueUnscheduled_def
  apply (intro wp_catch wp_andThen wp_get wp_if)
  using assms
  apply simp_all
  apply (rule wp_weaken [OF ledger_Reorder [OF submits_EnqueueFunc]])
  apply (auto intro!: wp_return)
  done

lemma ledger_map_ptr [simp]:
  "ledger (w\<lparr>map_ptr := n\<rparr>) w' d = ledger w w' d" "ledger w (w'\<lparr>map_ptr := n\<rparr>) d = ledger w w' d"
  by (simp_all add: ledger_def surplus_def held_def finite_tables_def)

lemma wp_write_error [vc]: "(want \<Longrightarrow> Q (Some e) w) \<Longrightarrow> wp True (write_error want e) Q E w"
  unfolding write_error_def by (intro vc) auto

lemma ledger_clEnqueueMapBuffer_low:
  assumes "prio w = LOW"
  shows "wp True (clEnqueueMapBuffer v q B Blocking MapFlags Offset n m wl Event want)
     (\<lambda>x w'. ledger w w' (obj_ref ReleaseEvent (snd (snd x)))) (\<lambda>_ _. False) w"
  unfolding clEnqueueMapBuffer_def Let_def
  apply (intro wp_catch wp_scoped wp_andThen wp_Schedule wp_get wp_if wp_modify)
  using assms
  apply simp_all
  apply (rule wp_weaken [OF ledger_Reorder [OF submits_MapFunc]])
  apply (auto intro!: vc elim: ledger_in_scope)
  done

section \<open>The high priority branch\<close>

text \<open>
  After an accepted command the callback on its event owns the guard, and the event itself
  if the application did not ask for it.
\<close>

definition callbacks_set :: "runtime \<Rightarrow> runtime \<Rightarrow> api list" where
  "callbacks_set w w' =
     filter (\<lambda>a. \<exists>e d. a = SetSchedEndCallback e d) (made (drop (length (calls w)) (calls w')))"

lemma EnqueueAsync_high:
  assumes "prio w = HIGH"
  shows "wp True (EnqueueAsync v K c q n wl Event)
     (\<lambda>x w'. callbacks_set w w' = [] \<and> snd x = NULL \<and> ledger w w' none \<or>
        (\<exists>e. e \<noteq> NULL \<and> fst x = CL_SUCCESS \<and> snd x = (if Event then e else NULL) \<and>
           callbacks_set w w' = [SetSchedEndCallback e (callback_data K (\<not> Event))] \<and>
           ledger w w' (\<lambda>b. obj_ref ReleaseEvent e b + pending [SchedEnd K] b)))
     (\<lambda>_ _. False) w"
  unfolding EnqueueAsync_def EnqueueHigh_def callbacks_set_def
  apply (intro vc)
  using assms
  apply (auto simp: ledger_defs)
  done

text \<open>The callback gives back what it owns, the event only if the number it got is negative.\<close>

lemma SchedEnd_callback:
  "wp True (SchedEndOnEventCallback v e (callback_data K g))
     (\<lambda>_ w'. ledger w w' (\<lambda>b. - pending [SchedEnd K] b
        - (if g \<and> K \<noteq> COMPUTING then pending [ReleaseEvent e] b else 0))) (\<lambda>_ _. False) w"
  unfolding SchedEndOnEventCallback_def
  apply (intro vc)
  apply (auto simp: ledger_defs)
  done

end
