(* ===== verification/HumanReadable.thy ===== *)
theory HumanReadable
  imports Prelude
begin

text \<open>
  Model of \<open>ToHumanReadable\<close> of \<open>runtime/Support.cpp\<close>, which prints a size with a unit. The
  number is held in a \<open>float\<close>: 24 significant bits, round to nearest, ties to even. Dividing
  it by 1024 is exact, so the value after \<open>U\<close> divisions is the rounded number over
  \<open>1024 ^ U\<close>.
\<close>

section \<open>The code\<close>

text \<open>The number of binary digits.\<close>

fun bitlen :: "nat \<Rightarrow> nat" where
  "bitlen n = (if n = 0 then 0 else Suc (bitlen (n div 2)))"

declare bitlen.simps [simp del]

definition round_even :: "nat \<Rightarrow> nat \<Rightarrow> nat" where
  "round_even n d =
     (let q = n div d; r = n mod d
      in if 2 * r < d \<or> 2 * r = d \<and> even q then q else q + 1)"

definition to_float :: "nat \<Rightarrow> nat" where
  "to_float n =
     (if bitlen n \<le> 24 then n
      else let s = 2 ^ (bitlen n - 24) in round_even n s * s)"

definition UntTbl :: "string list" where
  "UntTbl = ['' B'', '' KiB'', '' MiB'', ''GiB'', ''TiB'']"

text \<open>The loop: the value \<open>r / 1024 ^ U\<close> is compared with 1024.\<close>

function unit_index :: "nat \<Rightarrow> nat \<Rightarrow> nat" where
  "unit_index r U = (if 1024 * 1024 ^ U < r \<and> U < length UntTbl then unit_index r (U + 1) else U)"
  by pat_completeness auto
termination by (relation "measure (\<lambda>(r, U). length UntTbl - U)") auto

declare unit_index.simps [simp del]

text \<open>\<open>std::to_string\<close> of a non-negative number \<open>r / d\<close>: six decimals.\<close>

fun digits :: "nat \<Rightarrow> string" where
  "digits n = (if n < 10 then [char_of (48 + n)] else digits (n div 10) @ [char_of (48 + n mod 10)])"

declare digits.simps [simp del]

definition to_string :: "nat \<Rightarrow> nat \<Rightarrow> string" where
  "to_string r d =
     (let q = round_even (r * 10 ^ 6) d; frac = digits (q mod 10 ^ 6)
      in digits (q div 10 ^ 6) @ ''.'' @ replicate (6 - length frac) (CHR ''0'') @ frac)"

definition ToHumanReadable :: "nat \<Rightarrow> string outcome" where
  "ToHumanReadable S =
     (let R = to_float S; U = unit_index R 0
      in if U < length UntTbl then Ok (to_string R (1024 ^ U) @ UntTbl ! U) else Crash)"

section \<open>Which unit\<close>

lemma bitlen_0 [simp]: "bitlen 0 = 0"
  by (simp add: bitlen.simps)

lemma bitlen_step: "0 < n \<Longrightarrow> bitlen n = Suc (bitlen (n div 2))"
  by (subst bitlen.simps) simp

lemma bitlen_bounds: "0 < n \<Longrightarrow> 2 ^ (bitlen n - 1) \<le> n \<and> n < 2 ^ bitlen n \<and> 0 < bitlen n"
proof (induction n rule: less_induct)
  case (less n)
  show ?case
  proof (cases "n div 2 = 0")
    case True
    then have "n = 1" using less.prems by simp
    then show ?thesis by (simp add: bitlen_step)
  next
    case False
    then have IH: "2 ^ (bitlen (n div 2) - 1) \<le> n div 2" "n div 2 < 2 ^ bitlen (n div 2)" "0 < bitlen (n div 2)"
      using less.IH [of "n div 2"] less.prems by simp_all
    then obtain k where k: "bitlen (n div 2) = Suc k" by (cases "bitlen (n div 2)") auto
    have n: "2 ^ k \<le> n div 2" "n div 2 < 2 * 2 ^ k" using IH k by auto
    have "2 * 2 ^ k \<le> n" "n < 2 * (2 * 2 ^ k)" using n by linarith+
    then show ?thesis using bitlen_step [OF less.prems] k by simp
  qed
qed

lemma bitlen_eqI: "2 ^ k \<le> n \<Longrightarrow> n < 2 ^ Suc k \<Longrightarrow> bitlen n = Suc k"
proof -
  assume le: "2 ^ k \<le> n" and lt: "n < 2 ^ Suc k"
  then have pos: "0 < n" by (simp add: less_le_trans [of 0 "2 ^ k"])
  note b = bitlen_bounds [OF pos]
  have "2 ^ k < (2 :: nat) ^ bitlen n" using le b by linarith
  then have "k < bitlen n" by (simp add: power_strict_increasing_iff)
  moreover have "2 ^ (bitlen n - 1) < (2 :: nat) ^ Suc k" using lt b by linarith
  then have "bitlen n - 1 < Suc k" using power_strict_increasing_iff [of 2] by (metis one_less_numeral_iff semiring_norm(76))
  ultimately show ?thesis by simp
qed

lemma round_even_bounds: "0 < d \<Longrightarrow> n div d \<le> round_even n d \<and> round_even n d \<le> n div d + 1"
  by (simp add: round_even_def Let_def)

lemma to_float_small:
  assumes "n < 2 ^ k" and "24 \<le> k"
  shows "to_float n \<le> 2 ^ k"
proof (cases "bitlen n \<le> 24")
  case True
  then show ?thesis using assms(1) by (simp add: to_float_def)
next
  case False
  define s where "s = (2 :: nat) ^ (bitlen n - 24)"
  have pos: "0 < n" using False by (cases n) (simp_all add: bitlen.simps)
  note b = bitlen_bounds [OF pos]
  have "2 ^ (bitlen n - 1) < (2 :: nat) ^ k" using b assms(1) by linarith
  then have "bitlen n - 1 < k" by (rule power_less_imp_less_exp [rotated]) simp
  then have bk: "bitlen n \<le> k" by linarith
  have e: "24 + (bitlen n - 24) = bitlen n" using False by simp
  have s24: "2 ^ 24 * s = 2 ^ bitlen n" unfolding s_def power_add [symmetric] e ..
  then have "n div s < 2 ^ 24" using b by (intro less_mult_imp_div_less) simp
  then have "round_even n s \<le> 2 ^ 24" using round_even_bounds [of s n] by (simp add: s_def)
  then have "round_even n s * s \<le> 2 ^ bitlen n" unfolding s24 [symmetric] by simp
  also have "\<dots> \<le> 2 ^ k" using bk by simp
  finally show ?thesis using False by (simp add: to_float_def Let_def s_def)
qed

lemma to_float_large:
  assumes "2 ^ k \<le> n" and "24 \<le> k"
  shows "2 ^ k \<le> to_float n"
proof -
  have pos: "0 < n" using assms(1) by (simp add: less_le_trans [of 0 "2 ^ k"])
  note b = bitlen_bounds [OF pos]
  have "2 ^ k < (2 :: nat) ^ bitlen n" using b assms(1) by linarith
  then have kb: "k < bitlen n" by simp
  define s where "s = (2 :: nat) ^ (bitlen n - 24)"
  have e: "23 + (bitlen n - 24) = bitlen n - 1" using kb assms(2) by simp
  have "2 ^ 23 * s = 2 ^ (bitlen n - 1)" unfolding s_def power_add [symmetric] e ..
  then have "2 ^ 23 \<le> n div s" using b by (simp add: s_def less_eq_div_iff_mult_less_eq)
  then have "2 ^ 23 \<le> round_even n s" using round_even_bounds [of s n] by (simp add: s_def)
  then have "2 ^ (bitlen n - 1) \<le> round_even n s * s"
    unfolding \<open>2 ^ 23 * s = 2 ^ (bitlen n - 1)\<close> [symmetric] by simp
  moreover have "(2 :: nat) ^ k \<le> 2 ^ (bitlen n - 1)" using kb by (intro power_increasing) auto
  ultimately have "2 ^ k \<le> round_even n s * s" by (rule order_trans [rotated])
  then show ?thesis using kb assms(2) by (simp add: to_float_def Let_def s_def)
qed

lemma to_float_above: "2 ^ 50 < to_float S \<longleftrightarrow> 2 ^ 50 + 2 ^ 26 < S"
proof -
  consider "S < 2 ^ 50" | "2 ^ 50 \<le> S" "S < 2 ^ 51" | "2 ^ 51 \<le> S" by linarith
  then show ?thesis
  proof cases
    case 1
    then show ?thesis using to_float_small [of S 50] by simp
  next
    case 2
    then have "bitlen S = 51" using bitlen_eqI [of 50 S] by simp
    then have f: "to_float S = round_even S (2 ^ 27) * 2 ^ 27" by (simp add: to_float_def Let_def)
    define q r where "q = S div 2 ^ 27" and "r = S mod 2 ^ 27"
    have S: "S = q * 2 ^ 27 + r" "r < 2 ^ 27" by (simp_all add: q_def r_def)
    have q: "2 ^ 23 \<le> q" using 2 S by simp
    have "2 ^ 50 < to_float S \<longleftrightarrow> 2 ^ 23 < round_even S (2 ^ 27)" unfolding f by simp
    also have "\<dots> \<longleftrightarrow> 2 ^ 23 < q \<or> q = 2 ^ 23 \<and> 2 ^ 26 < r"
      using q unfolding round_even_def Let_def q_def [symmetric] r_def [symmetric] by auto
    also have "\<dots> \<longleftrightarrow> 2 ^ 50 + 2 ^ 26 < S" using S q by auto
    finally show ?thesis .
  next
    case 3
    then show ?thesis using to_float_large [of 51 S] by simp
  qed
qed

lemma unit_index_props:
  assumes "U \<le> 5" and "0 < U \<longrightarrow> 1024 ^ U < r"
  shows "unit_index r U \<le> 5 \<and> (0 < unit_index r U \<longrightarrow> 1024 ^ unit_index r U < r) \<and>
     (unit_index r U < 5 \<longrightarrow> r \<le> 1024 * 1024 ^ unit_index r U)"
  using assms
proof (induction r U rule: unit_index.induct)
  case (1 r U)
  show ?case
  proof (cases "1024 * 1024 ^ U < r \<and> U < length UntTbl")
    case True
    then have "unit_index r U = unit_index r (U + 1)" by (subst unit_index.simps) simp
    then show ?thesis using 1 True by (simp add: UntTbl_def)
  next
    case False
    then have "unit_index r U = U" by (subst unit_index.simps) auto
    then show ?thesis using 1 False by (auto simp: UntTbl_def)
  qed
qed

lemma unit_index_5: "unit_index r 0 = 5 \<longleftrightarrow> 2 ^ 50 < r"
proof -
  note u = unit_index_props [of 0 r, simplified]
  show ?thesis
  proof
    assume "unit_index r 0 = 5"
    then show "2 ^ 50 < r" using u by simp
  next
    assume r: "2 ^ 50 < r"
    show "unit_index r 0 = 5"
    proof (rule ccontr)
      assume n: "unit_index r 0 \<noteq> 5"
      then have "unit_index r 0 \<le> 4" "r \<le> 1024 * 1024 ^ unit_index r 0" using u by auto
      moreover have "(1024 :: nat) ^ unit_index r 0 \<le> 1024 ^ 4"
        using calculation(1) by (intro power_increasing) auto
      ultimately show False using r by simp
    qed
  qed
qed

section \<open>Properties\<close>

text \<open>
  C24. The unit table is read past its end exactly for sizes above \<open>2 ^ 50 + 2 ^ 26\<close>: the loop
  stops at the table's size, not at its last entry, and the conversion to \<open>float\<close> rounds the
  sizes just above 1024 TiB down to it.
\<close>

theorem ToHumanReadable_overrun:
  "ToHumanReadable S = Crash \<longleftrightarrow> 2 ^ 50 + 2 ^ 26 < S"
proof -
  have "unit_index (to_float S) 0 \<le> 5" using unit_index_props [of 0 "to_float S"] by simp
  then have "ToHumanReadable S = Crash \<longleftrightarrow> unit_index (to_float S) 0 = 5"
    by (auto simp: ToHumanReadable_def Let_def UntTbl_def)
  then show ?thesis by (simp only: unit_index_5 to_float_above)
qed

end
