(* ===== verification/NDRange.thy ===== *)
theory NDRange
  imports Enqueue WorkSize HumanReadable
begin

text \<open>
  Model of \<open>clEnqueueNDRangeKernel\<close> of \<open>runtime/Interface.cpp\<close>. A low priority process does
  not enqueue the kernel itself: it allocates the buffers of the checkpoint header and of
  the saved values, sets the extra arguments of the instrumented kernel, creates a user event
  that stands for the kernel's completion, files a launch and starts its first run on the
  shadow queue; a marker behind the user event goes to the application's queue.

  Arrays come as pointers (\<open>None\<close> for null) and are read up to \<open>WorkDim\<close>. Sizes are computed
  modulo \<open>2 ^ 64\<close>.
\<close>

section \<open>The geometry\<close>

definition wrap64 :: "nat \<Rightarrow> nat" where
  "wrap64 n = n mod 2 ^ 64"

text \<open>
  The loop over the dimensions: the numbers of work-items and work-groups, or the error if a
  size does not divide. A local size of 0 divides by zero.
\<close>

fun Geometry :: "nat list \<Rightarrow> nat list \<Rightarrow> nat \<Rightarrow> nat \<Rightarrow> (nat \<times> nat) outcome" where
  "Geometry (g # gs) (l # ls) NumOfThread NumOfWorkGrp =
     (if l = 0 then Crash
      else if g mod l \<noteq> 0 then Throw CL_INVALID_WORK_GROUP_SIZE
      else Geometry gs ls (wrap64 (NumOfThread * g)) (wrap64 (NumOfWorkGrp * (g div l))))"
| "Geometry _ _ NumOfThread NumOfWorkGrp = Ok (NumOfThread, NumOfWorkGrp)"

definition lift :: "'a outcome \<Rightarrow> 'a rt" where
  "lift x w = (x, w)"

definition ChooseLWS ::
  "vendor \<Rightarrow> handle \<Rightarrow> handle \<Rightarrow> nat \<Rightarrow> nat \<Rightarrow> nat list \<Rightarrow> nat list option \<Rightarrow> nat list rt" where
  "ChooseLWS v Kernel Device dim MaxDim gws lws =
     (case lws of
        Some ls \<Rightarrow> return (take dim ls)
      | None \<Rightarrow>
          andThen (call_ok v (GetDeviceMaxSizes Device MaxDim)) (\<lambda>sizes.
          andThen (call_ok v (GetKernelWorkGroupSize Kernel Device)) (\<lambda>limit.
          lift (FindWorkGroupSize (ret sizes, nums sizes) (ret limit, num limit) dim gws))))"

section \<open>The pieces of a launch\<close>

text \<open>The kernel object: the last one in the pool, or a new one.\<close>

definition TakeKernel :: "vendor \<Rightarrow> handle \<Rightarrow> KernelInfo \<Rightarrow> KernelProfile \<Rightarrow> handle rt" where
  "TakeKernel v K KI Prof =
     (if Pool KI \<noteq> []
      then andThen (modify (\<lambda>w. w\<lparr>KT := (KT w)(K \<mapsto> KI\<lparr>Pool := butlast (Pool KI)\<rparr>)\<rparr>)) (\<lambda>_.
           andThen (own_obj ReleaseKernel (last (Pool KI))) (\<lambda>_.
           return (last (Pool KI))))
      else andThen (call_ok v (CreateKernel (k_Program KI) (Name Prof))) (\<lambda>r.
           andThen (own_obj ReleaseKernel (obj r)) (\<lambda>_.
           return (obj r))))"

definition MakeBuffer :: "vendor \<Rightarrow> handle \<Rightarrow> nat \<Rightarrow> handle rt" where
  "MakeBuffer v Context Size =
     andThen (call v (CreateBuffer Context Size)) (\<lambda>r.
     andThen (own_obj ReleaseMemObject (created r)) (\<lambda>_.
     andThen (OCL_ASSERT (ret r)) (\<lambda>_.
     return (created r))))"

definition MakeBufferIf :: "vendor \<Rightarrow> handle \<Rightarrow> nat \<Rightarrow> handle rt" where
  "MakeBufferIf v Context Size = (if Size > 0 then MakeBuffer v Context Size else return NULL)"

fun SetArgs :: "vendor \<Rightarrow> handle \<Rightarrow> nat \<Rightarrow> karg list \<Rightarrow> unit rt" where
  "SetArgs v Kernel Idx [] = return ()"
| "SetArgs v Kernel Idx (a # as) =
     andThen (call_ok v (SetKernelArg Kernel Idx (fst a) (snd a))) (\<lambda>_.
     SetArgs v Kernel (Idx + 1) as)"

definition SetExtraArgs :: "vendor \<Rightarrow> handle \<Rightarrow> nat \<Rightarrow> handle \<Rightarrow> handle \<Rightarrow> handle \<Rightarrow> u32 \<Rightarrow> unit rt" where
  "SetExtraArgs v Kernel Idx Metadata Local Private Threshold =
     andThen (call_ok v (SetKernelArgMem Kernel Idx Metadata)) (\<lambda>_.
     andThen (call_ok v (SetKernelArgMem Kernel (Idx + 1) Local)) (\<lambda>_.
     andThen (call_ok v (SetKernelArgMem Kernel (Idx + 2) Private)) (\<lambda>_.
     andThen (call_ok v (SetKernelArgUInt Kernel (Idx + 3) Threshold)) (\<lambda>_.
     return ()))))"

text \<open>
  A failure while the launch is still owned by the function deletes it, which releases what
  it holds.
\<close>

definition delete_on_error :: "vendor \<Rightarrow> nat \<Rightarrow> 'a rt \<Rightarrow> 'a rt" where
  "delete_on_error v wid m =
     catch m (\<lambda>e.
       andThen (the_work wid) (\<lambda>Work.
       andThen (modify (\<lambda>w. w\<lparr>works := (works w)(wid := None)\<rparr>)) (\<lambda>_.
       andThen (release_all v (work_refs Work)) (\<lambda>_.
       throw e))))"

definition file_work :: "CallbackData \<Rightarrow> nat rt" where
  "file_work Work =
     andThen next_serial (\<lambda>wid.
     andThen (modify (\<lambda>w. w\<lparr>works := (works w)(wid \<mapsto> Work)\<rparr>)) (\<lambda>_.
     return wid))"

text \<open>
  The host copy of the metadata: the sizes of the dynamically sized local buffers, read as
  the low half of the recorded \<open>size_t\<close>, then one entry 1 per work-item.
\<close>

definition InitialMetadata :: "karg list \<Rightarrow> nat list \<Rightarrow> nat \<Rightarrow> cl_int list" where
  "InitialMetadata as dyn NumOfThread = map (\<lambda>i. ucast (fst (as ! i))) dyn @ replicate NumOfThread 1"

definition LogSizes :: "nat list \<Rightarrow> unit rt" where
  "LogSizes sizes =
     andThen (get (\<lambda>w. shouldLog w LOG_INFO)) (\<lambda>info.
       if info \<and> (\<exists>n \<in> set sizes. ToHumanReadable n = Crash) then crash else return ())"

section \<open>The function\<close>

text \<open>
  The end of step 5: the launch takes over the resources from the guards of the scope
  (\<open>Final\<close> was retained, so its guard keeps one reference), its first run is enqueued, the
  marker that completes with \<open>Final\<close> goes to the application's queue, and \<open>Final\<close> becomes
  the task blocker.
\<close>

definition RunLaunch ::
  "vendor \<Rightarrow> handle \<Rightarrow> QueueInfo \<Rightarrow> CallbackData \<Rightarrow> handle list \<Rightarrow> bool \<Rightarrow> (cl_int \<times> handle) rt" where
  "RunLaunch v Queue QI Work NewWaitingList Event =
     andThen (call v (RetainEvent (Final Work))) (\<lambda>retained.
     andThen (INTER_ASSERT (ret retained = CL_SUCCESS)) (\<lambda>_.
     andThen (disown_obj ReleaseEvent (snd (PrevWork Work))) (\<lambda>_.
     andThen (disown_obj ReleaseMemObject (PrivateBuffer Work)) (\<lambda>_.
     andThen (disown_obj ReleaseMemObject (LocalBuffer Work)) (\<lambda>_.
     andThen (disown_obj ReleaseMemObject (DeviceHeader Work)) (\<lambda>_.
     andThen (disown_obj ReleaseKernel (cb_Kernel Work)) (\<lambda>_.
     andThen (file_work Work) (\<lambda>wid.
     andThen (delete_on_error v wid
       (andThen (MetaEnqueue v wid NewWaitingList) (\<lambda>_.
        call_ok v (Enqueue Marker Queue [Final Work] Event)))) (\<lambda>marker.
     andThen (if ShallReorder QI then swap_blocker Queue (Final Work) else return ()) (\<lambda>_.
     return (CL_SUCCESS, if Event then obj marker else NULL)))))))))))"

text \<open>From the geometry on (steps 2 to 5 of the source).\<close>

definition StartLaunch ::
  "vendor \<Rightarrow> handle \<Rightarrow> QueueInfo \<Rightarrow> handle \<Rightarrow> KernelInfo \<Rightarrow> KernelProfile \<Rightarrow> handle \<Rightarrow> nat \<Rightarrow> nat list
     \<Rightarrow> nat list \<Rightarrow> nat list \<Rightarrow> nat \<Rightarrow> nat \<Rightarrow> handle list \<Rightarrow> bool \<Rightarrow> (cl_int \<times> handle) rt" where
  "StartLaunch v Queue QI K KI Prof Kernel dim gwo gws lws NumOfThread NumOfWorkGrp ws Event =
     (let dyn = LocPtrParamIdx Prof;
          TotalReqLocSize = wrap64 (ReqLocSize Prof + (\<Sum>i \<leftarrow> dyn. unat (fst (Args KI ! i))));
          MetadataSize = wrap64 (4 * (length dyn + NumOfThread));
          PrivateBufferSize = wrap64 (ReqPrvSize Prof * NumOfThread);
          LocalBufferSize = wrap64 (TotalReqLocSize * NumOfWorkGrp);
          hm = InitialMetadata (Args KI) dyn NumOfThread;
          n = length (Args KI)
      in
      andThen (LogSizes [MetadataSize, PrivateBufferSize, LocalBufferSize,
        wrap64 (MetadataSize + PrivateBufferSize + LocalBufferSize)]) (\<lambda>_.
      andThen (MakeBuffer v (q_Context QI) MetadataSize) (\<lambda>Metadata.
      andThen (MakeBufferIf v (q_Context QI) LocalBufferSize) (\<lambda>Local.
      andThen (MakeBufferIf v (q_Context QI) PrivateBufferSize) (\<lambda>Private.
      andThen (call_ok v (Enqueue (WriteHost Metadata 0 hm) (ShadowQueue QI) [] True)) (\<lambda>Written.
      andThen (own_obj ReleaseEvent (obj Written)) (\<lambda>_.
      andThen (SetArgs v Kernel 0 (Args KI)) (\<lambda>_.
      andThen (get (\<lambda>w. ucast (CRThreshold w))) (\<lambda>Threshold.
      andThen (SetExtraArgs v Kernel n Metadata Local Private Threshold) (\<lambda>_.
      andThen (call v (CreateUserEvent (q_Context QI))) (\<lambda>r.
      andThen (own_obj ReleaseEvent (created r)) (\<lambda>_.
      andThen (OCL_ASSERT (ret r)) (\<lambda>_.
      RunLaunch v Queue QI
        \<lparr>cb_Queue = ShadowQueue QI, cb_Kernel = Kernel, KInfo = (K, k_serial KI), WorkDim = dim,
         GWO = gwo, GWS = gws, LWS = lws, WorkGrpSize = NumOfThread div NumOfWorkGrp,
         DeviceHeader = Metadata, LocalBuffer = Local, PrivateBuffer = Private,
         HostMetadata = hm, HeaderOffset = length dyn, PrevWork = (NULL, obj Written),
         Final = created r, Counter = 0, cb_Bucket = []\<rparr>
        (ws @ [obj Written] @ blocker_list QI) Event)))))))))))))"

definition NDRangeLow ::
  "vendor \<Rightarrow> handle \<Rightarrow> handle \<Rightarrow> nat \<Rightarrow> nat list option \<Rightarrow> nat list option \<Rightarrow> nat list option \<Rightarrow> nat
     \<Rightarrow> handle list option \<Rightarrow> bool \<Rightarrow> (cl_int \<times> handle) rt" where
  "NDRangeLow v Queue K dim gwo gws lws NumOfWaiting WaitingList Event =
     (let fail = (\<lambda>e. return (e, NULL))
      in
      andThen (get (\<lambda>w. QT w Queue)) (\<lambda>QueueEntry.
      andThen (get (\<lambda>w. KT w K)) (\<lambda>KTEntry.
      case QueueEntry of None \<Rightarrow> fail CL_INVALID_COMMAND_QUEUE | Some QI \<Rightarrow>
      case KTEntry of None \<Rightarrow> fail CL_INVALID_KERNEL | Some KI \<Rightarrow>
      if bad_wait_list WaitingList NumOfWaiting then fail CL_INVALID_EVENT_WAIT_LIST
      else
        andThen (deref (\<lambda>w. deref_profile w (Profile KI))) (\<lambda>Prof.
        if k_Context KI \<noteq> q_Context QI then fail CL_INVALID_CONTEXT
        else
          andThen (TakeKernel v K KI Prof) (\<lambda>Kernel.
          andThen (call_ok v (GetDeviceMaxDim (q_Device QI))) (\<lambda>MaxDim.
          if dim < 1 \<or> num MaxDim < dim then fail CL_INVALID_WORK_DIMENSION
          else case gws of None \<Rightarrow> fail CL_INVALID_GLOBAL_WORK_SIZE | Some sizes \<Rightarrow>
          if \<exists>s \<in> set (take dim sizes). s = 0 then fail CL_INVALID_GLOBAL_WORK_SIZE
          else
            andThen (ChooseLWS v Kernel (q_Device QI) dim (num MaxDim) (take dim sizes) lws) (\<lambda>RealLWS.
            case Geometry (take dim sizes) RealLWS 1 1 of
              Throw e \<Rightarrow> fail e | Abort \<Rightarrow> abort | Crash \<Rightarrow> crash
            | Ok (NumOfThread, NumOfWorkGrp) \<Rightarrow>
                if NumOfWorkGrp = 0 \<or> (\<exists>i \<in> set (LocPtrParamIdx Prof). length (Args KI) \<le> i) then crash
                else StartLaunch v Queue QI K KI Prof Kernel dim
                  (case gwo of None \<Rightarrow> replicate dim 0 | Some o' \<Rightarrow> take dim o')
                  (take dim sizes) RealLWS NumOfThread NumOfWorkGrp
                  (wait_list WaitingList NumOfWaiting) Event)))))))"

definition clEnqueueNDRangeKernel ::
  "vendor \<Rightarrow> handle \<Rightarrow> handle \<Rightarrow> nat \<Rightarrow> nat list option \<Rightarrow> nat list option \<Rightarrow> nat list option \<Rightarrow> nat
     \<Rightarrow> handle list option \<Rightarrow> bool \<Rightarrow> (cl_int \<times> handle) rt" where
  "clEnqueueNDRangeKernel v Queue K dim gwo gws lws NumOfWaiting WaitingList Event =
     catch (scoped v
       (andThen (Schedule v COMPUTING) (\<lambda>_.
        andThen (get prio) (\<lambda>p.
          if p \<noteq> LOW
          then EnqueueHigh v COMPUTING
                 (NDRangeKernel K dim (case gwo of None \<Rightarrow> [] | Some a \<Rightarrow> a)
                    (case gws of None \<Rightarrow> [] | Some a \<Rightarrow> a) (case lws of None \<Rightarrow> [] | Some a \<Rightarrow> a))
                 Queue (wait_list WaitingList NumOfWaiting) Event
          else NDRangeLow v Queue K dim gwo gws lws NumOfWaiting WaitingList Event))))
       (\<lambda>OclError. return (OclError, NULL))"

end
