(* ===== verification/Guarded.thy ===== *)
theory Guarded
  imports NDRange
begin

text \<open>
  The resources of a kernel launch. Up to the point where the launch is filed every reference
  \<open>clEnqueueNDRangeKernel\<close> takes belongs to a scope guard; \<open>guarded\<close> says so, and the rules
  below carry it over each step. From there on the launch owns them, and \<open>launched\<close>
  describes what a successful call leaves behind.
\<close>

section \<open>Guarded states\<close>

lemma pending_nonneg [simp]: "0 \<le> pending g b"
  by (simp add: pending_def)

lemma pending_unguard:
  assumes "\<And>b. pending (guard_of R h) b \<le> pending g b"
  shows "pending (unguard R h g) b = pending g b - pending (guard_of R h) b"
proof (cases "h = NULL")
  case False
  have "0 < pending g (R h)" using assms [of "R h"] False by simp
  then have "count_list g (R h) \<noteq> 0" by (simp add: pending_def)
  then have "R h \<in> set g" by (simp only: count_list_0_iff not_not)
  then show ?thesis using False by (simp add: unguard_def pending_remove1)
qed simp

text \<open>From \<open>w0\<close>, the calls of the trace led to \<open>w\<close>, and the guards own what they returned.\<close>

definition same_tables :: "runtime \<Rightarrow> runtime \<Rightarrow> bool" where
  "same_tables w w' \<longleftrightarrow> QT w' = QT w \<and> PT w' = PT w \<and> KT w' = KT w \<and> works w' = works w \<and>
     serial w' = serial w \<and> prio w' = prio w \<and> LogLevel w' = LogLevel w \<and> CRThreshold w' = CRThreshold w"

definition guarded :: "runtime \<Rightarrow> api list \<Rightarrow> runtime \<Rightarrow> bool" where
  "guarded w0 A w \<longleftrightarrow> same_tables w0 w \<and> (\<exists>u. calls w = calls w0 @ u \<and> acts u = A \<and>
     (\<forall>b. owed u b = pending (guards w) b - pending (guards w0) b)) \<and> (\<forall>a \<in> set (guards w). is_release a)"

lemma guarded_refl: "\<forall>a \<in> set (guards w). is_release a \<Longrightarrow> guarded w [] w"
  by (simp add: guarded_def same_tables_def)

lemma guarded_step:
  assumes "guarded w0 A w" and "\<And>b. owed u b = pending g b" and "\<forall>a \<in> set g. is_release a"
    and "acts u = B" and "calls w' = calls w @ u" and "guards w' = g @ guards w" and "same_tables w w'"
  shows "guarded w0 (A @ B) w'"
  using assms by (auto simp: guarded_def same_tables_def)

text \<open>Steps that take no reference and enqueue nothing.\<close>

lemmas guarded_plain = guarded_step [where g = "[]" and B = "[]", simplified]

lemma guarded_call_ok:
  assumes "guarded w0 A w" and "\<And>r. gain a r = none" and "\<not> is_act a"
    and "\<And>r w'. ret r = CL_SUCCESS \<Longrightarrow> guarded w0 A w' \<Longrightarrow> guards w' = guards w \<Longrightarrow> Q r w'"
    and "\<And>e w'. e \<noteq> CL_SUCCESS \<Longrightarrow> guarded w0 A w' \<Longrightarrow> E e w'"
  shows "wp Z (call_ok v a) Q E w"
proof (rule wp_call_ok)
  fix r
  let ?w = "w\<lparr>calls := calls w @ [(a, r)]\<rparr>"
  have g: "guarded w0 A ?w"
    by (rule guarded_plain [OF assms(1), where u = "[(a, r)]"]) (simp_all add: assms(2,3) same_tables_def)
  show "ret r = CL_SUCCESS \<Longrightarrow> Q r ?w" using assms(4) [OF _ g] by simp
  show "ret r \<noteq> CL_SUCCESS \<Longrightarrow> E (ret r) ?w" using assms(5) [OF _ g] by simp
qed

lemma guarded_MakeBuffer:
  assumes "guarded w0 A w"
    and "\<And>x w'. guarded w0 A w' \<Longrightarrow> guards w' = guard_of ReleaseMemObject x @ guards w \<Longrightarrow> Q x w'"
    and "\<And>e w'. e \<noteq> CL_SUCCESS \<Longrightarrow> guarded w0 A w' \<Longrightarrow> E e w'"
  shows "wp Z (MakeBuffer v C n) Q E w"
  unfolding MakeBuffer_def
proof (intro vc)
  fix r
  let ?w = "w\<lparr>calls := calls w @ [(CreateBuffer C n, r)], guards := guard_of ReleaseMemObject (created r) @ guards w\<rparr>"
  have g: "guarded w0 A ?w"
    by (rule guarded_step [OF assms(1), where u = "[(CreateBuffer C n, r)]" and B = "[]", simplified])
      (auto simp: gain_other created_def same_tables_def)
  show "ret r = CL_SUCCESS \<Longrightarrow> Q (created r) (w\<lparr>calls := calls w @ [(CreateBuffer C n, r)],
      guards := guard_of ReleaseMemObject (created r) @ guards (w\<lparr>calls := calls w @ [(CreateBuffer C n, r)]\<rparr>)\<rparr>)"
    using assms(2) [OF g] by simp
  show "ret r \<noteq> CL_SUCCESS \<Longrightarrow> E (ret r) (w\<lparr>calls := calls w @ [(CreateBuffer C n, r)],
      guards := guard_of ReleaseMemObject (created r) @ guards (w\<lparr>calls := calls w @ [(CreateBuffer C n, r)]\<rparr>)\<rparr>)"
    using assms(3) [OF _ g] by simp
qed

lemma guarded_MakeBufferIf:
  assumes "guarded w0 A w"
    and "\<And>x w'. guarded w0 A w' \<Longrightarrow> guards w' = guard_of ReleaseMemObject x @ guards w \<Longrightarrow> Q x w'"
    and "\<And>e w'. e \<noteq> CL_SUCCESS \<Longrightarrow> guarded w0 A w' \<Longrightarrow> E e w'"
  shows "wp Z (MakeBufferIf v C n) Q E w"
  unfolding MakeBufferIf_def
  using assms(1) assms(2) [of w NULL] by (intro vc guarded_MakeBuffer [OF assms(1)] assms(2,3)) auto

lemma guarded_SetArgs:
  assumes "guarded w0 A w"
    and "\<And>w'. guarded w0 A w' \<Longrightarrow> guards w' = guards w \<Longrightarrow> Q () w'"
    and "\<And>e w'. e \<noteq> CL_SUCCESS \<Longrightarrow> guarded w0 A w' \<Longrightarrow> E e w'"
  shows "wp Z (SetArgs v K i as) Q E w"
  using assms(1,2)
proof (induction as arbitrary: i w)
  case Nil
  then show ?case by (auto intro: vc)
next
  case (Cons a as)
  show ?case
    unfolding SetArgs.simps
  proof (intro wp_andThen guarded_call_ok [OF Cons.prems(1)])
    fix r w' assume w': "guarded w0 A w'" "guards w' = guards w"
    show "wp Z (SetArgs v K (i + 1) as) Q E w'"
      by (rule Cons.IH [OF w'(1)]) (simp add: Cons.prems(2) w'(2))
  qed (simp_all add: gain_other fun_eq_iff assms(3))
qed

lemma guarded_SetExtraArgs:
  assumes "guarded w0 A w"
    and "\<And>w'. guarded w0 A w' \<Longrightarrow> guards w' = guards w \<Longrightarrow> Q () w'"
    and "\<And>e w'. e \<noteq> CL_SUCCESS \<Longrightarrow> guarded w0 A w' \<Longrightarrow> E e w'"
  shows "wp Z (SetExtraArgs v K i M L P T) Q E w"
  unfolding SetExtraArgs_def
  apply (rule wp_andThen, rule guarded_call_ok [OF assms(1)], simp_all add: gain_other fun_eq_iff assms(3))
  apply (rule wp_andThen, rule guarded_call_ok, assumption, simp_all add: gain_other fun_eq_iff assms(3))
  apply (rule wp_andThen, rule guarded_call_ok, assumption, simp_all add: gain_other fun_eq_iff assms(3))
  apply (rule wp_andThen, rule guarded_call_ok, assumption, simp_all add: gain_other fun_eq_iff assms(3))
  apply (rule wp_return, simp add: assms(2))
  done

lemma guarded_LogSizes:
  assumes "guarded w0 A w" and "Q () w" and "Z \<or> \<not> shouldLog w LOG_INFO"
  shows "wp Z (LogSizes ns) Q E w"
  unfolding LogSizes_def using assms(2,3) by (intro vc) auto

text \<open>A command whose event goes to a guard, and the user event.\<close>

lemma guarded_Enqueue:
  assumes "guarded w0 A w"
    and "\<And>r w'. guarded w0 (A @ [Enqueue c q ws True]) w' \<Longrightarrow>
      guards w' = guard_of ReleaseEvent (obj r) @ guards w \<Longrightarrow> wp Z (f r) Q E w'"
    and "\<And>e w'. e \<noteq> CL_SUCCESS \<Longrightarrow> guarded w0 (A @ [Enqueue c q ws True]) w' \<Longrightarrow> E e w'"
  shows "wp Z (andThen (call_ok v (Enqueue c q ws True)) (\<lambda>r. andThen (own_obj ReleaseEvent (obj r)) (\<lambda>_. f r))) Q E w"
proof (rule wp_andThen, rule wp_call_ok)
  fix r
  let ?a = "Enqueue c q ws True" and ?w = "w\<lparr>calls := calls w @ [(Enqueue c q ws True, r)]\<rparr>"
  show "wp Z (andThen (own_obj ReleaseEvent (obj r)) (\<lambda>_. f r)) Q E ?w" if "ret r = CL_SUCCESS"
  proof (rule wp_andThen, rule wp_own_obj, rule assms(2))
    show "guarded w0 (A @ [?a]) (?w\<lparr>guards := guard_of ReleaseEvent (obj r) @ guards ?w\<rparr>)"
      by (rule guarded_step [OF assms(1), where u = "[(?a, r)]"]) (use that in \<open>auto simp: gain_other same_tables_def\<close>)
  qed simp
  show "E (ret r) ?w" if "ret r \<noteq> CL_SUCCESS"
  proof (rule assms(3) [OF that])
    show "guarded w0 (A @ [?a]) ?w"
      by (rule guarded_step [OF assms(1), where u = "[(?a, r)]" and g = "[]"])
        (use that in \<open>auto simp: gain_other same_tables_def\<close>)
  qed
qed

lemma guarded_CreateUserEvent:
  assumes "guarded w0 A w"
    and "\<And>r w'. ret r = CL_SUCCESS \<Longrightarrow> guarded w0 A w' \<Longrightarrow>
      guards w' = guard_of ReleaseEvent (created r) @ guards w \<Longrightarrow> wp Z (f r) Q E w'"
    and "\<And>e w'. e \<noteq> CL_SUCCESS \<Longrightarrow> guarded w0 A w' \<Longrightarrow> E e w'"
  shows "wp Z (andThen (call v (CreateUserEvent C)) (\<lambda>r. andThen (own_obj ReleaseEvent (created r)) (\<lambda>_.
     andThen (OCL_ASSERT (ret r)) (\<lambda>_. f r)))) Q E w"
proof (rule wp_andThen, rule wp_call, rule wp_andThen, rule wp_own_obj, rule wp_andThen)
  fix r
  let ?w = "w\<lparr>calls := calls w @ [(CreateUserEvent C, r)]\<rparr>"
  let ?w' = "?w\<lparr>guards := guard_of ReleaseEvent (created r) @ guards ?w\<rparr>"
  have "guarded w0 A ?w'"
    by (rule guarded_step [OF assms(1), where u = "[(CreateUserEvent C, r)]" and B = "[]", simplified])
      (auto simp: gain_other created_def same_tables_def)
  then show "wp Z (OCL_ASSERT (ret r)) (\<lambda>_. wp Z (f r) Q E) E ?w'"
    using assms(2,3) by (intro wp_OCL_ASSERT) auto
qed

section \<open>Filing and starting the launch\<close>

lemma set_unguard_trans: "set g' \<subseteq> set g \<Longrightarrow> set (unguard R h g') \<subseteq> set g"
  using set_unguard by fastforce

text \<open>The launch takes its references over from the guards.\<close>

lemma take_over:
  fixes Work g
  defines "g' \<equiv> unguard ReleaseKernel (cb_Kernel Work) (unguard ReleaseMemObject (DeviceHeader Work)
     (unguard ReleaseMemObject (LocalBuffer Work) (unguard ReleaseMemObject (PrivateBuffer Work)
       (unguard ReleaseEvent (snd (PrevWork Work)) g))))"
  assumes "fst (PrevWork Work) = NULL" and le: "\<And>b. pending (work_refs Work) b \<le> pending g b"
  shows "pending g' b = pending g b - pending (work_refs Work) b + event_ref (Final Work) b" and "set g' \<subseteq> set g"
proof -
  let ?p = "\<lambda>R h. pending (guard_of R h)"
  have refs: "pending (work_refs Work) b = ?p ReleaseEvent (Final Work) b + ?p ReleaseEvent (snd (PrevWork Work)) b
     + ?p ReleaseMemObject (PrivateBuffer Work) b + ?p ReleaseMemObject (LocalBuffer Work) b
     + ?p ReleaseMemObject (DeviceHeader Work) b + ?p ReleaseKernel (cb_Kernel Work) b" for b
    using assms(2) by (simp add: work_refs_def)
  define g1 where "g1 = unguard ReleaseEvent (snd (PrevWork Work)) g"
  define g2 where "g2 = unguard ReleaseMemObject (PrivateBuffer Work) g1"
  define g3 where "g3 = unguard ReleaseMemObject (LocalBuffer Work) g2"
  define g4 where "g4 = unguard ReleaseMemObject (DeviceHeader Work) g3"
  have p1: "pending g1 b = pending g b - ?p ReleaseEvent (snd (PrevWork Work)) b" for b
    unfolding g1_def by (rule pending_unguard) (smt (verit) le refs pending_nonneg)
  have p2: "pending g2 b = pending g1 b - ?p ReleaseMemObject (PrivateBuffer Work) b" for b
    unfolding g2_def by (rule pending_unguard) (smt (verit) le refs p1 pending_nonneg)
  have p3: "pending g3 b = pending g2 b - ?p ReleaseMemObject (LocalBuffer Work) b" for b
    unfolding g3_def by (rule pending_unguard) (smt (verit) le refs p1 p2 pending_nonneg)
  have p4: "pending g4 b = pending g3 b - ?p ReleaseMemObject (DeviceHeader Work) b" for b
    unfolding g4_def by (rule pending_unguard) (smt (verit) le refs p1 p2 p3 pending_nonneg)
  have p5: "pending g' b = pending g4 b - ?p ReleaseKernel (cb_Kernel Work) b" for b
    unfolding g'_def g1_def [symmetric] g2_def [symmetric] g3_def [symmetric] g4_def [symmetric]
    by (rule pending_unguard) (smt (verit) le refs p1 p2 p3 p4 pending_nonneg)
  show "pending g' b = pending g b - pending (work_refs Work) b + event_ref (Final Work) b"
    by (simp add: p1 p2 p3 p4 p5 refs)
  show "set g' \<subseteq> set g" unfolding g'_def by (intro set_unguard_trans order_refl)
qed

lemma wp_file_work [vc]:
  "Q (serial w) (w\<lparr>serial := Suc (serial w), works := (works w)(serial w \<mapsto> Work)\<rparr>) \<Longrightarrow>
     wp Z (file_work Work) Q E w"
  unfolding file_work_def by (intro vc) simp

lemma andThen_file_work:
  "andThen (file_work Work) f w =
     f (serial w) (w\<lparr>serial := Suc (serial w), works := (works w)(serial w \<mapsto> Work)\<rparr>)"
  by (simp add: file_work_def andThen_def next_serial_def modify_def return_def)

lemma wp_delete_on_error:
  "wp Z m Q (\<lambda>e w'. (works w' wid = None \<longrightarrow> Z) \<and> (\<forall>W. works w' wid = Some W \<longrightarrow>
      E e (w'\<lparr>works := (works w')(wid := None), calls := run_calls v (work_refs W) (calls w')\<rparr>))) w \<Longrightarrow>
   wp Z (delete_on_error v wid m) Q E w"
  unfolding delete_on_error_def
  by (rule wp_catch, erule wp_weaken, assumption) (intro vc, simp_all)

text \<open>
  The first run and the marker. On success the launch holds the run's event, the callback
  the read-back event, the application the marker's event. If the marker fails, the launch
  is deleted although the callback on the read-back event is registered.
\<close>

text \<open>An event the program made the vendor call back on, or none.\<close>

definition expects :: "trace \<Rightarrow> handle \<Rightarrow> bool" where
  "expects u d \<longleftrightarrow> d = NULL \<or> (\<exists>n. SetResumeCallback d n \<in> set (made u))"

lemma expects_NULL [simp]: "expects u NULL"
  by (simp add: expects_def)

lemma expects_append: "expects u d \<Longrightarrow> expects (t @ u) d" "expects u d \<Longrightarrow> expects (u @ t) d"
  by (auto simp: expects_def)

lemma expects_Cons: "expects u d \<Longrightarrow> expects (x # u) d"
  by (auto simp: expects_def)

lemma expects_acts: "SetResumeCallback d n \<in> set (acts u) \<Longrightarrow> expects u d"
  by (auto simp: expects_def)

lemma wp_start_run:
  assumes w: "works w wid = Some Work" and prev: "fst (PrevWork Work) = NULL" and sound: "Z \<or> sound_vendor v"
    and ok: "\<And>u Run Read r w'. ret r = CL_SUCCESS \<Longrightarrow>
      stepped w u ((works w)(wid \<mapsto> Work\<lparr>PrevWork := (Run, snd (PrevWork Work))\<rparr>)) w' \<Longrightarrow>
      acts u = [Enqueue (run_command Work) (cb_Queue Work) ws True,
        Enqueue (read_command Work) (cb_Queue Work) [Run] True, SetResumeCallback Read wid,
        Enqueue Marker Queue [Final Work] Event] \<Longrightarrow>
      (\<And>b. owed u b = event_ref Run b + event_ref Read b + (if Event then event_ref (obj r) b else 0)) \<Longrightarrow> Q r w'"
    and err: "\<And>e u d w'. e \<noteq> CL_SUCCESS \<Longrightarrow> stepped w u ((works w)(wid := None)) w' \<Longrightarrow> settles u = [] \<Longrightarrow>
      expects u d \<Longrightarrow> (\<And>b. owed u b = event_ref d b - pending (work_refs Work) b) \<Longrightarrow> E e w'"
  shows "wp Z (delete_on_error v wid (andThen (MetaEnqueue v wid ws) (\<lambda>_.
     call_ok v (Enqueue Marker Queue [Final Work] Event)))) Q E w"
proof (rule wp_delete_on_error, rule wp_andThen, rule wp_weaken [OF post_MetaEnqueue [OF w sound]], goal_cases)
  case (1 x w1)
  then obtain u Run Read where
    st: "stepped w u (with_prev w wid Work (Run, snd (PrevWork Work))) w1" and
    a: "acts u = [Enqueue (run_command Work) (cb_Queue Work) ws True,
          Enqueue (read_command Work) (cb_Queue Work) [Run] True, SetResumeCallback Read wid]" and
    o: "\<forall>b. owed u b = event_ref Run b + event_ref Read b" by blast
  let ?W = "Work\<lparr>PrevWork := (Run, snd (PrevWork Work))\<rparr>"
  let ?m = "Enqueue Marker Queue [Final Work] Event"
  have refs: "pending (work_refs ?W) b = pending (work_refs Work) b + event_ref Run b" for b
    using prev by (simp add: work_refs_def)
  have s: "settles u = []"
    using a by (metis (no_types, lifting) filter.simps(1,2) filter_filter is_act.simps is_settle.elims(2)
        is_settle.simps filter_cong)
  have ex: "expects u Read" by (rule expects_acts [of _ wid]) (simp add: a)
  show ?case
  proof (rule wp_call_ok, goal_cases)
    case (1 r)
    have "Q r (w1\<lparr>calls := calls w1 @ [(?m, r)]\<rparr>)"
      by (rule ok [OF 1, where u = "u @ [(?m, r)]"]) (use st a o 1 in \<open>auto simp: stepped_def gain_other\<close>)
    then show ?case .
  next
    case (2 r)
    let ?t = "replies v (work_refs ?W) (calls w1 @ [(?m, r)])"
    have "E (ret r) (w1\<lparr>works := (works w1)(wid := None), calls := run_calls v (work_refs ?W) (calls w1 @ [(?m, r)])\<rparr>)"
      by (rule err [OF 2, where u = "u @ (?m, r) # ?t" and d = Read])
        (use st s o 2 refs ex in \<open>auto simp: stepped_def gain_other entry_refs_release expects_append\<close>)
    then show ?case using st by (auto simp: stepped_def)
  qed
next
  case (2 e w1)
  have "E e (w1\<lparr>works := (works w1)(wid := None), calls := run_calls v (work_refs W) (calls w1)\<rparr>)"
    if "stepped w u ((works w)(wid \<mapsto> W)) w1" "settles u = []"
      "\<And>b. owed u b = pending (work_refs W) b - pending (work_refs Work) b" for u W
    by (rule err [where u = "u @ replies v (work_refs W) (calls w1)" and d = NULL])
      (use 2 that in \<open>auto simp: stepped_def entry_refs_release\<close>)
  note E = this
  from 2 consider u where "stepped w u (works w) w1" "settles u = []" "\<forall>b. owed u b = 0"
    | u Run where "stepped w u (with_prev w wid Work (Run, snd (PrevWork Work))) w1" "settles u = []"
        "\<forall>b. owed u b = event_ref Run b" by blast
  then show ?case
  proof cases
    case 1
    then show ?thesis using E [of u Work] w by (auto simp: stepped_def fun_upd_idem)
  next
    case (2 u Run)
    then show ?thesis
      using E [of u "Work\<lparr>PrevWork := (Run, snd (PrevWork Work))\<rparr>"] prev
      by (auto simp: stepped_def work_refs_def)
  qed
qed

text \<open>
  What \<open>RunLaunch\<close> leaves: the launch \<open>Work\<close> filed under the next number, its first run,
  read-back, callback and marker enqueued, and every reference in its place: what was taken
  beyond the guards belongs to the launch, the callback (\<open>Read\<close>), the application (the
  marker's event) or the queue (the new task blocker, in exchange for the old one).
\<close>

definition swapped :: "handle \<Rightarrow> QueueInfo \<Rightarrow> handle \<Rightarrow> runtime \<Rightarrow> handle \<rightharpoonup> QueueInfo" where
  "swapped Queue QI e w =
     (if ShallReorder QI then (QT w)(Queue \<mapsto> QI\<lparr>TaskBlocker := e\<rparr>) else QT w)"

definition launched ::
  "handle \<Rightarrow> QueueInfo \<Rightarrow> CallbackData \<Rightarrow> handle list \<Rightarrow> bool \<Rightarrow> runtime \<Rightarrow> api list \<Rightarrow> cl_int \<times> handle \<Rightarrow> runtime \<Rightarrow> bool" where
  "launched Queue QI Work ws Event w A x w' \<longleftrightarrow> (\<exists>u Run Read m.
     calls w' = calls w @ u \<and> x = (CL_SUCCESS, if Event then m else NULL) \<and>
     acts u = A @ [Enqueue (run_command Work) (cb_Queue Work) ws True,
        Enqueue (read_command Work) (cb_Queue Work) [Run] True, SetResumeCallback Read (serial w),
        Enqueue Marker Queue [Final Work] Event] \<and>
     works w' = (works w)(serial w \<mapsto> Work\<lparr>PrevWork := (Run, snd (PrevWork Work))\<rparr>) \<and>
     QT w' = swapped Queue QI (Final Work) w \<and> PT w' = PT w \<and> KT w' = KT w \<and>
     serial w' = Suc (serial w) \<and> prio w' = prio w \<and> LogLevel w' = LogLevel w \<and>
     (\<forall>a \<in> set (guards w'). is_release a) \<and>
     (\<forall>b. owed u b = pending (guards w') b - pending (guards w) b + pending (work_refs Work) b + event_ref Run b
        + event_ref Read b + event_ref (snd x) b
        + (if ShallReorder QI then event_ref (Final Work) b - event_ref (TaskBlocker QI) b else 0)))"

text \<open>A failed call files nothing; \<open>d\<close> is an event only the callback registered on it will release.\<close>

definition not_launched :: "runtime \<Rightarrow> runtime \<Rightarrow> bool" where
  "not_launched w w' \<longleftrightarrow> (\<exists>u d. calls w' = calls w @ u \<and> settles u = [] \<and> expects u d \<and> works w' = works w \<and>
     serial w \<le> serial w' \<and> QT w' = QT w \<and> PT w' = PT w \<and> KT w' = KT w \<and> prio w' = prio w \<and> LogLevel w' = LogLevel w \<and>
     (\<forall>a \<in> set (guards w'). is_release a) \<and>
     (\<forall>b. owed u b = pending (guards w') b - pending (guards w) b + event_ref d b))"

lemma is_act_settle: "acts u = B \<Longrightarrow> filter is_settle B = [] \<Longrightarrow> settles u = []"
proof -
  have "filter is_settle (filter is_act xs) = filter is_settle xs" for xs
    by (induction xs) (auto elim: is_settle.elims)
  then show "acts u = B \<Longrightarrow> filter is_settle B = [] \<Longrightarrow> settles u = []" by metis
qed

lemma guarded_not_launched: "guarded w0 A w \<Longrightarrow> filter is_settle A = [] \<Longrightarrow> not_launched w0 w"
  unfolding guarded_def not_launched_def same_tables_def
  by (elim conjE exE, rename_tac u, rule_tac x = u in exI, rule_tac x = NULL in exI) (simp add: is_act_settle)

lemma wp_RunLaunch:
  assumes g: "guarded w0 A w" and A: "filter is_settle A = []" and prev: "fst (PrevWork Work) = NULL"
    and le: "\<And>b. pending (work_refs Work) b \<le> pending (guards w) b"
    and qt: "QT w0 Queue = Some QI" and fresh: "works w0 (serial w0) = None" and sound: "Z \<or> sound_vendor v"
    and retain: "Z \<or> (\<forall>t e. ret (v t (RetainEvent e)) = CL_SUCCESS)"
  shows "wp Z (RunLaunch v Queue QI Work ws Event)
    (\<lambda>x w'. launched Queue QI Work ws Event w0 A x w') (\<lambda>e w'. e \<noteq> CL_SUCCESS \<and> not_launched w0 w') w"
proof -
  obtain u0 where w: "same_tables w0 w" "calls w = calls w0 @ u0" "acts u0 = A"
      "\<And>b. owed u0 b = pending (guards w) b - pending (guards w0) b" "\<forall>a \<in> set (guards w). is_release a"
    using g unfolding guarded_def by blast
  define g1 where "g1 = unguard ReleaseKernel (cb_Kernel Work) (unguard ReleaseMemObject (DeviceHeader Work)
     (unguard ReleaseMemObject (LocalBuffer Work) (unguard ReleaseMemObject (PrivateBuffer Work)
       (unguard ReleaseEvent (snd (PrevWork Work)) (guards w)))))"
  note g1 = take_over [OF prev le, folded g1_def]
  let ?F = "Final Work"
  define r where "r = v (calls w) (RetainEvent ?F)"
  define w1 where "w1 = w\<lparr>calls := calls w @ [(RetainEvent ?F, r)], guards := g1, serial := Suc (serial w),
     works := (works w)(serial w \<mapsto> Work)\<rparr>"
  let ?L = "launched Queue QI Work ws Event w0 A" and ?N = "\<lambda>e w'. e \<noteq> CL_SUCCESS \<and> not_launched w0 w'"
  have rel: "\<forall>a \<in> set g1. is_release a" using g1(2) w(5) by blast
  have main: "wp Z (delete_on_error v (serial w) (andThen (MetaEnqueue v (serial w) ws)
        (\<lambda>_. call_ok v (Enqueue Marker Queue [?F] Event))))
      (\<lambda>marker. wp Z (andThen (if ShallReorder QI then swap_blocker Queue ?F else return ())
        (\<lambda>_. return (CL_SUCCESS, if Event then obj marker else NULL))) ?L ?N) ?N w1"
    if "ret r = CL_SUCCESS"
  proof (rule wp_start_run [where Work = Work])
    have o: "gain (RetainEvent ?F) r b = event_ref ?F b" for b using that by (simp add: gain_other)
    show "works w1 (serial w) = Some Work" by (simp add: w1_def)
    fix u
    {
      fix Run Read m w'
      assume st: "stepped w1 u ((works w1)(serial w \<mapsto> Work\<lparr>PrevWork := (Run, snd (PrevWork Work))\<rparr>)) w'"
        and a: "acts u = [Enqueue (run_command Work) (cb_Queue Work) ws True,
          Enqueue (read_command Work) (cb_Queue Work) [Run] True, SetResumeCallback Read (serial w),
          Enqueue Marker Queue [?F] Event]"
        and ou: "\<And>b. owed u b = event_ref Run b + event_ref Read b + (if Event then event_ref (obj m) b else 0)"
      let ?u = "u0 @ (RetainEvent ?F, r) # u"
      have c: "calls w' = calls w0 @ ?u" "acts ?u = A @ acts u"
        using st w(2,3) by (simp_all add: stepped_def w1_def)
      have frame: "works w' = (works w0)(serial w0 \<mapsto> Work\<lparr>PrevWork := (Run, snd (PrevWork Work))\<rparr>)"
          "QT w' = QT w0" "PT w' = PT w0" "KT w' = KT w0" "serial w' = Suc (serial w0)" "prio w' = prio w0"
          "LogLevel w' = LogLevel w0" "guards w' = g1" "serial w = serial w0"
        using st w(1) by (simp_all add: stepped_def w1_def same_tables_def)
      have F: "event_ref ?F b \<le> pending g1 b" for b
        using g1(1) [of b] le [of b] by simp
      show "wp Z (andThen (if ShallReorder QI then swap_blocker Queue ?F else return ())
        (\<lambda>_. return (CL_SUCCESS, if Event then obj m else NULL))) ?L ?N w'"
      proof (cases "ShallReorder QI")
        case True
        then show ?thesis
          apply (simp only: if_True)
          apply (rule wp_andThen, rule wp_swap_blocker [where QI = QI])
           apply (simp add: frame qt)
          apply (rule wp_return)
          unfolding launched_def swapped_def
          apply (rule exI [of _ ?u], rule exI [of _ Run], rule exI [of _ Read], rule exI [of _ "obj m"])
          using c a frame rel set_unguard
          apply (auto simp: o ou w(4) g1(1) pending_unguard [OF F])
          done
      next
        case False
        then show ?thesis
          apply (simp only: if_False)
          apply (intro wp_andThen wp_return)
          unfolding launched_def swapped_def
          apply (rule exI [of _ ?u], rule exI [of _ Run], rule exI [of _ Read], rule exI [of _ "obj m"])
          using c a frame rel
          apply (auto simp: o ou w(4) g1(1))
          done
      qed
    next
      fix e d w'
      assume "e \<noteq> CL_SUCCESS" and st: "stepped w1 u ((works w1)(serial w := None)) w'" and s: "settles u = []" and ex: "expects u d"
        and ou: "\<And>b. owed u b = event_ref d b - pending (work_refs Work) b"
      let ?u = "u0 @ (RetainEvent ?F, r) # u"
      have "not_launched w0 w'"
        unfolding not_launched_def
        apply (rule exI [of _ ?u], rule exI [of _ d])
        using st s w rel fresh is_act_settle [OF w(3) A] expects_append(1) [OF expects_Cons [OF ex]]
        apply (auto simp: stepped_def w1_def same_tables_def o ou w(4) g1(1) fun_upd_idem)
        done
      then show "?N e w'" using \<open>e \<noteq> CL_SUCCESS\<close> by simp
    }
  qed (use prev sound in auto)
  have "RunLaunch v Queue QI Work ws Event w =
     (if ret r = CL_SUCCESS
      then andThen (delete_on_error v (serial w) (andThen (MetaEnqueue v (serial w) ws)
          (\<lambda>_. call_ok v (Enqueue Marker Queue [?F] Event))))
        (\<lambda>marker. andThen (if ShallReorder QI then swap_blocker Queue ?F else return ())
          (\<lambda>_. return (CL_SUCCESS, if Event then obj marker else NULL))) w1
      else (Abort, w\<lparr>calls := calls w @ [(RetainEvent ?F, r)]\<rparr>))"
    by (simp only: RunLaunch_def andThen_call andThen_INTER_ASSERT andThen_disown_obj andThen_file_work)
      (simp add: r_def w1_def g1_def)
  moreover have "ret r = CL_SUCCESS \<or> Z" using retain by (auto simp: r_def)
  ultimately show ?thesis using wp_andThen [OF main] by (auto simp: wp_def)
qed

section \<open>The whole launch\<close>

text \<open>The launch that is filed: all its fields but the objects created on the way are determined.\<close>

definition launch_for ::
  "QueueInfo \<Rightarrow> handle \<Rightarrow> KernelInfo \<Rightarrow> KernelProfile \<Rightarrow> handle \<Rightarrow> nat \<Rightarrow> nat list \<Rightarrow> nat list \<Rightarrow> nat list
     \<Rightarrow> nat \<Rightarrow> nat \<Rightarrow> CallbackData \<Rightarrow> bool" where
  "launch_for QI K KI Prof Kernel dim gwo gws lws NumOfThread NumOfWorkGrp W \<longleftrightarrow>
     cb_Queue W = ShadowQueue QI \<and> cb_Kernel W = Kernel \<and> KInfo W = (K, k_serial KI) \<and> WorkDim W = dim \<and>
     GWO W = gwo \<and> GWS W = gws \<and> LWS W = lws \<and> WorkGrpSize W = NumOfThread div NumOfWorkGrp \<and>
     HostMetadata W = InitialMetadata (Args KI) (LocPtrParamIdx Prof) NumOfThread \<and>
     HeaderOffset W = length (LocPtrParamIdx Prof) \<and> fst (PrevWork W) = NULL \<and> Counter W = 0 \<and> cb_Bucket W = []"

definition first_write :: "CallbackData \<Rightarrow> api" where
  "first_write W = Enqueue (WriteHost (DeviceHeader W) 0 (HostMetadata W)) (cb_Queue W) [] True"

lemma wp_StartLaunch:
  assumes g: "guards w = guard_of ReleaseKernel Kernel @ g0" and rel: "\<forall>a \<in> set (guards w). is_release a"
    and qt: "QT w Queue = Some QI" and fresh: "works w (serial w) = None" and sound: "Z \<or> sound_vendor v"
    and retain: "Z \<or> (\<forall>t e. ret (v t (RetainEvent e)) = CL_SUCCESS)"
    and log: "Z \<or> \<not> shouldLog w LOG_INFO"
  shows "wp Z (StartLaunch v Queue QI K KI Prof Kernel dim gwo gws lws N G ws Event)
    (\<lambda>x w'. \<exists>W. launch_for QI K KI Prof Kernel dim gwo gws lws N G W \<and>
       launched Queue QI W (ws @ [snd (PrevWork W)] @ blocker_list QI) Event w [first_write W] x w')
    (\<lambda>e w'. e \<noteq> CL_SUCCESS \<and> not_launched w w') w"
proof -
  have g0: "guarded w [] w" using rel by (rule guarded_refl)
  show ?thesis
    unfolding StartLaunch_def Let_def
    apply (rule wp_andThen, rule guarded_LogSizes [OF g0])
     prefer 2 subgoal using log by blast
    apply (rule wp_andThen, rule guarded_MakeBuffer [OF g0])
     prefer 2 subgoal by (simp add: guarded_not_launched)
    apply (rule wp_andThen, rule guarded_MakeBufferIf, assumption)
     prefer 2 subgoal by (simp add: guarded_not_launched)
    apply (rule wp_andThen, rule guarded_MakeBufferIf, assumption)
     prefer 2 subgoal by (simp add: guarded_not_launched)
    apply (rule guarded_Enqueue, assumption)
     prefer 2 subgoal by (simp add: guarded_not_launched)
    apply (rule wp_andThen, rule guarded_SetArgs, assumption)
     prefer 2 subgoal by (simp add: guarded_not_launched)
    apply (rule wp_andThen, rule wp_get)
    apply (rule wp_andThen, rule guarded_SetExtraArgs, assumption)
     prefer 2 subgoal by (simp add: guarded_not_launched)
    apply (rule guarded_CreateUserEvent, assumption)
     prefer 2 subgoal by (simp add: guarded_not_launched)
    subgoal premises prems for M w1 L w2 P w3 Written w4 w5 w6 r w7
    proof -
      let ?W = "\<lparr>cb_Queue = ShadowQueue QI, cb_Kernel = Kernel, KInfo = (K, k_serial KI), WorkDim = dim,
         GWO = gwo, GWS = gws, LWS = lws, WorkGrpSize = N div G, DeviceHeader = M, LocalBuffer = L,
         PrivateBuffer = P, HostMetadata = InitialMetadata (Args KI) (LocPtrParamIdx Prof) N,
         HeaderOffset = length (LocPtrParamIdx Prof), PrevWork = (NULL, obj Written), Final = created r,
         Counter = 0, cb_Bucket = []\<rparr>"
      have "guarded w [first_write ?W] w7" using prems(14) by (simp add: first_write_def)
      moreover have "pending (work_refs ?W) b \<le> pending (guards w7) b" for b
        using prems(2,4,6,8,10,12,15) g by (simp add: work_refs_def)
      ultimately have run: "wp Z (RunLaunch v Queue QI ?W (ws @ [obj Written] @ blocker_list QI) Event)
          (\<lambda>x w'. launched Queue QI ?W (ws @ [obj Written] @ blocker_list QI) Event w [first_write ?W] x w')
          (\<lambda>e w'. e \<noteq> CL_SUCCESS \<and> not_launched w w') w7"
        by (intro wp_RunLaunch qt fresh sound retain) (simp_all add: first_write_def)
      have "launch_for QI K KI Prof Kernel dim gwo gws lws N G ?W" by (simp add: launch_for_def)
      then show ?thesis by (intro wp_weaken [OF run]) (auto intro!: exI [of _ ?W])
    qed
    done
qed

end
