(* ===== verification/KernelLaunch.thy ===== *)
theory KernelLaunch
  imports Guarded
begin

text \<open>
  \<open>clEnqueueNDRangeKernel\<close> of a low priority process as a whole: the geometry it computes,
  what a successful call files and enqueues, what a failed one leaves alone, and, together
  with the callback of \<open>Launch\<close>, that a launched kernel runs to completion.
\<close>

section \<open>The geometry\<close>

lemma prod_list_pos: "\<forall>x \<in> set xs. 0 < x \<Longrightarrow> 0 < prod_list (xs :: nat list)"
  by (induction xs) auto

lemma wrap64_id: "n < 2 ^ 64 \<Longrightarrow> wrap64 n = n"
  by (simp add: wrap64_def)

text \<open>Without overflow the loop computes the numbers of work-items and of work-groups.\<close>

lemma Geometry_Ok:
  assumes "Geometry gs ls n g = Ok (N, G)" and "length ls = length gs" and "\<forall>x \<in> set gs. 0 < x"
    and "n * prod_list gs < 2 ^ 64" and "g \<le> n"
  shows "list_all2 (\<lambda>l x. 0 < l \<and> l dvd x) ls gs \<and> N = n * prod_list gs \<and> G * prod_list ls = g * prod_list gs"
  using assms
proof (induction gs ls n g rule: Geometry.induct)
  case (1 x gs l ls n g)
  have l: "0 < l" "l dvd x"
    using "1.prems"(1) by (auto split: if_splits)
  have "0 < prod_list gs" using "1.prems"(3) by (simp add: prod_list_pos)
  have nx: "n * x < 2 ^ 64"
  proof -
    have "n * x * 1 \<le> n * x * prod_list gs" using \<open>0 < prod_list gs\<close> by (intro mult_le_mono2) simp
    also have "\<dots> = n * prod_list (x # gs)" by (simp add: mult.assoc)
    finally show ?thesis using "1.prems"(4) by linarith
  qed
  have gx: "g * (x div l) \<le> n * x" using "1.prems"(5) by (intro mult_le_mono) simp_all
  have "Geometry gs ls (n * x) (g * (x div l)) = Ok (N, G)"
    using "1.prems"(1) l nx gx by (simp add: wrap64_id split: if_splits)
  then have "list_all2 (\<lambda>l x. 0 < l \<and> l dvd x) ls gs \<and> N = n * x * prod_list gs \<and>
      G * prod_list ls = g * (x div l) * prod_list gs"
    using "1.IH" [of] "1.prems" l nx gx by (simp add: wrap64_id mult.assoc)
  then show ?case using l by (auto simp: mult.assoc mult.left_commute dvd_div_mult_self)
qed auto

lemma Geometry_sizes:
  assumes "Geometry gs ls 1 1 = Ok (N, G)" and "length ls = length gs" and "\<forall>x \<in> set gs. 0 < x"
    and "prod_list gs < 2 ^ 64"
  shows "N = prod_list gs" "N div G = prod_list ls" "0 < prod_list ls" "prod_list ls dvd N" "0 < G"
proof -
  have all: "list_all2 (\<lambda>l x. 0 < l \<and> l dvd x) ls gs" and N: "N = prod_list gs" and G: "G * prod_list ls = prod_list gs"
    using Geometry_Ok [OF assms(1-3)] assms(4) by auto
  have ls: "0 < prod_list ls" using all by (intro prod_list_pos) (auto simp: list_all2_conv_all_nth in_set_conv_nth)
  have gs: "0 < prod_list gs" using assms(3) by (simp add: prod_list_pos)
  then show "N = prod_list gs" "0 < prod_list ls" "0 < G" using N ls G by (auto intro: Nat.gr0I)
  then show "N div G = prod_list ls" "prod_list ls dvd N" using G N by (metis div_mult_self1_is_m dvd_triv_right)+
qed

lemma Ok_FindWorkGroupSize_length: "FindWorkGroupSize D L dim ws = Ok lws \<Longrightarrow> length lws = dim"
  unfolding FindWorkGroupSize_def Let_def
  by (auto simp: pick_def try_ok_def split: if_splits dest: list_all2_lengthD)

lemma TryLoop_no_throw: "TryLoop fs M ts ms s \<noteq> Throw e"
proof (induction fs M ts ms s rule: TryLoop.induct)
  case (1 fs M ts ms s)
  then show ?case
    by (subst TryLoop.simps) (auto simp: Let_def split: prod.split bool.split)
qed

lemma FindWorkGroupSize_Throw: "FindWorkGroupSize D L dim ws = Throw e \<Longrightarrow> e \<noteq> CL_SUCCESS"
  unfolding FindWorkGroupSize_def Let_def
  using TryLoop_no_throw
  by (auto split: if_splits elim!: bindO.elims)

lemma Geometry_Throw: "Geometry gs ls n g = Throw e \<Longrightarrow> e = CL_INVALID_WORK_GROUP_SIZE"
  by (induction gs ls n g rule: Geometry.induct) (auto split: if_splits)

section \<open>Preparation\<close>

text \<open>
  The kernel object \<open>Kernel\<close> was taken from the pool of the kernel table or created, and
  belongs to the youngest guard; nothing was enqueued.
\<close>

definition prepared :: "runtime \<Rightarrow> handle \<Rightarrow> KernelInfo \<Rightarrow> handle \<Rightarrow> runtime \<Rightarrow> bool" where
  "prepared w K KI Kernel w' \<longleftrightarrow> (\<exists>pool u.
     calls w' = calls w @ u \<and> acts u = [] \<and> KT w' = (KT w)(K \<mapsto> KI\<lparr>Pool := pool\<rparr>) \<and>
     QT w' = QT w \<and> PT w' = PT w \<and> works w' = works w \<and> serial w' = serial w \<and> prio w' = prio w \<and>
     LogLevel w' = LogLevel w \<and> guards w' = guard_of ReleaseKernel Kernel @ guards w \<and>
     (\<forall>b. owed u b + pending (kernel_refs KI) b - pending (kernel_refs (KI\<lparr>Pool := pool\<rparr>)) b =
        pending (guard_of ReleaseKernel Kernel) b))"

text \<open>A failure before the launch is filed.\<close>

definition untouched :: "runtime \<Rightarrow> runtime \<Rightarrow> bool" where
  "untouched w w' \<longleftrightarrow> works w' = works w \<and> QT w' = QT w \<and> PT w' = PT w \<and> prio w' = prio w \<and>
     dom (KT w') = dom (KT w) \<and> (\<forall>a \<in> set (guards w'). is_release a) \<and>
     serial w \<le> serial w' \<and>
     (\<exists>u d. calls w' = calls w @ u \<and> settles u = [] \<and> expects u d \<and>
        (finite_tables w \<longrightarrow> (\<forall>b. surplus w' b = surplus w b + event_ref d b)))"

lemma kernel_refs_pool:
  "Pool KI \<noteq> [] \<Longrightarrow> pending (kernel_refs KI) b =
     pending (kernel_refs (KI\<lparr>Pool := butlast (Pool KI)\<rparr>)) b + pending (guard_of ReleaseKernel (last (Pool KI))) b"
  by (cases "Pool KI" rule: rev_cases) (simp_all add: kernel_refs_def)

lemma prepared_untouched:
  assumes "prepared w K KI Kernel w'" and "KT w K = Some KI" and "\<forall>a \<in> set (guards w). is_release a"
  shows "untouched w w'"
proof -
  obtain pool u where p: "calls w' = calls w @ u" "acts u = []" "KT w' = (KT w)(K \<mapsto> KI\<lparr>Pool := pool\<rparr>)"
    "QT w' = QT w" "PT w' = PT w" "works w' = works w" "prio w' = prio w"
    "guards w' = guard_of ReleaseKernel Kernel @ guards w" "serial w' = serial w"
    "\<forall>b. owed u b + pending (kernel_refs KI) b - pending (kernel_refs (KI\<lparr>Pool := pool\<rparr>)) b =
        pending (guard_of ReleaseKernel Kernel) b"
    using assms(1) unfolding prepared_def by blast
  have "surplus w' b = surplus w b" if "finite_tables w" for b
    using p(10) that assms(2) by (auto simp: surplus_def held_def p(1,3,4,5,6,8) finite_tables_def algebra_simps)
  then show ?thesis
    using p assms settles_acts [OF p(2)] by (auto simp: untouched_def intro!: exI [of _ NULL])
qed

lemma untouched_not_launched:
  assumes "prepared w K KI Kernel w1" and "KT w K = Some KI" and "\<forall>a \<in> set (guards w). is_release a"
    and "not_launched w1 w'"
  shows "untouched w w'"
proof -
  obtain u d where n: "calls w' = calls w1 @ u" "settles u = []" "works w' = works w1" "QT w' = QT w1"
    "PT w' = PT w1" "KT w' = KT w1" "prio w' = prio w1" "\<forall>a \<in> set (guards w'). is_release a"
    "\<forall>b. owed u b = pending (guards w') b - pending (guards w1) b + event_ref d b" "expects u d" "serial w1 \<le> serial w'"
    using assms(4) by (auto simp: not_launched_def)
  have u1: "untouched w w1" using assms(1-3) by (rule prepared_untouched)
  have s: "surplus w' b = surplus w1 b + event_ref d b" for b
    using n(9) by (simp add: surplus_def held_def n(1,3,4,5,6))
  obtain t where t: "calls w1 = calls w @ t" "settles t = []" using u1 by (auto simp: untouched_def)
  have "surplus w1 b = surplus w b" if "finite_tables w" for b
    using assms(1,2) that unfolding prepared_def
    by (auto simp: surplus_def held_def finite_tables_def algebra_simps)
  then have "calls w' = calls w @ (t @ u) \<and> settles (t @ u) = [] \<and> expects (t @ u) d \<and>
      (finite_tables w \<longrightarrow> (\<forall>b. surplus w' b = surplus w b + event_ref d b))"
    using n(1,2,10) t s by (simp add: expects_append)
  then have "\<exists>u d. calls w' = calls w @ u \<and> settles u = [] \<and> expects u d \<and>
      (finite_tables w \<longrightarrow> (\<forall>b. surplus w' b = surplus w b + event_ref d b))" by blast
  then show ?thesis
    using u1 n(3-8,11) by (simp add: untouched_def)
qed

lemma wp_TakeKernel:
  assumes "KT w K = Some KI"
  shows "wp Z (TakeKernel v K KI Prof) (\<lambda>x w'. prepared w K KI x w')
     (\<lambda>e w'. e \<noteq> CL_SUCCESS \<and> (\<exists>u. w' = w\<lparr>calls := calls w @ u\<rparr> \<and> acts u = [] \<and> owed u = none)) w"
proof (cases "Pool KI = []")
  case True
  have same: "(KT w)(K \<mapsto> KI\<lparr>Pool := []\<rparr>) = KT w" "kernel_refs (KI\<lparr>Pool := []\<rparr>) = kernel_refs KI"
    using True assms by (auto simp: fun_eq_iff kernel_refs_def)
  let ?a = "CreateKernel (k_Program KI) (Name Prof)"
  have "prepared w K KI (obj r) (w\<lparr>calls := calls w @ [(?a, r)], guards := guard_of ReleaseKernel (obj r) @ guards w\<rparr>)"
    if "ret r = CL_SUCCESS" for r
    unfolding prepared_def
    by (rule exI [of _ "[]"], rule exI [of _ "[(?a, r)]"]) (simp add: same that gains)
  moreover have "\<exists>u. w\<lparr>calls := calls w @ [(?a, r)]\<rparr> = w\<lparr>calls := calls w @ u\<rparr> \<and> acts u = [] \<and> owed u = none"
    if "ret r \<noteq> CL_SUCCESS" for r
    by (rule exI [of _ "[(?a, r)]"]) (use that in \<open>simp add: gains fun_eq_iff\<close>)
  ultimately show ?thesis
    unfolding TakeKernel_def using True
    apply (simp only: simp_thms if_False)
    apply (intro wp_andThen wp_call_ok wp_own_obj wp_return)
     apply simp_all
    done
next
  case False
  then show ?thesis
    unfolding TakeKernel_def
    apply simp
    apply (intro vc)
    apply (auto simp: prepared_def kernel_refs_pool intro!: exI [of _ "butlast (Pool KI)"])
    done
qed

lemma prepared_call:
  assumes "prepared w K KI Kernel w1" and "\<And>r. gain a r = none" and "\<not> is_act a"
  shows "prepared w K KI Kernel (w1\<lparr>calls := calls w1 @ [(a, r)]\<rparr>)"
  using assms(1) unfolding prepared_def
  by (elim exE, rename_tac pool u, rule_tac x = pool in exI, rule_tac x = "u @ [(a, r)]" in exI)
    (simp add: assms(2,3))

section \<open>The low priority branch\<close>

text \<open>
  A successful call: the arguments passed every check, the geometry was computed, and from
  the prepared state \<open>w1\<close> the launch \<open>W\<close> was filed and started.
\<close>

definition enqueued ::
  "handle \<Rightarrow> handle \<Rightarrow> nat \<Rightarrow> nat list option \<Rightarrow> nat list option \<Rightarrow> nat list option \<Rightarrow> nat
     \<Rightarrow> handle list option \<Rightarrow> bool \<Rightarrow> runtime \<Rightarrow> cl_int \<times> handle \<Rightarrow> runtime \<Rightarrow> QueueInfo \<Rightarrow> KernelInfo
     \<Rightarrow> KernelProfile \<Rightarrow> nat list \<Rightarrow> nat \<Rightarrow> nat \<Rightarrow> CallbackData \<Rightarrow> runtime \<Rightarrow> bool" where
  "enqueued Queue K dim gwo gws lws n wl Event w x w' QI KI Prof ls N G W w1 \<longleftrightarrow>
     QT w Queue = Some QI \<and> KT w K = Some KI \<and> deref_profile w (Profile KI) = Some Prof \<and>
     k_Context KI = q_Context QI \<and> \<not> bad_wait_list wl n \<and> 0 < dim \<and>
     (\<exists>sizes. gws = Some sizes \<and> (\<forall>s \<in> set (take dim sizes). 0 < s) \<and>
        Geometry (take dim sizes) ls 1 1 = Ok (N, G) \<and> 0 < G \<and>
        (\<exists>Kernel. prepared w K KI Kernel w1 \<and>
           launch_for QI K KI Prof Kernel dim (case gwo of None \<Rightarrow> replicate dim 0 | Some o' \<Rightarrow> take dim o')
             (take dim sizes) ls N G W)) \<and>
     (case lws of None \<Rightarrow> length ls = dim | Some l \<Rightarrow> ls = take dim l) \<and>
     launched Queue QI W (wait_list wl n @ [snd (PrevWork W)] @ blocker_list QI) Event w1 [first_write W] x w'"

lemma prepared_simps:
  assumes "prepared w K KI Kernel w1"
  shows "QT w1 = QT w" "works w1 = works w" "serial w1 = serial w" "guards w1 = guard_of ReleaseKernel Kernel @ guards w"
  using assms by (auto simp: prepared_def)

lemma wp_ChooseLWS:
  assumes "prepared w K KI Kernel w1"
    and "\<And>ls w'. prepared w K KI Kernel w' \<Longrightarrow> (case lws of None \<Rightarrow> length ls = dim | Some l \<Rightarrow> ls = take dim l) \<Longrightarrow> Q ls w'"
    and "\<And>e w'. e \<noteq> CL_SUCCESS \<Longrightarrow> prepared w K KI Kernel w' \<Longrightarrow> E e w'"
  shows "wp True (ChooseLWS v Kn D dim MaxDim gs lws) Q E w1"
proof (cases lws)
  case None
  have lift: "wp True (lift y) Q E w'"
    if "prepared w K KI Kernel w'" "\<And>ls. y = Ok ls \<Longrightarrow> length ls = dim" "\<And>e. y = Throw e \<Longrightarrow> e \<noteq> CL_SUCCESS" for y w'
    using assms(2) [OF that(1)] assms(3) [OF _ that(1)] that(2,3) None
    by (cases y) (auto simp: wp_def lift_def)
  note p1 = prepared_call [OF assms(1), of "GetDeviceMaxSizes D MaxDim"]
  note p2 = prepared_call [OF p1, of "GetKernelWorkGroupSize Kn D"]
  show ?thesis
    unfolding ChooseLWS_def None
    apply simp
    apply (intro wp_andThen wp_call_ok)
      apply (rule lift)
       apply (rule p2; simp add: gains fun_eq_iff)
       apply (erule Ok_FindWorkGroupSize_length)
      apply (erule FindWorkGroupSize_Throw)
     apply (erule assms(3), rule p2; simp add: gains fun_eq_iff)
    apply (erule assms(3), rule p1; simp add: gains fun_eq_iff)
    done
next
  case (Some l)
  then show ?thesis unfolding ChooseLWS_def using assms(1,2) by (auto intro: vc)
qed

lemma wp_NDRangeLow:
  assumes rel: "\<forall>a \<in> set (guards w). is_release a" and fresh: "works w (serial w) = None"
  shows "wp True (NDRangeLow v Queue K dim gwo gws lws n wl Event)
     (\<lambda>x w'. (fst x = CL_SUCCESS \<longrightarrow> (\<exists>QI KI Prof ls N G W w1.
          enqueued Queue K dim gwo gws lws n wl Event w x w' QI KI Prof ls N G W w1)) \<and>
        (fst x \<noteq> CL_SUCCESS \<longrightarrow> snd x = NULL \<and> untouched w w'))
     (\<lambda>e w'. e \<noteq> CL_SUCCESS \<and> untouched w w') w"
proof -
  have u0: "untouched w w" using rel by (auto simp: untouched_def intro!: exI [of _ NULL])
  show ?thesis
    unfolding NDRangeLow_def Let_def
    apply (rule wp_andThen, rule wp_get, rule wp_andThen, rule wp_get)
    apply (rule wp_case_option)
     subgoal using u0 by (intro wp_return) (simp add: cl_codes)
    apply (rule wp_case_option)
     subgoal using u0 by (intro wp_return) (simp add: cl_codes)
    apply (rule wp_if)
     subgoal using u0 by (intro wp_return) (simp add: cl_codes)
    apply (rule wp_andThen, rule wp_deref, simp)
    apply (rule wp_if)
     subgoal using u0 by (intro wp_return) (simp add: cl_codes)
    subgoal premises pre for QI KI Prof
    proof (rule wp_andThen, rule wp_weaken [OF wp_TakeKernel [OF pre(2)]], goal_cases)
      case (1 Kernel w1)
      note fail = prepared_untouched [OF _ pre(2) rel]
      show ?case
        apply (rule wp_andThen, rule wp_call_ok)
         prefer 2 subgoal using fail [OF prepared_call [OF 1]] by (simp add: gains fun_eq_iff)
        apply (rule wp_if)
         subgoal using fail [OF prepared_call [OF 1]] by (intro wp_return) (simp add: gains fun_eq_iff cl_codes)
        apply (rule wp_case_option)
         subgoal using fail [OF prepared_call [OF 1]] by (intro wp_return) (simp add: gains fun_eq_iff cl_codes)
        apply (rule wp_if)
         subgoal using fail [OF prepared_call [OF 1]] by (intro wp_return) (simp add: gains fun_eq_iff cl_codes)
        apply (rule wp_andThen, rule wp_ChooseLWS, rule prepared_call [OF 1])
           apply (simp_all add: gains fun_eq_iff fail del: One_nat_def)
        subgoal premises prems for r sizes ls w2
        proof (cases "Geometry (take dim sizes) ls 1 1")
          case (Ok NG)
          obtain N G where NG: "NG = (N, G)" by fastforce
          let ?gwo = "case gwo of None \<Rightarrow> replicate dim 0 | Some x \<Rightarrow> take dim x"
          note w2 = prepared_simps [OF prems(5)]
          have "wp True (StartLaunch v Queue QI K KI Prof Kernel dim ?gwo (take dim sizes) ls N G (wait_list wl n) Event)
             (\<lambda>x w'. \<exists>W. launch_for QI K KI Prof Kernel dim ?gwo (take dim sizes) ls N G W \<and>
               launched Queue QI W (wait_list wl n @ [snd (PrevWork W)] @ blocker_list QI) Event w2 [first_write W] x w')
             (\<lambda>e w'. e \<noteq> CL_SUCCESS \<and> not_launched w2 w') w2"
            by (rule wp_StartLaunch [OF w2(4)]) (use rel fresh pre w2 in auto)
          moreover have "enqueued Queue K dim gwo (Some sizes) lws n wl Event w x w' QI KI Prof ls N G W w2"
            if "launch_for QI K KI Prof Kernel dim ?gwo (take dim sizes) ls N G W"
              "launched Queue QI W (wait_list wl n @ [snd (PrevWork W)] @ blocker_list QI) Event w2 [first_write W] x w'"
              "0 < G" for x w' W
            using pre prems(2-6) that Ok NG unfolding enqueued_def
            by (intro conjI exI [of _ sizes] exI [of _ Kernel]) (simp_all, metis gr0I)
          moreover have "fst x = CL_SUCCESS"
            if "launched Queue QI W ws Event w2 A x w'" for x w' W ws A
            using that by (auto simp: launched_def)
          ultimately show ?thesis
            unfolding Ok NG outcome.case prod.case
            apply (intro wp_if wp_crash TrueI)
            apply (erule wp_weaken)
             apply (metis gr0I)
            using untouched_not_launched [OF prems(5) pre(2) rel]
            apply blast
            done
        next
          case (Throw e)
          then show ?thesis
            using Geometry_Throw [OF Throw] fail [OF prems(5)]
            by (simp only: Throw outcome.case) (intro wp_return, simp add: cl_codes)
        qed (simp_all add: wp_abort wp_crash)
        done
    next
      case (2 e w')
      then show ?case using rel by (auto simp: untouched_def surplus_def held_def settles_acts finite_tables_def intro!: exI [of _ NULL])
    qed
    done
qed

section \<open>The whole function\<close>

definition ndrange_post ::
  "vendor \<Rightarrow> handle \<Rightarrow> handle \<Rightarrow> nat \<Rightarrow> nat list option \<Rightarrow> nat list option \<Rightarrow> nat list option \<Rightarrow> nat
     \<Rightarrow> handle list option \<Rightarrow> bool \<Rightarrow> runtime \<Rightarrow> cl_int \<times> handle \<Rightarrow> runtime \<Rightarrow> bool" where
  "ndrange_post v Queue K dim gwo gws lws n wl Event w x w' \<longleftrightarrow>
     (\<exists>r w1. ret r = CL_SUCCESS \<and> w' = leave v (guards w) w1 \<and>
        (if fst x = CL_SUCCESS
         then \<exists>QI KI Prof ls N G W w2.
           enqueued Queue K dim gwo gws lws n wl Event (in_schedule COMPUTING r w) x w1 QI KI Prof ls N G W w2
         else snd x = NULL \<and> untouched (in_schedule COMPUTING r w) w1))"

lemma wp_clEnqueueNDRangeKernel:
  assumes "prio w = LOW" and "works w (serial w) = None"
  shows "wp True (clEnqueueNDRangeKernel v Queue K dim gwo gws lws n wl Event)
     (ndrange_post v Queue K dim gwo gws lws n wl Event w) (\<lambda>_ _. False) w"
  unfolding clEnqueueNDRangeKernel_def
proof (rule wp_catch, rule wp_scoped, rule wp_andThen, rule wp_Schedule, rule wp_andThen, rule wp_get, goal_cases)
  case (1 r)
  have low: "wp True (NDRangeLow v Queue K dim gwo gws lws n wl Event)
     (\<lambda>x w'. ndrange_post v Queue K dim gwo gws lws n wl Event w x (leave v (guards w) w'))
     (\<lambda>e w'. ndrange_post v Queue K dim gwo gws lws n wl Event w (e, NULL) (leave v (guards w) w'))
     (in_schedule COMPUTING r w)"
  proof (rule wp_weaken [OF wp_NDRangeLow], goal_cases)
    case (3 x w')
    then show ?case
      unfolding ndrange_post_def by (intro exI [of _ r] exI [of _ w']) (use 1 3 in \<open>simp split: if_split\<close>)
  next
    case (4 e w')
    then show ?case
      unfolding ndrange_post_def by (intro exI [of _ r] exI [of _ w']) (use 1 4 in \<open>simp split: if_split\<close>)
  qed (use assms(2) in simp_all)
  show ?case
    using assms(1) by (auto intro!: wp_weaken [OF low] wp_return)
qed simp

text \<open>The balance of a successful call, in two steps: preparation, launch.\<close>

lemma prepared_surplus:
  assumes "prepared w K KI Kernel w1" and "KT w K = Some KI" and "finite_tables w"
  shows "surplus w1 b = surplus w b" and "finite_tables w1"
  using assms unfolding prepared_def
  by (auto simp: surplus_def held_def finite_tables_def algebra_simps)

lemma swapped_refs:
  assumes "QT w q = Some QI" and "finite_tables w"
  shows "table_refs queue_refs (swapped q QI e w) b =
     table_refs queue_refs (QT w) b + (if ShallReorder QI then event_ref e b - event_ref (TaskBlocker QI) b else 0)"
    and "finite (dom (swapped q QI e w))"
  using assms by (auto simp: swapped_def finite_tables_def queue_refs_def)

lemma launched_surplus:
  assumes "launched q QI W ws Event w A x w'" and "QT w q = Some QI" and "works w (serial w) = None"
    and "fst (PrevWork W) = NULL" and "finite_tables w"
  shows "\<exists>u d. calls w' = calls w @ u \<and> expects u d \<and>
      (\<forall>b. surplus w' b = surplus w b + event_ref (snd x) b + event_ref d b)" and "finite_tables w'"
    and "\<forall>a \<in> set (guards w'). is_release a" and "prio w' = prio w" and "serial w' = Suc (serial w)"
proof -
  obtain u Run Read m where l: "calls w' = calls w @ u"
     "works w' = (works w)(serial w \<mapsto> W\<lparr>PrevWork := (Run, snd (PrevWork W))\<rparr>)"
     "QT w' = swapped q QI (Final W) w" "PT w' = PT w" "KT w' = KT w" "prio w' = prio w"
     "\<forall>a \<in> set (guards w'). is_release a"
     "\<forall>b. owed u b = pending (guards w') b - pending (guards w) b + pending (work_refs W) b + event_ref Run b
        + event_ref Read b + event_ref (snd x) b
        + (if ShallReorder QI then event_ref (Final W) b - event_ref (TaskBlocker QI) b else 0)"
     "serial w' = Suc (serial w)"
     and a: "acts u = A @ [Enqueue (run_command W) (cb_Queue W) ws True,
        Enqueue (read_command W) (cb_Queue W) [Run] True, SetResumeCallback Read (serial w),
        Enqueue Marker q [Final W] Event]"
    using assms(1) unfolding launched_def by blast
  have refs: "pending (work_refs (W\<lparr>PrevWork := (Run, snd (PrevWork W))\<rparr>)) b = pending (work_refs W) b + event_ref Run b" for b
    using assms(4) by (simp add: work_refs_def)
  have fin: "finite (dom (works w))" using assms(5) by (simp add: finite_tables_def)
  have "surplus w' b = surplus w b + event_ref (snd x) b + event_ref Read b" for b
    using l(8) by (simp add: surplus_def held_def l(1-5) swapped_refs [OF assms(2,5)] assms(3) fin refs)
  moreover have "expects u Read" by (rule expects_acts [of _ "serial w"]) (simp add: a)
  ultimately show "\<exists>u d. calls w' = calls w @ u \<and> expects u d \<and>
      (\<forall>b. surplus w' b = surplus w b + event_ref (snd x) b + event_ref d b)" using l(1) by blast
  show "finite_tables w'"
    using assms(5) swapped_refs(2) [OF assms(2,5)] by (simp add: finite_tables_def l)
  show "\<forall>a \<in> set (guards w'). is_release a" "prio w' = prio w" "serial w' = Suc (serial w)" by (rule l)+
qed

lemma surplus_in_schedule:
  "ret r = CL_SUCCESS \<Longrightarrow> surplus (in_schedule K r w) b = surplus w b + pending (guards w) b"
  "finite_tables (in_schedule K r w) = finite_tables w"
  by (simp_all add: surplus_def held_def gains finite_tables_def)

text \<open>
  The balance of the whole call: the event the application gets, and an event only the callback
  registered on it will release.
\<close>

definition ndrange_balance :: "runtime \<Rightarrow> handle \<Rightarrow> runtime \<Rightarrow> bool" where
  "ndrange_balance w h w' \<longleftrightarrow> (\<forall>a \<in> set (guards w'). is_release a) \<and> prio w' = prio w \<and> serial w \<le> serial w' \<and>
     finite_tables w' \<and>
     (\<exists>u d. calls w' = calls w @ u \<and> expects u d \<and>
        (\<forall>b. surplus w' b = surplus w b + event_ref h b + event_ref d b))"

lemma enqueued_balance:
  assumes "enqueued Queue K dim gwo gws lws n wl Event w x w' QI KI Prof ls N G W w1"
    and "works w (serial w) = None" and "finite_tables w"
  shows "ndrange_balance w (snd x) w'"
proof -
  obtain Kernel where p: "prepared w K KI Kernel w1" "KT w K = Some KI" "QT w Queue = Some QI"
      "fst (PrevWork W) = NULL"
      "launched Queue QI W (wait_list wl n @ [snd (PrevWork W)] @ blocker_list QI) Event w1 [first_write W] x w'"
    using assms(1) unfolding enqueued_def launch_for_def by blast
  obtain t where t: "calls w1 = calls w @ t" "prio w1 = prio w" using p(1) by (auto simp: prepared_def)
  note s = prepared_surplus [OF p(1,2) assms(3)]
  note l = launched_surplus [OF p(5) _ _ p(4) s(2)]
  obtain u d where u: "calls w' = calls w1 @ u" "expects u d"
    "\<forall>b. surplus w' b = surplus w1 b + event_ref (snd x) b + event_ref d b"
    using l(1) p(3) prepared_simps [OF p(1)] assms(2) by auto
  then have "calls w' = calls w @ (t @ u)" "expects (t @ u) d"
    "\<forall>b. surplus w' b = surplus w b + event_ref (snd x) b + event_ref d b"
    using t s(1) by (simp_all add: expects_append)
  then have "\<exists>u d. calls w' = calls w @ u \<and> expects u d \<and>
      (\<forall>b. surplus w' b = surplus w b + event_ref (snd x) b + event_ref d b)" by blast
  then show ?thesis
    using l(2-5) p(3) prepared_simps [OF p(1)] assms(2) t(2) by (simp add: ndrange_balance_def)
qed

lemma untouched_balance:
  assumes "untouched w w'" and "finite_tables w"
  shows "ndrange_balance w NULL w'"
  using assms by (auto simp: untouched_def ndrange_balance_def finite_tables_def)

lemma balance_leave:
  assumes "ndrange_balance (in_schedule K r w) h w1" and "ret r = CL_SUCCESS"
  shows "\<exists>u d. calls (leave v (guards w) w1) = calls w @ u \<and> expects u d \<and>
      (\<forall>b. surplus (leave v (guards w) w1) b = surplus w b + event_ref h b + event_ref d b)"
proof -
  obtain u d where u: "calls w1 = calls (in_schedule K r w) @ u" "expects u d"
    "\<forall>b. surplus w1 b = surplus (in_schedule K r w) b + event_ref h b + event_ref d b"
    and rel: "\<forall>a \<in> set (guards w1). is_release a"
    using assms(1) unfolding ndrange_balance_def by blast
  let ?t = "(SchedStart K, r) # u @ replies v (guards w1) (calls w1)"
  have "calls (leave v (guards w) w1) = calls w @ ?t" "expects ?t d"
    using u(1,2) by (simp_all add: expects_append expects_Cons)
  moreover have "surplus (leave v (guards w) w1) b = surplus w b + event_ref h b + event_ref d b" for b
    using u(3) rel assms(2) by (simp add: surplus_in_schedule)
  ultimately show "\<exists>u d. calls (leave v (guards w) w1) = calls w @ u \<and> expects u d \<and>
      (\<forall>b. surplus (leave v (guards w) w1) b = surplus w b + event_ref h b + event_ref d b)" by blast
qed

lemma ndrange_post_balance:
  assumes "ndrange_post v Queue K dim gwo gws lws n wl Event w x w'" and "works w (serial w) = None"
    and "finite_tables w"
  shows "\<exists>u d. calls w' = calls w @ u \<and> expects u d \<and>
      (\<forall>b. surplus w' b = surplus w b + event_ref (snd x) b + event_ref d b)"
    and "guards w' = guards w" and "prio w' = prio w" and "serial w \<le> serial w'" and "finite_tables w'"
proof -
  obtain r w1 where r: "ret r = CL_SUCCESS" and w': "w' = leave v (guards w) w1"
    and c: "if fst x = CL_SUCCESS
         then \<exists>QI KI Prof ls N G W w2.
           enqueued Queue K dim gwo gws lws n wl Event (in_schedule COMPUTING r w) x w1 QI KI Prof ls N G W w2
         else snd x = NULL \<and> untouched (in_schedule COMPUTING r w) w1"
    using assms(1) by (auto simp: ndrange_post_def)
  have b: "ndrange_balance (in_schedule COMPUTING r w) (snd x) w1"
  proof (cases "fst x = CL_SUCCESS")
    case True
    then obtain QI KI Prof ls N G W w2 where
      e: "enqueued Queue K dim gwo gws lws n wl Event (in_schedule COMPUTING r w) x w1 QI KI Prof ls N G W w2"
      using c by auto
    show ?thesis using enqueued_balance [OF e] assms(2,3) by (simp add: surplus_in_schedule)
  next
    case False
    then show ?thesis using c untouched_balance assms(3) by (simp add: surplus_in_schedule)
  qed
  show "\<exists>u d. calls w' = calls w @ u \<and> expects u d \<and>
      (\<forall>b. surplus w' b = surplus w b + event_ref (snd x) b + event_ref d b)"
    unfolding w' using balance_leave [OF b r] .
  show "guards w' = guards w" "prio w' = prio w" "serial w \<le> serial w'" "finite_tables w'"
    using b by (simp_all add: w' ndrange_balance_def)
qed

section \<open>The filed launch\<close>

text \<open>What a successful call leaves, in one predicate on the states before and after.\<close>

definition set_up ::
  "handle \<Rightarrow> nat list \<Rightarrow> nat list option \<Rightarrow> nat \<Rightarrow> handle list option \<Rightarrow> bool \<Rightarrow> runtime \<Rightarrow> runtime
     \<Rightarrow> QueueInfo \<Rightarrow> CallbackData \<Rightarrow> bool" where
  "set_up Queue sizes lws n wl Event w w' QI W \<longleftrightarrow>
     QT w Queue = Some QI \<and> works w' = (works w)(serial w \<mapsto> W) \<and> launch_ok W \<and>
     header_of W = replicate (prod_list sizes) 1 \<and> WorkGrpSize W = prod_list (LWS W) \<and>
     WorkDim W = length sizes \<and> GWS W = sizes \<and> (\<forall>l. lws = Some l \<longrightarrow> LWS W = take (length sizes) l) \<and>
     header_ok (WorkGrpSize W) (header_of W) \<and>
     (\<exists>ki prof. deref_kinfo w' (KInfo W) = Some ki \<and> deref_profile w' (Profile ki) = Some prof) \<and>
     QT w' = swapped Queue QI (Final W) w \<and>
     (\<exists>u Read. calls w' = calls w @ u \<and> settles u = [] \<and>
       acts u = [Enqueue (WriteHost (DeviceHeader W) 0 (HostMetadata W)) (ShadowQueue QI) [] True,
         Enqueue (run_command W) (ShadowQueue QI)
           (wait_list wl n @ [snd (PrevWork W)] @ blocker_list QI) True,
         Enqueue (read_command W) (ShadowQueue QI) [fst (PrevWork W)] True,
         SetResumeCallback Read (serial w), Enqueue Marker Queue [Final W] Event])"

lemma chunks_replicate: "0 < n \<Longrightarrow> g \<in> set (chunks n (replicate m x)) \<Longrightarrow> set g \<subseteq> {x}"
  using set_chunks [of n "replicate m x"] by auto

lemma header_ok_ones:
  assumes "0 < n" and "n dvd m"
  shows "header_ok n (replicate m 1)"
proof -
  have "one_barrier g" if "g \<in> set (chunks n (replicate m (1 :: cl_int)))" for g
    using chunks_replicate [OF assms(1) that] by (auto simp: one_barrier_def)
  then show ?thesis using assms(2) by (simp add: header_ok_def)
qed

lemma enqueued_set_up:
  assumes "enqueued Queue K dim gwo (Some sizes) lws n wl Event w x w' QI KI Prof ls N G W0 w1"
    and dims: "dim \<le> length sizes" "\<forall>l. lws = Some l \<longrightarrow> dim \<le> length l"
    and nowrap: "prod_list (take dim sizes) < 2 ^ 64"
  shows "\<exists>W. set_up Queue (take dim sizes) lws n wl Event w w' QI W"
proof -
  let ?s = "take dim sizes"
  obtain Kernel where e: "QT w Queue = Some QI" "KT w K = Some KI" "deref_profile w (Profile KI) = Some Prof"
      "\<forall>s \<in> set ?s. 0 < s" "Geometry ?s ls 1 1 = Ok (N, G)" "prepared w K KI Kernel w1"
      "launch_for QI K KI Prof Kernel dim (case gwo of None \<Rightarrow> replicate dim 0 | Some o' \<Rightarrow> take dim o') ?s ls N G W0"
      "length ls = length ?s" "\<forall>l. lws = Some l \<longrightarrow> ls = take dim l"
      "launched Queue QI W0 (wait_list wl n @ [snd (PrevWork W0)] @ blocker_list QI) Event w1 [first_write W0] x w'"
    using assms(1) dims unfolding enqueued_def by (auto split: option.splits)
  note geo = Geometry_sizes [OF e(5,8,4) nowrap]
  have len: "length ?s = dim" using dims(1) by simp
  obtain u Run Read m where l: "calls w' = calls w1 @ u"
     "acts u = first_write W0 # [Enqueue (run_command W0) (cb_Queue W0)
        (wait_list wl n @ [snd (PrevWork W0)] @ blocker_list QI) True,
        Enqueue (read_command W0) (cb_Queue W0) [Run] True, SetResumeCallback Read (serial w1),
        Enqueue Marker Queue [Final W0] Event]"
     "works w' = (works w1)(serial w1 \<mapsto> W0\<lparr>PrevWork := (Run, snd (PrevWork W0))\<rparr>)"
     "QT w' = swapped Queue QI (Final W0) w1" "PT w' = PT w1" "KT w' = KT w1"
    using e(10) unfolding launched_def by auto
  obtain pool t where p: "calls w1 = calls w @ t" "acts t = []" "KT w1 = (KT w)(K \<mapsto> KI\<lparr>Pool := pool\<rparr>)"
      "QT w1 = QT w" "PT w1 = PT w" "works w1 = works w" "serial w1 = serial w"
    using e(6) unfolding prepared_def by blast
  let ?W = "W0\<lparr>PrevWork := (Run, snd (PrevWork W0))\<rparr>"
  note f = e(7) [unfolded launch_for_def]
  have hdr: "header_of ?W = replicate N 1" "launch_ok ?W"
    using f geo by (simp_all add: header_of_def InitialMetadata_def launch_ok_def)
  have s: "settles (t @ u) = []" by (rule is_act_settle [OF refl]) (simp add: p(2) l(2) first_write_def)
  have "set_up Queue ?s lws n wl Event w w' QI ?W"
    unfolding set_up_def
  proof (intro conjI)
    show "\<exists>ki prof. deref_kinfo w' (KInfo ?W) = Some ki \<and> deref_profile w' (Profile ki) = Some prof"
    proof (intro exI conjI)
      show "deref_kinfo w' (KInfo ?W) = Some (KI\<lparr>Pool := pool\<rparr>)"
        using f by (simp add: deref_kinfo_def l p)
      show "deref_profile w' (Profile (KI\<lparr>Pool := pool\<rparr>)) = Some Prof"
      proof -
        have "Profile (KI\<lparr>Pool := pool\<rparr>) = Profile KI" by simp
        then show ?thesis using e(3) by (simp only: deref_profile_def l p)
      qed
    qed
    show "\<exists>v Read. calls w' = calls w @ v \<and> settles v = [] \<and>
       acts v = [Enqueue (WriteHost (DeviceHeader ?W) 0 (HostMetadata ?W)) (ShadowQueue QI) [] True,
         Enqueue (run_command ?W) (ShadowQueue QI) (wait_list wl n @ [snd (PrevWork ?W)] @ blocker_list QI) True,
         Enqueue (read_command ?W) (ShadowQueue QI) [fst (PrevWork ?W)] True,
         SetResumeCallback Read (serial w), Enqueue Marker Queue [Final ?W] Event]"
      using f s by (intro exI [of _ "t @ u"] exI [of _ Read])
        (simp add: l p first_write_def run_command_def read_command_def HeaderSize_def)
    show "header_ok (WorkGrpSize ?W) (header_of ?W)"
      unfolding hdr using f geo by (intro header_ok_ones) simp_all
  qed (use hdr f geo e l p len in \<open>simp_all add: swapped_def\<close>)
  then show ?thesis ..
qed

lemma deref_leave [simp]:
  "deref_kinfo (leave v g w) p = deref_kinfo w p" "deref_profile (leave v g w) pp = deref_profile w pp"
  by (simp_all add: deref_kinfo_def deref_profile_def)

lemma set_up_scope:
  assumes "set_up Queue sizes lws n wl Event (in_schedule K r w) w1 QI W" and "\<forall>a \<in> set (guards w1). is_release a"
  shows "set_up Queue sizes lws n wl Event w (leave v (guards w) w1) QI W"
proof -
  obtain u Read where "calls w1 = calls w @ (SchedStart K, r) # u" "settles u = []"
       "acts u = [Enqueue (WriteHost (DeviceHeader W) 0 (HostMetadata W)) (ShadowQueue QI) [] True,
         Enqueue (run_command W) (ShadowQueue QI)
           (wait_list wl n @ [snd (PrevWork W)] @ blocker_list QI) True,
         Enqueue (read_command W) (ShadowQueue QI) [fst (PrevWork W)] True,
         SetResumeCallback Read (serial w), Enqueue Marker Queue [Final W] Event]"
    using assms(1) by (auto simp: set_up_def)
  then have "\<exists>u Read. calls (leave v (guards w) w1) = calls w @ u \<and> settles u = [] \<and>
       acts u = [Enqueue (WriteHost (DeviceHeader W) 0 (HostMetadata W)) (ShadowQueue QI) [] True,
         Enqueue (run_command W) (ShadowQueue QI)
           (wait_list wl n @ [snd (PrevWork W)] @ blocker_list QI) True,
         Enqueue (read_command W) (ShadowQueue QI) [fst (PrevWork W)] True,
         SetResumeCallback Read (serial w), Enqueue Marker Queue [Final W] Event]"
    using assms(2)
    by (intro exI [of _ "(SchedStart K, r) # u @ replies v (guards w1) (calls w1)"] exI [of _ Read]) simp
  then show ?thesis
    using assms(1) unfolding set_up_def swapped_def by (elim conjE, intro conjI) simp_all
qed

lemma enqueue_success:
  assumes "clEnqueueNDRangeKernel v Queue K dim gwo (Some sizes) lws n wl Event w = (Ok (CL_SUCCESS, h), w')"
    and "prio w = LOW" and "works w (serial w) = None"
    and "dim \<le> length sizes" and "\<forall>l. lws = Some l \<longrightarrow> dim \<le> length l"
    and "prod_list (take dim sizes) < 2 ^ 64"
  shows "\<exists>QI W. set_up Queue (take dim sizes) lws n wl Event w w' QI W"
proof -
  have "ndrange_post v Queue K dim gwo (Some sizes) lws n wl Event w (CL_SUCCESS, h) w'"
    using wpD_Ok [OF wp_clEnqueueNDRangeKernel [OF assms(2,3)] assms(1)] .
  then obtain r w1 QI KI Prof ls N G W0 w2 where w': "w' = leave v (guards w) w1" and
    e: "enqueued Queue K dim gwo (Some sizes) lws n wl Event (in_schedule COMPUTING r w) (CL_SUCCESS, h) w1
          QI KI Prof ls N G W0 w2"
    unfolding ndrange_post_def by auto
  obtain W where W: "set_up Queue (take dim sizes) lws n wl Event (in_schedule COMPUTING r w) w1 QI W"
    using enqueued_set_up [OF e assms(4-6)] by blast
  have "\<forall>a \<in> set (guards w1). is_release a" using e by (auto simp: enqueued_def launched_def)
  then show ?thesis using set_up_scope [OF W] w' by blast
qed

section \<open>A device and a process for the witnesses\<close>

definition demo_queue :: QueueInfo where
  "demo_queue = \<lparr>q_Context = 1, q_Device = 1, ShadowQueue = 5, ShallReorder = True, TaskBlocker = 0\<rparr>"

definition demo_app :: runtime where
  "demo_app = demo\<lparr>QT := [20 \<mapsto> demo_queue], works := Map.empty\<rparr>"

text \<open>A vendor that accepts everything and has devices of one dimension.\<close>

definition dim_vendor :: vendor where
  "dim_vendor t a = \<lparr>ret = CL_SUCCESS, obj = length t + 1, num = (case a of GetDeviceMaxDim d \<Rightarrow> 1 | _ \<Rightarrow> 0),
     nums = [], str = []\<rparr>"

lemmas run_defs = andThen_def return_def throw_def abort_def crash_def get_def modify_def call_def call_ok_def
  OCL_ASSERT_def INTER_ASSERT_def own_def disown_def own_obj_def disown_obj_def catch_def scoped_def Let_def
  deref_def lift_def Schedule_def clEnqueueNDRangeKernel_def NDRangeLow_def TakeKernel_def ChooseLWS_def
  StartLaunch_def RunLaunch_def MakeBuffer_def MakeBufferIf_def SetExtraArgs_def LogSizes_def file_work_def next_serial_def
  delete_on_error_def MetaEnqueue_def the_work_def set_work_def own_outer_def release_all_def swap_blocker_def
  set_blocker_def shouldLog_def LOG_INFO_def LOG_DEBUG_def LOG_ERROR_def bad_wait_list_def wait_list_def wrap64_def
  deref_profile_def deref_kinfo_def created_def blocker_list_def replies.simps unguard_def

lemma demo_app_run:
  "fst (clEnqueueNDRangeKernel dim_vendor 20 3 1 None (Some [2]) (Some [2]) 0 None True demo_app) = Ok (CL_SUCCESS, 21)"
  by (simp add: run_defs demo_app_def demo_def demo_queue_def demo_program_def demo_kernel_def dim_vendor_def
     del: andThen_get andThen_call andThen_modify andThen_own_obj andThen_disown_obj andThen_OCL_ASSERT andThen_INTER_ASSERT)

lemma andThen_Ok: "m w = (Ok x, w') \<Longrightarrow> andThen m f w = f x w'"
  by (simp add: andThen_def)

lemma demo_app_call:
  obtains w' where "clEnqueueNDRangeKernel dim_vendor 20 3 1 None (Some [2]) (Some [2]) 0 None True demo_app =
     (Ok (CL_SUCCESS, 21), w')"
  using demo_app_run by (metis prod.collapse)

lemma demo_app_facts:
  "prio demo_app = LOW" "works demo_app (serial demo_app) = None" "finite_tables demo_app"
  by (simp_all add: demo_app_def demo_def finite_tables_def)

section \<open>Properties\<close>

text \<open>
  C4. An enqueued kernel is set up correctly. If the call succeeds and the global size has
  fewer than \<open>2 ^ 64\<close> work-items, exactly one launch \<open>W\<close> was filed; its header has one entry
  1 per work-item and is acceptable to \<open>UpdateHeader\<close>, its work-group size is the product of
  the local size and its pointers are valid. Exactly five commands were issued, in this
  order: the initial metadata is written, the kernel is run behind the application's wait
  list, that write and the task blocker, the header is read back behind the run, the callback
  is registered, and the application's queue gets a marker behind the launch's final event,
  which becomes the task blocker of an in-order queue. Nothing was settled.
\<close>

theorem NDRange_sets_up:
  assumes "clEnqueueNDRangeKernel v Queue K dim gwo (Some sizes) lws n wl Event w = (Ok (CL_SUCCESS, h), w')"
    and "prio w = LOW" and "works w (serial w) = None"
    and "dim \<le> length sizes" and "\<forall>l. lws = Some l \<longrightarrow> dim \<le> length l"
    and "prod_list (take dim sizes) < 2 ^ 64"
  shows "\<exists>QI W. set_up Queue (take dim sizes) lws n wl Event w w' QI W"
  using assms by (rule enqueue_success)

lemma NDRange_sets_up_witness:
  "\<exists>w' QI W. set_up 20 [2] (Some [2]) 0 None True demo_app w' QI W"
proof -
  obtain w' where run: "clEnqueueNDRangeKernel dim_vendor 20 3 1 None (Some [2]) (Some [2]) 0 None True demo_app =
     (Ok (CL_SUCCESS, 21), w')" by (rule demo_app_call)
  show ?thesis using NDRange_sets_up [OF run demo_app_facts(1,2)] by auto
qed



text \<open>
  A kernel launch leaks nothing the runtime could release. Whatever the vendor answers, a
  call that returns hands the application the marker's event (null if it asked for none or
  the call failed), and everything else it took is filed in the launch and the tables,
  released again, or owned by the callback registered on the event \<open>d\<close> (null if none was);
  a failed call leaves the launches, queues and programs as they were.
\<close>

theorem NDRange_no_leak:
  assumes "clEnqueueNDRangeKernel v Queue K dim gwo gws lws n wl Event w = (y, w')"
    and "prio w = LOW" and "works w (serial w) = None" and "finite_tables w" and "y \<noteq> Abort" and "y \<noteq> Crash"
  shows "\<exists>e h u d. y = Ok (e, h) \<and> calls w' = calls w @ u \<and> expects u d \<and>
     (\<forall>b. surplus w' b = surplus w b + event_ref h b + event_ref d b) \<and>
     (e \<noteq> CL_SUCCESS \<longrightarrow> h = NULL \<and> works w' = works w \<and> QT w' = QT w \<and> PT w' = PT w)"
proof -
  obtain x where y: "y = Ok x" and p: "ndrange_post v Queue K dim gwo gws lws n wl Event w x w'"
    using wp_clEnqueueNDRangeKernel [OF assms(2,3), of v Queue K dim gwo gws lws n wl Event] assms(1,5,6)
    by (cases y) (auto simp: wp_def)
  have "fst x \<noteq> CL_SUCCESS \<longrightarrow> snd x = NULL \<and> works w' = works w \<and> QT w' = QT w \<and> PT w' = PT w"
    using p by (auto simp: ndrange_post_def untouched_def)
  then show ?thesis
    using y ndrange_post_balance(1) [OF p assms(3,4)] by (cases x) auto
qed

lemma NDRange_no_leak_witness:
  "\<exists>w' d. \<forall>b. surplus w' b = surplus demo_app b + event_ref 21 b + event_ref d b"
proof -
  obtain w' where run: "clEnqueueNDRangeKernel dim_vendor 20 3 1 None (Some [2]) (Some [2]) 0 None True demo_app =
     (Ok (CL_SUCCESS, 21), w')" by (rule demo_app_call)
  obtain d where "\<forall>b. surplus w' b = surplus demo_app b + event_ref 21 b + event_ref d b"
    using NDRange_no_leak [OF run demo_app_facts] by (auto simp del: guard_of_simps)
  then show ?thesis by blast
qed

end
