(* ===== verification/Session.thy ===== *)
theory Session
  imports KernelLaunch
begin

text \<open>
  A whole session of a low priority process: any sequence of calls the application makes to the
  functions of \<open>runtime/Interface.cpp\<close> and of callbacks the vendor makes to \<open>ResumeOrFinish\<close>,
  with the accounts of all references that change hands.
\<close>

section \<open>Calls of the application\<close>

datatype app_call =
    App_CreateContext bool
  | App_CreateCommandQueue handle handle u64 bool
  | App_ReleaseCommandQueue handle
  | App_GetProgramBuildInfo handle handle nat nat bool bool
  | App_BuildProgram handle "handle list option" string
  | App_ReleaseProgram handle
  | App_CreateKernel handle string bool
  | App_RetainKernel handle
  | App_ReleaseKernel handle
  | App_SetKernelArg handle nat u64 handle
  | App_ReadBuffer handle handle bool u64 u64 handle nat "handle list option" bool
  | App_WriteBuffer handle handle bool u64 u64 handle nat "handle list option" bool
  | App_ReadImage handle handle bool "u64 list" "u64 list" u64 u64 handle nat "handle list option" bool
  | App_WriteImage handle handle bool "u64 list" "u64 list" u64 u64 handle nat "handle list option" bool
  | App_CopyBuffer handle handle handle u64 u64 u64 nat "handle list option" bool
  | App_CopyBufferToImage handle handle handle u64 "u64 list" "u64 list" nat "handle list option" bool
  | App_Marker handle bool
  | App_UnmapMemObject handle handle handle nat "handle list option" bool
  | App_MapBuffer handle handle bool u64 u64 u64 nat "handle list option" bool bool
  | App_NDRangeKernel handle handle nat "nat list option" "nat list option" "nat list option" nat "handle list option" bool

text \<open>The call, with the new handle the application gets from it (\<open>NULL\<close> if none).\<close>

abbreviation give :: "'a rt \<Rightarrow> ('a \<Rightarrow> handle) \<Rightarrow> handle rt" where
  "give m f \<equiv> andThen m (\<lambda>x. return (f x))"

fun app_exec :: "vendor \<Rightarrow> compiler \<Rightarrow> app_call \<Rightarrow> handle rt" where
  "app_exec v C (App_CreateContext want) = give (clCreateContext v want) (\<lambda>_. NULL)"
| "app_exec v C (App_CreateCommandQueue c d p want) = give (clCreateCommandQueue v c d p want) fst"
| "app_exec v C (App_ReleaseCommandQueue q) = give (clReleaseCommandQueue v q) (\<lambda>_. NULL)"
| "app_exec v C (App_GetProgramBuildInfo p d i n wantv wants) = give (clGetProgramBuildInfo v p d i n wantv wants) (\<lambda>_. NULL)"
| "app_exec v C (App_BuildProgram p ds opts) = give (clBuildProgram v C p ds opts) (\<lambda>_. NULL)"
| "app_exec v C (App_ReleaseProgram p) = give (clReleaseProgram v p) (\<lambda>_. NULL)"
| "app_exec v C (App_CreateKernel p k want) = give (clCreateKernel v p k want) fst"
| "app_exec v C (App_RetainKernel k) = give (clRetainKernel v k) (\<lambda>_. NULL)"
| "app_exec v C (App_ReleaseKernel k) = give (clReleaseKernel v k) (\<lambda>_. NULL)"
| "app_exec v C (App_SetKernelArg k i n a) = give (clSetKernelArg v k i n a) (\<lambda>_. NULL)"
| "app_exec v C (App_ReadBuffer q b bl off sz ptr n wl ev) = give (clEnqueueReadBuffer v q b bl off sz ptr n wl ev) snd"
| "app_exec v C (App_WriteBuffer q b bl off sz ptr n wl ev) = give (clEnqueueWriteBuffer v q b bl off sz ptr n wl ev) snd"
| "app_exec v C (App_ReadImage q i bl og rg rp sp ptr n wl ev) = give (clEnqueueReadImage v q i bl og rg rp sp ptr n wl ev) snd"
| "app_exec v C (App_WriteImage q i bl og rg rp sp ptr n wl ev) = give (clEnqueueWriteImage v q i bl og rg rp sp ptr n wl ev) snd"
| "app_exec v C (App_CopyBuffer q s d so de sz n wl ev) = give (clEnqueueCopyBuffer v q s d so de sz n wl ev) snd"
| "app_exec v C (App_CopyBufferToImage q s d so og rg n wl ev) = give (clEnqueueCopyBufferToImage v q s d so og rg n wl ev) snd"
| "app_exec v C (App_Marker q ev) = give (clEnqueueMarker v q ev) snd"
| "app_exec v C (App_UnmapMemObject q m ptr n wl ev) = give (clEnqueueUnmapMemObject v q m ptr n wl ev) snd"
| "app_exec v C (App_MapBuffer q b bl fl off sz n wl ev want) = give (clEnqueueMapBuffer v q b bl fl off sz n wl ev want) (\<lambda>x. snd (snd x))"
| "app_exec v C (App_NDRangeKernel q k dim gwo gws lws n wl ev) = give (clEnqueueNDRangeKernel v q k dim gwo gws lws n wl ev) snd"

text \<open>
  What the application owns after the call: the new object or event. And what it gives back: a
  release counts if it gets as far as the vendor.
\<close>

fun handed :: "app_call \<Rightarrow> handle \<Rightarrow> api list" where
  "handed (App_CreateCommandQueue c d p want) h = guard_of ReleaseCommandQueue h"
| "handed (App_CreateKernel p k want) h = guard_of ReleaseKernel h"
| "handed _ h = guard_of ReleaseEvent h"

fun gives_back :: "app_call \<Rightarrow> api list" where
  "gives_back (App_ReleaseCommandQueue q) = [ReleaseCommandQueue q]"
| "gives_back (App_ReleaseProgram p) = [ReleaseProgram p]"
| "gives_back (App_ReleaseKernel k) = [ReleaseKernel k]"
| "gives_back _ = []"

definition returned :: "app_call \<Rightarrow> runtime \<Rightarrow> runtime \<Rightarrow> api list" where
  "returned c w w' = filter (\<lambda>a. a \<in> set (made (drop (length (calls w)) (calls w')))) (gives_back c)"

text \<open>
  Arrays must be as long as \<open>WorkDim\<close> says, and the number of work-items must fit a \<open>size_t\<close>.
\<close>

fun call_fits :: "app_call \<Rightarrow> bool" where
  "call_fits (App_NDRangeKernel q k dim gwo gws lws n wl ev) \<longleftrightarrow>
     (case gws of None \<Rightarrow> True | Some sizes \<Rightarrow> dim \<le> length sizes \<and> prod_list (take dim sizes) < 2 ^ 64) \<and>
     (case lws of None \<Rightarrow> True | Some l \<Rightarrow> dim \<le> length l)"
| "call_fits _ = True"

section \<open>Sessions\<close>

text \<open>
  \<open>Resume wid e s Read\<close> is the vendor's callback for launch \<open>wid\<close> on event \<open>e\<close> with status \<open>s\<close>,
  after the device wrote \<open>Read\<close> into the host copy of the header. \<open>None\<close>: the process ended.
\<close>

datatype session_event = App app_call | Resume nat handle cl_int "cl_int list"

definition resume :: "vendor \<Rightarrow> nat \<Rightarrow> handle \<Rightarrow> cl_int \<Rightarrow> cl_int list \<Rightarrow> unit rt" where
  "resume v wid e s Read = andThen (receive wid Read) (\<lambda>_. ResumeOrFinish v e s wid)"

fun session :: "vendor \<Rightarrow> compiler \<Rightarrow> session_event list \<Rightarrow> runtime \<Rightarrow> (api list \<times> api list \<times> runtime) option" where
  "session v C [] w = Some ([], [], w)"
| "session v C (App c # es) w =
     (case app_exec v C c w of
        (Ok h, w1) \<Rightarrow>
          (case session v C es w1 of
             None \<Rightarrow> None
           | Some (got, gave, w') \<Rightarrow> Some (handed c h @ got, returned c w w1 @ gave, w'))
      | _ \<Rightarrow> None)"
| "session v C (Resume wid e s Read # es) w =
     (case resume v wid e s Read w of
        (Ok _, w1) \<Rightarrow>
          (case session v C es w1 of
             None \<Rightarrow> None
           | Some (got, gave, w') \<Rightarrow> Some (got, guard_of ReleaseEvent e @ gave, w'))
      | _ \<Rightarrow> None)"

fun event_fits :: "session_event \<Rightarrow> bool" where
  "event_fits (App c) \<longleftrightarrow> call_fits c"
| "event_fits (Resume wid e s Read) \<longleftrightarrow> True"

definition launches_ok :: "runtime \<Rightarrow> bool" where
  "launches_ok w \<longleftrightarrow> (\<forall>wid W. works w wid = Some W \<longrightarrow> launch_ok W \<and> wid < serial w)"

text \<open>The events the library asked the vendor to call back on.\<close>

definition awaited :: "trace \<Rightarrow> handle list" where
  "awaited u = concat (map (\<lambda>a. case a of SetResumeCallback e n \<Rightarrow> [e] | _ \<Rightarrow> []) (made u))"

text \<open>
  The accounts of one step: it adds the calls \<open>u\<close>, the application (or the vendor's callbacks)
  got \<open>got\<close> and gave back \<open>gave\<close>.
\<close>

definition accounts :: "runtime \<Rightarrow> api list \<Rightarrow> api list \<Rightarrow> runtime \<Rightarrow> bool" where
  "accounts w got gave w' \<longleftrightarrow> guards w' = guards w \<and> prio w' = prio w \<and> launches_ok w' \<and> finite_tables w' \<and>
     (\<exists>u ds. calls w' = calls w @ u \<and> mset ds \<subseteq># mset (awaited u) \<and>
        (\<forall>b. surplus w' b = surplus w b + pending got b + pending (concat (map (guard_of ReleaseEvent) ds)) b - pending gave b))"

lemma awaited_append [simp]: "awaited (t @ u) = awaited t @ awaited u"
  by (simp add: awaited_def)

lemma expects_awaited:
  assumes "expects u d"
  obtains ds where "mset ds \<subseteq># mset (awaited u)" and "\<And>b. pending (concat (map (guard_of ReleaseEvent) ds)) b = event_ref d b"
proof (cases "d = NULL")
  case True
  then show ?thesis using that [of "[]"] by simp
next
  case False
  then obtain n where "SetResumeCallback d n \<in> set (made u)" using assms by (auto simp: expects_def)
  then have "d \<in> set (awaited u)" by (force simp: awaited_def)
  then show ?thesis using that [of "[d]"] by simp
qed

lemma accountsI:
  assumes "guards w' = guards w" and "prio w' = prio w" and "launches_ok w'" and "finite_tables w'"
    and "calls w' = calls w @ u" and "expects u d"
    and "\<And>b. surplus w' b = surplus w b + pending got b + event_ref d b - pending gave b"
  shows "accounts w got gave w'"
proof -
  obtain ds where "mset ds \<subseteq># mset (awaited u)" "\<And>b. pending (concat (map (guard_of ReleaseEvent) ds)) b = event_ref d b"
    using assms(6) by (rule expects_awaited) blast
  then show ?thesis unfolding accounts_def using assms(1-5,7)
    by (intro conjI exI [of _ u] exI [of _ ds]) simp_all
qed

lemma accounts_trans:
  assumes "accounts w g1 b1 w1" and "accounts w1 g2 b2 w2"
  shows "accounts w (g1 @ g2) (b1 @ b2) w2"
proof -
  obtain u ds where u: "calls w1 = calls w @ u" "mset ds \<subseteq># mset (awaited u)"
    "\<forall>b. surplus w1 b = surplus w b + pending g1 b + pending (concat (map (guard_of ReleaseEvent) ds)) b - pending b1 b"
    using assms(1) unfolding accounts_def by blast
  obtain t es where t: "calls w2 = calls w1 @ t" "mset es \<subseteq># mset (awaited t)"
    "\<forall>b. surplus w2 b = surplus w1 b + pending g2 b + pending (concat (map (guard_of ReleaseEvent) es)) b - pending b2 b"
    using assms(2) unfolding accounts_def by blast
  have "mset (ds @ es) \<subseteq># mset (awaited (u @ t))" using u(2) t(2) by (simp add: subset_mset.add_mono)
  then show ?thesis using assms u(1,3) t(1,3) unfolding accounts_def
    by (intro conjI exI [of _ "u @ t"] exI [of _ "ds @ es"]) simp_all
qed

lemma launches_fresh: "launches_ok w \<Longrightarrow> works w (serial w) = None"
  by (cases "works w (serial w)") (auto simp: launches_ok_def)

lemma launches_mono: "launches_ok w \<Longrightarrow> works w' = works w \<Longrightarrow> serial w \<le> serial w' \<Longrightarrow> launches_ok w'"
  unfolding launches_ok_def by (metis less_le_trans)

lemma accounts_ledger:
  assumes "ledger w w' d" and "launches_ok w" and "finite_tables w" and "\<And>b. d b = pending got b - pending gave b"
  shows "accounts w got gave w'"
proof -
  obtain u where "calls w' = calls w @ u" using assms(1) by (auto simp: ledger_def)
  then show ?thesis
    using assms by (intro accountsI [of w' w u NULL]) (auto simp: ledger_def launches_mono)
qed

section \<open>Every step balances\<close>

lemma wp_give: "wp Z m (\<lambda>x. Q (f x)) E w \<Longrightarrow> wp Z (give m f) Q E w"
  by (auto simp: andThen_def wp_def return_def split: prod.splits outcome.splits)

lemma wp_Ok: "wp True m Q (\<lambda>_ _. False) w \<Longrightarrow> m w = (Ok x, w') \<Longrightarrow> Q x w'"
  by (simp add: wp_def)

lemmas copy_calls = clEnqueueReadBuffer_def clEnqueueWriteBuffer_def clEnqueueReadImage_def clEnqueueWriteImage_def
  clEnqueueCopyBuffer_def clEnqueueCopyBufferToImage_def clEnqueueMarker_def clEnqueueUnmapMemObject_def

lemmas call_ledgers = ledger_clCreateContext ledger_clCreateCommandQueue ledger_clGetProgramBuildInfo
  ledger_clBuildProgram ledger_clCreateKernel ledger_clRetainKernel ledger_clSetKernelArg
  ledger_EnqueueAsync_low ledger_EnqueueUnscheduled_low ledger_clEnqueueMapBuffer_low

lemmas release_ledgers = ledger_clReleaseCommandQueue ledger_clReleaseProgram ledger_clReleaseKernel

fun launches :: "app_call \<Rightarrow> bool" where
  "launches (App_NDRangeKernel q k dim gwo gws lws n wl ev) = True"
| "launches _ = False"

lemma call_ledger:
  assumes "prio w = LOW" and "gives_back c = []" and "\<not> launches c"
  shows "wp True (app_exec v C c) (\<lambda>h w'. ledger w w' (pending (handed c h))) (\<lambda>_ _. False) w"
  by (cases c) (use assms in \<open>simp_all add: copy_calls wp_give call_ledgers\<close>)

lemma release_ledger:
  assumes "prio w = LOW" and "gives_back c = [a]"
  shows "wp True (app_exec v C c) (\<lambda>h w'. handed c h = [] \<and> took_back w w' a) (\<lambda>_ _. False) w"
  by (cases c) (use assms in \<open>auto intro!: wp_give release_ledgers\<close>)

lemma ndrange_accounts:
  assumes "clEnqueueNDRangeKernel v q k dim gwo gws lws n wl ev w = (Ok x, w')"
    and "prio w = LOW" and "launches_ok w" and "finite_tables w"
    and fits: "call_fits (App_NDRangeKernel q k dim gwo gws lws n wl ev)"
  shows "accounts w (guard_of ReleaseEvent (snd x)) [] w'"
proof -
  have fresh: "works w (serial w) = None" using assms(3) by (rule launches_fresh)
  have p: "ndrange_post v q k dim gwo gws lws n wl ev w x w'"
    using wp_clEnqueueNDRangeKernel [OF assms(2) fresh, of v q k dim gwo gws lws n wl ev] assms(1) by (simp add: wp_def)
  note b = ndrange_post_balance [OF p fresh assms(4)]
  have "launches_ok w'"
  proof (cases "fst x = CL_SUCCESS")
    case True
    then obtain QI KI Prof ls N G W w2 r w1 where
      e: "enqueued q k dim gwo gws lws n wl ev (in_schedule COMPUTING r w) x w1 QI KI Prof ls N G W w2"
      and w': "w' = leave v (guards w) w1" using p by (auto simp: ndrange_post_def)
    then obtain sizes where gws: "gws = Some sizes" by (auto simp: enqueued_def)
    obtain W' where "set_up q (take dim sizes) lws n wl ev (in_schedule COMPUTING r w) w1 QI W'"
      using enqueued_set_up [OF e [unfolded gws]] fits gws by (auto split: option.splits)
    moreover have "serial w1 = Suc (serial w)"
      using e prepared_simps by (fastforce simp: enqueued_def launched_def)
    ultimately show ?thesis using assms(3) by (auto simp: w' set_up_def launches_ok_def less_Suc_eq)
  next
    case False
    then have "works w' = works w" using p by (auto simp: ndrange_post_def untouched_def)
    then show ?thesis using b(4) by (rule launches_mono [OF assms(3)])
  qed
  then show ?thesis using b by (auto intro: accountsI)
qed

lemma call_accounts:
  assumes run: "app_exec v C c w = (Ok h, w')" and low: "prio w = LOW" and "launches_ok w" and "finite_tables w"
    and "call_fits c"
  shows "accounts w (handed c h) (returned c w w') w'"
proof (cases "launches c")
  case True
  then obtain q k dim gwo gws lws n wl ev where c: "c = App_NDRangeKernel q k dim gwo gws lws n wl ev"
    by (cases c) auto
  then obtain x where "clEnqueueNDRangeKernel v q k dim gwo gws lws n wl ev w = (Ok x, w')" "h = snd x"
    using run by (auto simp: andThen_def return_def split: prod.splits outcome.splits)
  then show ?thesis using ndrange_accounts assms(2-5) c by (simp add: returned_def)
next
  case False
  show ?thesis
  proof (cases "gives_back c")
    case Nil
    then show ?thesis
      using wp_Ok [OF call_ledger [OF low Nil False] run] assms(3,4) by (auto simp: returned_def intro: accounts_ledger)
  next
    case (Cons a as)
    then have a: "gives_back c = [a]" by (cases c) auto
    show ?thesis
      using wp_Ok [OF release_ledger [OF low a] run] assms(3,4)
      by (auto simp: returned_def took_back_def a intro: accounts_ledger)
  qed
qed

text \<open>A callback gives the event's reference back, and may leave another event to call back on.\<close>

lemma work_refs_kernel: "pending (work_refs W) b =
    pending (work_refs (W\<lparr>cb_Kernel := NULL\<rparr>)) b + obj_ref ReleaseKernel (cb_Kernel W) b"
  by (simp add: work_refs_def)

lemma settled_accounts:
  assumes "settled wid W e s w u w'" and "works w wid = Some W" and "launches_ok w" and "finite_tables w"
  shows "accounts w [] (guard_of ReleaseEvent e) w'"
proof -
  obtain ki where s: "calls w' = calls w @ u" "works w' = (works w)(wid := None)" "deref_kinfo w (KInfo W) = Some ki"
    "KT w' = (KT w)(fst (KInfo W) \<mapsto> ki\<lparr>Pool := Pool ki @ [cb_Kernel W]\<rparr>)" "QT w' = QT w" "PT w' = PT w"
    "prio w' = prio w" "guards w' = guards w" "serial w' = serial w"
    "\<forall>b. owed u b = - pending (work_refs (W\<lparr>cb_Kernel := NULL\<rparr>)) b - event_ref e b"
    using assms(1) unfolding settled_def by blast
  have ki: "KT w (fst (KInfo W)) = Some ki" using s(3) by (auto simp: deref_kinfo_def split: option.splits if_splits)
  have fin: "finite_tables w'" using assms(4) by (simp add: finite_tables_def s)
  show ?thesis
  proof (rule accountsI [where u = u and d = NULL])
    show "launches_ok w'" using assms(3) by (auto simp: launches_ok_def s)
    show "surplus w' b = surplus w b + pending [] b + event_ref NULL b - event_ref e b" for b
      using assms(4) s(10) work_refs_kernel [of W b]
      by (simp add: surplus_def held_def s(1,2,4-8) ki assms(2) finite_tables_def kernel_refs_def)
  qed (use s fin in simp_all)
qed

lemma resumed_accounts:
  assumes "resumed wid W e w u w'" and "works w wid = Some W" and "launches_ok w" and "finite_tables w"
  shows "accounts w [] (guard_of ReleaseEvent e) w'"
proof -
  obtain B p Read where st: "stepped w u ((works w)(wid \<mapsto> next_launch W B p)) w'"
    and a: "SetResumeCallback Read wid \<in> set (acts u)"
    and o: "\<forall>b. owed u b = pending (work_refs (next_launch W B p)) b - pending (work_refs W) b + event_ref Read b - event_ref e b"
    using assms(1) unfolding resumed_def by fastforce
  have W: "launch_ok W" "wid < serial w" using assms(2,3) by (auto simp: launches_ok_def)
  have fin: "finite_tables w'" using assms(4) st by (simp add: finite_tables_def stepped_def)
  show ?thesis
  proof (rule accountsI [where u = u and d = Read])
    show "launches_ok w'" using assms(3) W st
      by (auto simp: launches_ok_def stepped_def next_launch_def launch_ok_def)
    show "expects u Read" using a by (rule expects_acts)
    show "surplus w' b = surplus w b + pending [] b + event_ref Read b - event_ref e b" for b
      using assms(4) o st by (simp add: surplus_def held_def stepped_def assms(2) finite_tables_def)
  qed (use st fin in \<open>simp_all add: stepped_def\<close>)
qed

lemma resume_known: "works w wid = None \<Longrightarrow> fst (ResumeOrFinish v e s wid w) = Crash"
  by (simp add: ResumeOrFinish_def ResumeBody_def catch_def scoped_def the_work_def deref_def andThen_def own_obj_def modify_def)

lemma resume_accounts:
  assumes run: "resume v wid e s Read w = (Ok x, w')" and "launches_ok w" and "finite_tables w"
  shows "accounts w [] (guard_of ReleaseEvent e) w'"
proof -
  define w1 where "w1 = w\<lparr>works := (works w)(wid := map_option
     (\<lambda>W. W\<lparr>HostMetadata := take (HeaderOffset W) (HostMetadata W) @ Read\<rparr>) (works w wid))\<rparr>"
  have run1: "ResumeOrFinish v e s wid w1 = (Ok x, w')"
    using run by (simp add: resume_def w1_def receive_def set_work_def)
  then have "works w1 wid \<noteq> None" using resume_known [of w1 wid v e s] by auto
  then obtain W where W: "works w wid = Some W" by (auto simp: w1_def)
  define W1 where "W1 = W\<lparr>HostMetadata := take (HeaderOffset W) (HostMetadata W) @ Read\<rparr>"
  have ok: "launch_ok W1" "launches_ok w1" using assms(2) W by (auto simp: W1_def w1_def launches_ok_def launch_ok_def)
  have W1: "works w1 wid = Some W1" by (simp add: w1_def W1_def W)
  have fin: "finite_tables w1" using assms(3) by (simp add: w1_def finite_tables_def W)
  have "surplus w1 b = surplus w b" for b
    using assms(3) by (simp add: surplus_def held_def w1_def W finite_tables_def work_refs_def)
  then have w1: "accounts w [] [] w1"
    using ok fin by (intro accountsI [where u = "[]" and d = NULL]) (simp_all add: w1_def)
  have "resume_ok wid W1 e s w1 w' \<or> (\<exists>u s. settled wid W1 e s w1 u w')"
    using wp_ResumeOrFinish [OF W1 ok(1), of True v e s] run1 by (auto simp: wp_def)
  then have "accounts w1 [] (guard_of ReleaseEvent e) w'"
    using resumed_accounts [OF _ W1 ok(2) fin] settled_accounts [OF _ W1 ok(2) fin]
    unfolding resume_ok_def by blast
  then show ?thesis using accounts_trans [OF w1] by simp
qed

section \<open>Whole sessions\<close>

lemma session_accounts:
  assumes "session v C es w = Some (got, gave, w')" and "prio w = LOW" and "launches_ok w" and "finite_tables w"
    and "list_all event_fits es"
  shows "accounts w got gave w'"
  using assms
proof (induction es arbitrary: w got gave)
  case Nil
  then show ?case by (auto intro!: accountsI [where u = "[]" and d = NULL])
next
  case (Cons x es)
  obtain g b w1 got2 gave2 where step: "accounts w g b w1" and rest: "session v C es w1 = Some (got2, gave2, w')"
    and eq: "got = g @ got2" "gave = b @ gave2"
  proof (cases x)
    case (App c)
    then obtain h w1 got2 gave2 where "app_exec v C c w = (Ok h, w1)" "session v C es w1 = Some (got2, gave2, w')"
      "got = handed c h @ got2" "gave = returned c w w1 @ gave2"
      using Cons.prems(1) by (auto split: prod.splits outcome.splits option.splits)
    moreover have "call_fits c" using Cons.prems(5) App by simp
    ultimately show ?thesis using that [OF call_accounts [OF _ Cons.prems(2-4)]] by blast
  next
    case (Resume wid e s Read)
    then obtain w1 got2 gave2 where "resume v wid e s Read w = (Ok (), w1)" "session v C es w1 = Some (got2, gave2, w')"
      "got = got2" "gave = guard_of ReleaseEvent e @ gave2"
      using Cons.prems(1) by (auto split: prod.splits outcome.splits option.splits)
    then show ?thesis using that [of "[]", OF resume_accounts [OF _ Cons.prems(3,4)]] by simp
  qed
  have "accounts w1 got2 gave2 w'"
    using Cons.IH [OF rest] step Cons.prems(2,5) by (simp add: accounts_def)
  then show ?case unfolding eq using step by (rule accounts_trans [rotated])
qed

text \<open>The state of the library when the process starts.\<close>

definition start_up :: "nat \<Rightarrow> u64 \<Rightarrow> runtime" where
  "start_up L T = \<lparr>calls = [], guards = [], LogLevel = L, prio = LOW, CRThreshold = T, QT = Map.empty,
     PT = Map.empty, KT = Map.empty, works = Map.empty, serial = 0, map_ptr = 0\<rparr>"

text \<open>
  C5. A low priority process never loses or gives away a reference. Whatever calls the application
  makes, in whatever order, whatever the vendor answers and whenever it calls back: the references
  the library has taken and not released are those in its tables, those it handed to the
  application, and events on which it asked for a callback, less what came back from the
  application and with the callbacks.
\<close>

theorem session_balanced:
  assumes "session v C es (start_up L T) = Some (got, gave, w')" and "list_all event_fits es"
  shows "\<exists>ds. mset ds \<subseteq># mset (awaited (calls w')) \<and>
     (\<forall>b. owed (calls w') b = held w' b + pending got b + pending (concat (map (guard_of ReleaseEvent) ds)) b - pending gave b)"
proof -
  have "accounts (start_up L T) got gave w'"
    by (rule session_accounts [OF assms(1) _ _ _ assms(2)])
      (simp_all add: start_up_def launches_ok_def finite_tables_def)
  then obtain u ds where "calls w' = u" "mset ds \<subseteq># mset (awaited u)" "guards w' = []"
    "\<forall>b. surplus w' b = surplus (start_up L T) b + pending got b + pending (concat (map (guard_of ReleaseEvent) ds)) b - pending gave b"
    unfolding accounts_def by (auto simp: start_up_def)
  moreover have "surplus (start_up L T) b = 0" for b by (simp add: surplus_def held_def start_up_def)
  moreover have "owed (calls w') b = surplus w' b + held w' b" for b using calculation(3) by (simp add: surplus_def)
  ultimately show ?thesis by (intro exI [of _ ds]) simp
qed

text \<open>An application that creates a queue, enqueues a marker and releases the queue.\<close>

definition demo_session :: "session_event list" where
  "demo_session = [App (App_CreateCommandQueue 5 2 0 True), App (App_Marker 1 True), App (App_ReleaseCommandQueue 1)]"

definition demo_vendor :: vendor where
  "demo_vendor t a = \<lparr>ret = CL_SUCCESS, obj = length t + 1, num = (case a of GetQueueRefCount q \<Rightarrow> 1 | _ \<Rightarrow> 0),
     nums = [], str = []\<rparr>"

lemma demo_session_run:
  "map_option (\<lambda>(got, gave, w). (got, gave, made (calls w), QT w)) (session demo_vendor C demo_session (start_up 0 0)) =
     Some ([ReleaseCommandQueue 1, ReleaseEvent 3], [ReleaseCommandQueue 1],
       [CreateCommandQueue 5 2 0, CreateCommandQueue 5 2 3, Enqueue Marker 1 [] True, RetainEvent 3,
        GetQueueRefCount 1, ReleaseEvent 3, ReleaseCommandQueue 2, ReleaseCommandQueue 1], Map.empty)"
  by (simp add: demo_session_def demo_vendor_def start_up_def clCreateCommandQueue_def clEnqueueMarker_def
     EnqueueUnscheduled_def clReleaseCommandQueue_def Reorder_def ReorderCore_def EnqueueFunc_def QT_emplace_def
     shadow_properties_def CL_QUEUE_OUT_OF_ORDER_EXEC_MODE_ENABLE_def CL_QUEUE_PROFILING_ENABLE_def run_defs
     returned_def queue_refs_def err_ret_def
     del: andThen_get andThen_call andThen_modify andThen_own_obj andThen_disown_obj andThen_OCL_ASSERT andThen_INTER_ASSERT)

lemma session_balanced_witness:
  "\<exists>got gave w'. session demo_vendor (\<lambda>_ _. (True, [], [])) demo_session (start_up 0 0) = Some (got, gave, w') \<and>
     owed (calls w') (ReleaseEvent 3) = held w' (ReleaseEvent 3) + 1 \<and>
     owed (calls w') (ReleaseCommandQueue 2) = held w' (ReleaseCommandQueue 2)"
proof -
  obtain got gave w' where run: "session demo_vendor (\<lambda>_ _. (True, [], [])) demo_session (start_up 0 0) = Some (got, gave, w')"
    and r: "got = [ReleaseCommandQueue 1, ReleaseEvent 3]" "gave = [ReleaseCommandQueue 1]"
    and c: "made (calls w') = [CreateCommandQueue 5 2 0, CreateCommandQueue 5 2 3, Enqueue Marker 1 [] True, RetainEvent 3,
        GetQueueRefCount 1, ReleaseEvent 3, ReleaseCommandQueue 2, ReleaseCommandQueue 1]"
    using demo_session_run [of "\<lambda>_ _. (True, [], [])"] by auto
  have "awaited (calls w') = []" by (simp add: awaited_def c)
  then show ?thesis
    using session_balanced [OF run] run by (simp add: demo_session_def r)
qed

end
