(* ===== verification/Spec2Isabelle.thy ===== *)
theory Spec2Isabelle
  imports Guards Keeper CompilerDriver Instrument Inliner Rename Service WorkSize Session
begin

text \<open>
  CLPKM makes OpenCL kernels preemptible. An application is linked against a library in front of
  the vendor's OpenCL implementation. In a high priority process the library passes every call on
  and tells a scheduling daemon which kinds of work (computing, copying) are in flight. In a low
  priority process it blocks the start of work of a kind that some high priority process is
  doing, and it does not run the application's kernels as they are: a compiler has rewritten them
  so that a work-item saves its live variables and leaves at checkpoints, and the library enqueues
  the kernel again and again until the header, one number per work-item, says that all are done.

  \<^bold>\<open>Parts and theories.\<close> Source names are relative to \<open>src/\<close>.

  \<^item> Shared ground. \<open>Prelude\<close>: machine words, outcomes (\<open>Ok\<close>, \<open>Throw\<close>, \<open>Abort\<close>, \<open>Crash\<close>
    for undefined behaviour), lists and maps. \<open>Vendor\<close>: the calls to the vendor, which is a
    function from the trace of calls to a reply; programs over a world that keeps the trace;
    \<open>OCL_ASSERT\<close> and \<open>INTER_ASSERT\<close> of \<open>runtime/ErrorHandling.hpp\<close>; scopes with pending finalisers
    (\<open>runtime/ResourceGuard.hpp\<close>). \<open>Guards\<close>: the guard variables of the runtime and of the daemon,
    with moves, swaps and releases; leaving a scope finalises the list \<open>Vendor\<close> keeps, in its
    order. \<open>Ledger\<close>: a program logic that counts references created and released. \<open>Keeper\<close>: log
    output of the daemon (\<open>daemon/DaemonKeeper.{hpp,cpp}\<close>) and \<open>Lookup\<close>
    (\<open>runtime/LookupVendorImpl.cpp\<close>).

  \<^item> The daemon, \<open>daemon/Main.cpp\<close> and \<open>daemon/TaskKind.hpp\<close>. \<open>TaskKind\<close>: bitmaps and their
    branch-free updates. \<open>Registry\<close>: what the processes may rely on, as the locale
    \<open>task_registry\<close>. \<open>Daemon\<close>: configuration, one bitmap per process, one counter per kind, the
    global bitmap, the handlers, start-up and main loop; it interprets the locale.

  \<^item> The schedule service, \<open>runtime/ScheduleService.{hpp,cpp}\<close>. \<open>SchedGuard\<close>: the guard of an API
    function and the callback that ends its task. \<open>SchedHigh\<close>, \<open>SchedLow\<close>: \<open>SchedStart\<close>, \<open>SchedEnd\<close> and
    the worker of a process of either priority, as step relations in which threads, worker and
    time interleave. \<open>Service\<close>: constructor, \<open>StartBus\<close>, \<open>Terminate\<close> and the log level of
    \<open>runtime/RuntimeKeeper.cpp\<close>.

  \<^item> The run-time library. \<open>Runtime\<close>: the tables of \<open>runtime/RuntimeKeeper.hpp\<close>, and the launches in
    flight (\<open>CallbackData\<close> of \<open>runtime/Callback.hpp\<close>). \<open>Header\<close>, \<open>Launch\<close>: \<open>UpdateHeader\<close>, \<open>MetaEnqueue\<close>,
    \<open>ResumeOrFinish\<close> and the clean-up of \<open>runtime/Callback.cpp\<close>. \<open>WorkSize\<close>, \<open>HumanReadable\<close>,
    \<open>Reorder\<close>: the functions of \<open>runtime/Support.cpp\<close>. \<open>Tables\<close>, \<open>Kernels\<close>, \<open>Enqueue\<close>, \<open>NDRange\<close>: the
    functions of \<open>runtime/Interface.cpp\<close>: contexts, queues and programs; kernels and arguments; the
    copy, map and marker commands; \<open>clEnqueueNDRangeKernel\<close>. \<open>Accounts\<close>, \<open>Guarded\<close>, \<open>KernelLaunch\<close>:
    what these do to the references and the tables. \<open>Session\<close>: any sequence of calls of an application
    and callbacks of the vendor.

  \<^item> The compiler and its driver. \<open>CompilerDriver\<close>: \<open>runtime/CompilerDriver.cpp\<close> over the answers of
    the system calls. \<open>Profile\<close>: \<open>cc/KernelProfile.hpp\<close>, the profiles as they are written and read.
    \<open>Toolkit\<close>: \<open>toolkit.cl\<close>, the functions instrumented kernels call, on a memory of bytes.
    \<open>LiveVar\<close>: \<open>cc/LiveVarTracker.{hpp,cpp}\<close>. \<open>Covfefe\<close>: the checkpoint and resume code that
    \<open>cc/Instrumentor.cpp\<close> generates, as copies that run on that memory, and as text. \<open>Instrument\<close>:
    the visitors, the traversal and the front-end action (\<open>cc/Instrumentor.{hpp,cpp}\<close>,
    \<open>cc/Main.cpp\<close>).

  \<^item> The source tools. \<open>Names\<close>: the locale \<open>name_supply\<close>. \<open>Rename\<close>: \<open>rename-lst-gen/Main.cpp\<close>.
    \<open>Inliner\<close>: \<open>inliner/Main.cpp\<close>.

  \<^bold>\<open>State.\<close> A C++ object is a record with a field per member; a table is a map from handles. A
  pointer into a table is the handle with the serial number its target got, so a dangling pointer
  resolves to nothing. A function that throws, aborts or runs into undefined behaviour has these as
  values. Handles, counters of objects and sizes that cannot overflow are natural numbers; the rest
  is kept at its width, or reduced modulo \<open>2 ^ 64\<close> where the code computes it.

  \<^bold>\<open>What is shown.\<close>

  \<^item> Daemon and service: the counters agree with the bitmaps of the processes after any messages,
    and the global bitmap is the union of what the connected processes last reported; every change
    is announced once. In a high priority process every difference from what was reported has a
    timer pending, a kind is withdrawn only after a second without work, reports are well-formed
    and never repeat. In a low priority process no wake-up is lost and the worker releases everybody
    whose kind is free in boundedly many steps. This theory puts them together (\<open>report_granted\<close>,
    \<open>system_exact\<close>).

  \<^item> Launches: the header loop equals a specification by work-groups; a callback that returns
    either starts the next run or settles the final event once and releases what the launch owned;
    with a device that makes progress a launch ends, from the application's call to the settled
    event. Over a whole session, whatever calls fail, every reference taken is in a table, with the
    application, or waits for a callback (\<open>session_balanced\<close>). A measure on headers is the hypothesis
    for progress, and it bounds the number of callbacks.

  \<^item> Compiler: what a checkpoint stores is what the resume code loads, inside the buffers the
    profile asks for; exactly the live variables are saved, checkpoints are numbered without gaps,
    and the compiler writes its output once or refuses. The profile survives its YAML form. The
    driver returns everything the compiler wrote and closes each descriptor once, but a failed
    \<open>fork\<close> makes it signal every process.

  \<^item> Source tools: every variable gets a name of its own; every call of a function with a body is
    replaced once, or recursion is reported, exactly if the call graph has a cycle.

  \<^bold>\<open>Loops, fuel and bounds.\<close> The loop of \<open>UpdateHeader\<close>, those of the driver on \<open>read\<close> and \<open>write\<close> and
  the group copies of \<open>Toolkit\<close> are partial functions, whose value \<open>None\<close> is not returning; that they
  return is proved with its condition. The inliner has fuel \<open>m\<close> for its recursion and \<open>n\<close> for its
  outer loop: more than, and at least, the number of functions with calls is enough, since a chain of
  calls without repetition is no longer and each turn removes an entry. \<open>drive\<close> of \<open>Launch\<close> has as
  fuel the number of callbacks. All other recursion ends by a measure.

  \<^bold>\<open>Interfaces.\<close> \<open>task_registry\<close> (interpreted on the daemon), \<open>scope_guards\<close> (on both guard classes),
  \<open>save_area\<close> (on the copies that the checkpoint code makes) and \<open>name_supply\<close> (on the renamed
  variables and on the labels of inlined calls).

  \<^bold>\<open>Not modelled.\<close>

  \<^item> Locks of the run-time tables: API calls run one at a time. The service's mutex is modelled, as
    the atomicity of its critical sections, and so are the races around it.

  \<^item> Memory exhaustion (\<open>std::bad_alloc\<close>), time stamps taken for the event log, and the texts of log
    messages and of \<open>strerror\<close>; where a log line runs code that can go wrong, that code is there.

  \<^item> The vendor's OpenCL, \<open>sd-bus\<close>, \<open>yaml-cpp\<close>, LLVM's YAML writer and the dynamic linker: parameters.
    Clang's trees, rewriter and analyses are parameters too, as is what they say of a source; the
    expansion of macro locations in the inliner is part of that.

  \<^item> The \<open>main\<close> functions of the three front-ends and the string concatenation of \<open>cc/Utility.hpp\<close>,
    which only connect what is modelled to Clang, and \<open>tools/misc/SimpleWorkload\<close>, an example
    application.
\<close>

section \<open>Processes and the daemon\<close>

lemma valid_report: "(\<forall>k. bit b k \<longrightarrow> k < 2) \<Longrightarrow> valid_bitmap b"
  by (simp add: valid_bitmap_def valid_bits)

lemma sent_valid: "hstep\<^sup>*\<^sup>* init_proc p \<Longrightarrow> b \<in> set (sent p @ unsent (pc p)) \<Longrightarrow> valid_bitmap b"
  using reachable_inv [of p] valid_report by (auto simp: proc_inv_def sent_inv_def)

text \<open>
  C12. A report is always granted: whatever state the daemon is in, it answers the report of
  a reachable high priority process with true, so the worker's assertion on the answer holds.
\<close>

theorem report_granted:
  assumes "hstep\<^sup>*\<^sup>* init_proc p" and "pc p = Reporting b"
  shows "\<exists>t'. SetHighPrioTaskBitmap s (ReadOk b) t = (t', ReplyBool True) \<and>
     Report 0 (ReadOk True) = Ok ()"
proof -
  have "valid_bitmap b" using sent_valid [OF assms(1), of b] assms(2) by (simp add: unsent_def)
  then show ?thesis by (auto simp: valid_bitmap_def Report_def Let_def split: prod.splits)
qed

lemma demo_reporting_reachable:
  "hstep\<^sup>*\<^sup>* init_proc (demo_woken\<lparr>srv := demo_reported, pc := Reporting 1\<rparr>)"
  using demo_woken_reachable demo_report by (rule rtranclp.rtrancl_into_rtrancl)

lemma report_granted_witness:
  "\<exists>t'. SetHighPrioTaskBitmap ''a'' (ReadOk 1) init_task = (t', ReplyBool True)"
  using report_granted [OF demo_reporting_reachable, of 1] by auto

text \<open>A process whose worker has nothing left to do for a kind has told the daemon the truth.\<close>

lemma settled_last:
  assumes "hstep\<^sup>*\<^sup>* init_proc p" and "pc p = Polling" and "k < NumOfTaskKind"
    and "TimerFd (srv p) ! k = None"
  shows "bit (last (0 # sent p)) k \<longleftrightarrow> Count (srv p) ! k \<noteq> 0"
proof -
  have "last (0 # sent p) = OldBitmap (srv p)" "kind_inv (srv p) k"
    using reachable_inv [OF assms(1)] assms(2,3) by (simp_all add: proc_inv_def sent_inv_def unsent_def high_inv_def)
  then show ?thesis using assms(4) by (auto simp: kind_inv_def)
qed



end
